(* ===== verification/Prelude.thy ===== *)
theory Prelude
  imports Main "HOL-Library.Word"
begin

text \<open>
  Shared vocabulary of the development: the machine integer types the C sources use,
  pointers, the collections that carry the component proofs, and generic facts on words,
  lists and function updates that more than one component needs.
\<close>

unbundle bit_operations_syntax

section \<open>Machine types\<close>

type_synonym u8 = "8 word"
type_synonym u16 = "16 word"
type_synonym u32 = "32 word"
type_synonym u64 = "64 word"
type_synonym byte = "8 word"

text \<open>An address; \<open>NULL\<close> is the C null pointer.\<close>

type_synonym ptr = nat

abbreviation (input) NULL :: ptr where
  "NULL \<equiv> 0"

text \<open>
  \<open>heap_frame\<close> collects the facts that say which fields of an item an operation leaves
  alone; \<open>wordlift\<close> the facts that move word arithmetic to \<open>nat\<close>.
\<close>

named_theorems heap_frame
named_theorems wordlift

section \<open>Words\<close>

lemma unat_and_mask [wordlift]: "unat (w AND mask n) = unat w mod 2 ^ n"
  by (simp only: take_bit_eq_mask [symmetric] unsigned_take_bit_eq) (simp add: take_bit_eq_mod)

lemma unat_ucast_up:
  fixes w :: "'a::len word"
  assumes "LENGTH('a) \<le> LENGTH('b)"
  shows "unat (ucast w :: 'b::len word) = unat w"
proof -
  have "unat w < 2 ^ LENGTH('a)" by (rule unsigned_less)
  also have "\<dots> \<le> (2::nat) ^ LENGTH('b)" using assms by (simp add: power_increasing)
  finally show ?thesis by (simp add: unsigned_ucast_eq take_bit_nat_eq_self)
qed

lemma unat_ucast_u32_u64 [wordlift, simp]: "unat (ucast (w :: u32) :: u64) = unat w"
  by (rule unat_ucast_up) simp

lemma unat_2_power: "n < LENGTH('a) \<Longrightarrow> unat ((2::'a::len word) ^ n) = 2 ^ n"
proof -
  assume "n < LENGTH('a)"
  then have "unat (of_nat (2 ^ n) :: 'a word) = 2 ^ n"
    by (simp only: unat_of_nat) (simp add: power_strict_increasing)
  then show ?thesis by simp
qed

lemma push_bit_one_minus_one: "push_bit n 1 - 1 = (mask n :: 'a::len word)"
  by (simp add: mask_eq_decr_exp push_bit_eq_mult)

lemma unat_push_bit_one [wordlift]:
  "n < LENGTH('a) \<Longrightarrow> unat (push_bit n (1 :: 'a::len word)) = 2 ^ n"
  by (simp add: push_bit_eq_mult unat_2_power)

lemma unat_Suc_word: "unat w + 1 < 2 ^ LENGTH('a) \<Longrightarrow> unat (w + 1 :: 'a::len word) = unat w + 1"
  by (simp add: unat_word_ariths)

section \<open>Options\<close>

lemma option_eqI: "(\<And>p. x = Some p \<longleftrightarrow> y = Some p) \<Longrightarrow> x = y"
  by (cases x; cases y) auto

section \<open>Lists\<close>

lemma distinct_concat_map:
  assumes "distinct is" and "\<And>i. i \<in> set is \<Longrightarrow> distinct (C i)"
    and "\<And>i j. i \<in> set is \<Longrightarrow> j \<in> set is \<Longrightarrow> i \<noteq> j \<Longrightarrow> set (C i) \<inter> set (C j) = {}"
  shows "distinct (concat (map C is))"
  using assms
proof (induction "is")
  case (Cons i js)
  then have "set (C i) \<inter> set (C j) = {}" if "j \<in> set js" for j
    using that by (metis distinct.simps(2) list.set_intros)
  with Cons show ?case by auto
qed simp

section \<open>Heaps\<close>

text \<open>Change the object at one address.\<close>

definition hupd :: "nat \<Rightarrow> ('a \<Rightarrow> 'a) \<Rightarrow> (nat \<Rightarrow> 'a) \<Rightarrow> nat \<Rightarrow> 'a" where
  "hupd p f m = m(p := f (m p))"

lemma hupd_same [simp]: "hupd p f m p = f (m p)"
  by (simp add: hupd_def)

lemma hupd_other [simp]: "q \<noteq> p \<Longrightarrow> hupd p f m q = m q"
  by (simp add: hupd_def)

lemma hupd_apply: "hupd p f m q = (if q = p then f (m q) else m q)"
  by (simp add: hupd_def)

lemma hupd_field [heap_frame]:
  "(\<And>x. g (f x) = g x) \<Longrightarrow> g (hupd p f m q) = g (m q)"
  by (simp add: hupd_def)

end
