(* ===== verification/Heap_Lists.thy ===== *)
theory Heap_Lists
  imports Prelude
begin

text \<open>
  Linked lists in a heap, over any \<open>next\<close> and \<open>prev\<close> fields given as functions from
  addresses to addresses. \<open>chain\<close> is the null-terminated singly linked list, \<open>dqueue\<close> the
  null-terminated doubly linked list with a head and a tail pointer. The lemmas describe
  pushing at the head, removing an element, and updates elsewhere in the heap.
\<close>

section \<open>Singly linked chains\<close>

primrec chain :: "(ptr \<Rightarrow> ptr) \<Rightarrow> ptr \<Rightarrow> ptr list \<Rightarrow> bool" where
  "chain nx p [] \<longleftrightarrow> p = NULL"
| "chain nx p (a # as) \<longleftrightarrow> p = a \<and> a \<noteq> NULL \<and> chain nx (nx a) as"

section \<open>Doubly linked queues\<close>

text \<open>
  \<open>dseg nx pv b p xs e n\<close>: starting at \<open>p\<close>, whose predecessor is \<open>b\<close>, the \<open>next\<close> pointers
  run through \<open>xs\<close> and end in \<open>n\<close>; \<open>e\<close> is the last element (or \<open>b\<close> if there is none).
\<close>

primrec dseg :: "(ptr \<Rightarrow> ptr) \<Rightarrow> (ptr \<Rightarrow> ptr) \<Rightarrow> ptr \<Rightarrow> ptr \<Rightarrow> ptr list \<Rightarrow> ptr \<Rightarrow> ptr \<Rightarrow> bool" where
  "dseg nx pv b p [] e n \<longleftrightarrow> p = n \<and> e = b"
| "dseg nx pv b p (a # as) e n \<longleftrightarrow> p = a \<and> a \<noteq> NULL \<and> pv a = b \<and> dseg nx pv a (nx a) as e n"

definition dqueue :: "(ptr \<Rightarrow> ptr) \<Rightarrow> (ptr \<Rightarrow> ptr) \<Rightarrow> ptr \<Rightarrow> ptr \<Rightarrow> ptr list \<Rightarrow> bool" where
  "dqueue nx pv h t xs \<longleftrightarrow> dseg nx pv NULL h xs t NULL \<and> distinct xs"

section \<open>Chains\<close>

lemma chain_NULL [simp]: "chain nx NULL xs \<longleftrightarrow> xs = []"
  by (cases xs) auto

lemma chain_nonnull: "chain nx p xs \<Longrightarrow> NULL \<notin> set xs"
  by (induction xs arbitrary: p) auto

lemma chain_unique: "chain nx p xs \<Longrightarrow> chain nx p ys \<Longrightarrow> xs = ys"
proof (induction xs arbitrary: p ys)
  case (Cons a as)
  then show ?case by (cases ys) auto
qed auto

lemma chain_cases_nonnull: "p \<noteq> NULL \<Longrightarrow> chain nx p xs \<Longrightarrow> \<exists>as. xs = p # as \<and> chain nx (nx p) as"
  by (cases xs) auto

lemma chain_suffix: "chain nx p (xs @ ys) \<Longrightarrow> \<exists>q. chain nx q ys"
  by (induction xs arbitrary: p) auto

lemma chain_distinct: "chain nx p xs \<Longrightarrow> distinct xs"
proof (induction xs arbitrary: p)
  case (Cons a as)
  have "a \<notin> set as"
  proof
    assume "a \<in> set as"
    then obtain us vs where as: "as = us @ a # vs" by (meson split_list)
    with Cons.prems have "chain nx p ((a # us) @ a # vs)" by simp
    then obtain q where "chain nx q (a # vs)" by (blast dest: chain_suffix)
    then have "chain nx a (a # vs)" by simp
    moreover have "chain nx a (a # as)" using Cons.prems by simp
    ultimately have "a # vs = a # as" by (rule chain_unique)
    with as show False by simp
  qed
  with Cons show ?case by auto
qed simp

lemma chain_cong:
  "(\<And>q. q \<in> set xs \<Longrightarrow> nx q = nx' q) \<Longrightarrow> chain nx p xs = chain nx' p xs"
  by (induction xs arbitrary: p) auto

lemma chain_frame: "q \<notin> set xs \<Longrightarrow> chain (nx(q := v)) p xs = chain nx p xs"
  by (rule chain_cong) auto

lemma chain_push:
  "chain nx p xs \<Longrightarrow> q \<noteq> NULL \<Longrightarrow> q \<notin> set xs \<Longrightarrow> chain (nx(q := p)) q (q # xs)"
  by (simp add: chain_frame)

text \<open>Unlinking an inner element: its predecessor takes over its \<open>next\<close> pointer.\<close>

lemma chain_remove_inner:
  assumes "chain nx p (xs @ b # a # ys)"
  shows "chain (nx(a := NULL, b := nx a)) p (xs @ b # ys)"
proof -
  have d: "distinct (xs @ b # a # ys)" using assms by (rule chain_distinct)
  from assms d show ?thesis
  proof (induction xs arbitrary: p)
    case Nil
    have "chain (nx(a := NULL, b := nx a)) (nx a) ys = chain nx (nx a) ys"
      by (rule chain_cong) (use Nil in auto)
    moreover have "(nx(a := NULL, b := nx a)) b = nx a" by simp
    ultimately show ?case using Nil by (simp only: append_Nil chain.simps) simp
  qed auto
qed

lemma chain_remove_head:
  assumes "chain nx p (a # ys)"
  shows "chain (nx(a := NULL)) (nx a) ys"
  using assms chain_distinct [OF assms] by (auto simp: chain_frame)

section \<open>Segments and queues\<close>

lemma dseg_append:
  "dseg nx pv b p (xs @ ys) e n \<longleftrightarrow> (\<exists>f q. dseg nx pv b p xs f q \<and> dseg nx pv f q ys e n)"
  by (induction xs arbitrary: b p) auto

lemma dseg_nonnull: "dseg nx pv b p xs e n \<Longrightarrow> NULL \<notin> set xs"
  by (induction xs arbitrary: b p) auto

lemma dseg_last: "dseg nx pv b p xs e n \<Longrightarrow> e = (if xs = [] then b else last xs)"
  by (induction xs arbitrary: b p) auto

lemma dseg_first: "dseg nx pv b p xs e n \<Longrightarrow> p = (if xs = [] then n else hd xs)"
  by (cases xs) auto

lemma dseg_cong:
  "(\<And>q. q \<in> set xs \<Longrightarrow> nx q = nx' q \<and> pv q = pv' q) \<Longrightarrow>
   dseg nx pv b p xs e n = dseg nx' pv' b p xs e n"
  by (induction xs arbitrary: b p) auto

lemma dseg_change_end:
  "dseg nx pv b p xs e n \<Longrightarrow> xs \<noteq> [] \<Longrightarrow> distinct xs \<Longrightarrow> dseg (nx(e := n')) pv b p xs e n'"
proof (induction xs arbitrary: b p)
  case (Cons a as)
  show ?case
  proof (cases "as = []")
    case True
    with Cons.prems show ?thesis by simp
  next
    case False
    with Cons.prems have "e \<in> set as" by (auto dest!: dseg_last)
    with Cons False show ?thesis by auto
  qed
qed simp

lemma dseg_change_before:
  "dseg nx pv b p (a # as) e n \<Longrightarrow> a \<notin> set as \<Longrightarrow> dseg nx (pv(a := b')) b' p (a # as) e n"
  by (auto intro: dseg_cong [THEN iffD1, rotated])

lemma dqueue_cong:
  "(\<And>q. q \<in> set xs \<Longrightarrow> nx q = nx' q \<and> pv q = pv' q) \<Longrightarrow>
   dqueue nx pv h t xs = dqueue nx' pv' h t xs"
  unfolding dqueue_def by (metis dseg_cong)

lemma dqueue_nonnull: "dqueue nx pv h t xs \<Longrightarrow> NULL \<notin> set xs"
  by (auto simp: dqueue_def dest: dseg_nonnull)

lemma dqueue_distinct: "dqueue nx pv h t xs \<Longrightarrow> distinct xs"
  by (simp add: dqueue_def)

lemma dqueue_head: "dqueue nx pv h t xs \<Longrightarrow> h = (if xs = [] then NULL else hd xs)"
  by (auto simp: dqueue_def dest: dseg_first)

lemma dqueue_tail: "dqueue nx pv h t xs \<Longrightarrow> t = (if xs = [] then NULL else last xs)"
  by (auto simp: dqueue_def dest: dseg_last)

lemma dqueue_empty [simp]: "dqueue nx pv h t [] \<longleftrightarrow> h = NULL \<and> t = NULL"
  by (auto simp: dqueue_def)

lemma dqueue_push:
  assumes q: "dqueue nx pv h t xs" and p: "p \<noteq> NULL" "p \<notin> set xs"
  shows "dqueue (nx(p := h)) ((if h \<noteq> NULL then pv(h := p) else pv)(p := NULL))
           p (if t = NULL then p else t) (p # xs)"
proof (cases xs)
  case Nil
  with q p show ?thesis by (simp add: dqueue_def)
next
  case (Cons a as)
  with q have h: "h = a" "a \<noteq> NULL" and d: "distinct xs" by (auto simp: dqueue_def)
  have t: "t = last xs" using q Cons by (auto dest: dqueue_tail)
  have tn: "t \<noteq> NULL" using t Cons dqueue_nonnull [OF q] by (metis last_in_set list.distinct(1))
  have "dseg nx (pv(a := p)) p a (a # as) t NULL"
    using q Cons h d by (intro dseg_change_before [where b = NULL]) (auto simp: dqueue_def)
  moreover have "dseg (nx(p := h)) ((pv(a := p))(p := NULL)) p a (a # as) t NULL =
        dseg nx (pv(a := p)) p a (a # as) t NULL"
    using p Cons by (intro dseg_cong) auto
  ultimately show ?thesis using h p tn d Cons by (auto simp: dqueue_def)
qed

text \<open>
  Removing \<open>p\<close>, as the C code does it: the head and tail pointers are moved when they point
  at \<open>p\<close>, then the neighbours that exist are linked to each other.
\<close>

lemma dqueue_remove:
  assumes q: "dqueue nx pv h t (ys @ p # zs)"
  defines "n \<equiv> nx p" and "b \<equiv> pv p"
  shows "dqueue (if b \<noteq> NULL then nx(b := n) else nx) (if n \<noteq> NULL then pv(n := b) else pv)
           (if h = p then n else h) (if t = p then b else t) (ys @ zs)"
proof -
  let ?nx = "if b \<noteq> NULL then nx(b := n) else nx"
  let ?pv = "if n \<noteq> NULL then pv(n := b) else pv"
  from q have d: "distinct (ys @ p # zs)" by (rule dqueue_distinct)
  from q obtain f where
      left: "dseg nx pv NULL h ys f p" and pn: "p \<noteq> NULL" and bf: "b = f"
      and right: "dseg nx pv p n zs t NULL"
    by (auto simp: dqueue_def dseg_append b_def n_def)
  have nz: "n = (if zs = [] then NULL else hd zs)" using right by (auto dest: dseg_first)
  have bz: "b = (if ys = [] then NULL else last ys)" using left bf by (auto dest: dseg_last)
  have b_ys: "b \<noteq> NULL \<Longrightarrow> b \<in> set ys" using bz by (metis last_in_set)
  have n_zs: "n \<noteq> NULL \<Longrightarrow> n \<in> set zs" using nz by (metis hd_in_set)
  have hp: "h = p \<longleftrightarrow> ys = []" using left d by (auto dest!: dseg_first split: if_splits)
  have tp: "t = p \<longleftrightarrow> zs = []" using right d by (auto dest!: dseg_last split: if_splits)
  have L: "dseg ?nx ?pv NULL (if h = p then n else h) ys b n"
  proof (cases "ys = []")
    case True
    with hp bz show ?thesis by simp
  next
    case False
    have bn: "b \<noteq> NULL" using False bz dseg_nonnull [OF left] by (metis last_in_set)
    have "dseg (nx(b := n)) pv NULL h ys b n"
      using left False d bf by (auto intro: dseg_change_end)
    moreover have "dseg ?nx ?pv NULL h ys b n = dseg (nx(b := n)) pv NULL h ys b n"
      using bn d n_zs by (intro dseg_cong) auto
    ultimately show ?thesis using False hp by auto
  qed
  have R: "dseg ?nx ?pv b n zs (if t = p then b else t) NULL"
  proof (cases zs)
    case Nil
    with tp nz show ?thesis by simp
  next
    case (Cons a as)
    have na: "n = a" "a \<noteq> NULL" using Cons nz dseg_nonnull [OF right] by auto
    have "dseg nx pv p n (a # as) t NULL" using right Cons by simp
    from dseg_change_before [OF this] have "dseg nx (pv(a := b)) b n zs t NULL"
      using d Cons by simp
    moreover have "dseg ?nx ?pv b n zs t NULL = dseg nx (pv(a := b)) b n zs t NULL"
      using na d b_ys by (intro dseg_cong) auto
    ultimately show ?thesis using Cons tp by auto
  qed
  show ?thesis using L R d by (auto simp: dqueue_def dseg_append)
qed

text \<open>Inserting \<open>p\<close> in front of the element \<open>b\<close>, and appending it at the tail.\<close>

lemma dqueue_insert_before:
  assumes q: "dqueue nx pv h t (ys @ b # zs)" and p: "p \<noteq> NULL" "p \<notin> set (ys @ b # zs)"
  defines "f \<equiv> pv b"
  shows "dqueue ((if f \<noteq> NULL then nx(f := p) else nx)(p := b)) (pv(b := p, p := f))
           (if h = b then p else h) t (ys @ p # b # zs)"
proof -
  let ?nx = "(if f \<noteq> NULL then nx(f := p) else nx)(p := b)" and ?pv = "pv(b := p, p := f)"
  have d: "distinct (ys @ b # zs)" using q by (rule dqueue_distinct)
  obtain e where left: "dseg nx pv NULL h ys e b" and bn: "b \<noteq> NULL" and fe: "f = e"
      and right: "dseg nx pv e b (b # zs) t NULL"
    using q by (auto simp: dqueue_def dseg_append f_def)
  have fz: "f = (if ys = [] then NULL else last ys)" using left fe by (auto dest: dseg_last)
  have fys: "f \<noteq> NULL \<Longrightarrow> f \<in> set ys" using fz by (metis last_in_set)
  have hb: "h = b \<longleftrightarrow> ys = []" using left d by (auto dest!: dseg_first split: if_splits)
  have L: "dseg ?nx ?pv NULL (if h = b then p else h) ys f p"
  proof (cases "ys = []")
    case True
    with hb fz show ?thesis by simp
  next
    case False
    have fn: "f \<noteq> NULL" using False fz dseg_nonnull [OF left] by (metis last_in_set)
    have "dseg (nx(f := p)) pv NULL h ys f p" using left False d fe by (auto intro: dseg_change_end)
    moreover have "dseg ?nx ?pv NULL h ys f p = dseg (nx(f := p)) pv NULL h ys f p"
      using fn d p by (intro dseg_cong) auto
    ultimately show ?thesis using False hb by auto
  qed
  have "dseg nx (pv(b := p)) p b (b # zs) t NULL" using dseg_change_before [OF right] d by simp
  moreover have "dseg ?nx ?pv p b (b # zs) t NULL = dseg nx (pv(b := p)) p b (b # zs) t NULL"
    using d p fys by (intro dseg_cong) auto
  ultimately have R: "dseg ?nx ?pv p b (b # zs) t NULL" by simp
  have "dseg ?nx ?pv NULL (if h = b then p else h) (ys @ p # b # zs) t NULL"
    unfolding dseg_append using L R p by auto
  then show ?thesis using d p by (auto simp: dqueue_def)
qed

lemma dqueue_append:
  assumes q: "dqueue nx pv h t xs" and p: "p \<noteq> NULL" "p \<notin> set xs"
  shows "dqueue ((if t \<noteq> NULL then nx(t := p) else nx)(p := NULL)) (pv(p := t)) (if h = NULL then p else h) p (xs @ [p])"
proof (cases "xs = []")
  case True
  with q p show ?thesis by (simp add: dqueue_def)
next
  case False
  let ?nx = "(if t \<noteq> NULL then nx(t := p) else nx)(p := NULL)" and ?pv = "pv(p := t)"
  have d: "distinct xs" and nn: "NULL \<notin> set xs" using dqueue_distinct [OF q] dqueue_nonnull [OF q] by auto
  have t: "t = last xs" "h = hd xs" using dqueue_tail [OF q] dqueue_head [OF q] False by simp_all
  have tn: "t \<noteq> NULL" "h \<noteq> NULL" using t nn False by (metis last_in_set, metis hd_in_set)
  have "dseg (nx(t := p)) pv NULL h xs t p"
    using q False d by (intro dseg_change_end) (auto simp: dqueue_def)
  moreover have "dseg ?nx ?pv NULL h xs t p = dseg (nx(t := p)) pv NULL h xs t p"
    using tn p by (intro dseg_cong) auto
  ultimately show ?thesis using p d tn by (auto simp: dqueue_def dseg_append)
qed

end
