(* ===== verification/Item_Model.thy ===== *)
theory Item_Model
  imports Prelude
begin

text \<open>
  The item header of \<^verbatim>\<open>memcached.h\<close> and the heap it lives in. An item is a record with the
  fields of \<^verbatim>\<open>struct _stritem\<close>; the variable-sized part behind the header (CAS id, key,
  client flags, value) is kept as four fields, since the macros that compute its offsets
  only ever reach these four parts. The heap maps the address of every item to its record.
  The theory also holds the two shapes items are linked into: the singly linked hash chain
  (\<open>h_next\<close>) and the doubly linked queue (\<open>next\<close>/\<open>prev\<close>) shared by the LRUs and the slab
  free lists.
\<close>

section \<open>Items\<close>

record item =
  it_next :: ptr
  it_prev :: ptr
  h_next :: ptr
  it_time :: u32
  exptime :: u32
  nbytes :: int
  refcount :: u16
  it_flags :: u16
  slabs_clsid :: u8
  nkey :: u8
  data_cas :: u64
  data_key :: "byte list"
  data_suffix :: u32
  data_value :: "byte list"

type_synonym heap = "ptr \<Rightarrow> item"

definition zero_item :: item where
  "zero_item = \<lparr>it_next = NULL, it_prev = NULL, h_next = NULL, it_time = 0, exptime = 0,
     nbytes = 0, refcount = 0, it_flags = 0, slabs_clsid = 0, nkey = 0, data_cas = 0,
     data_key = [], data_suffix = 0, data_value = []\<rparr>"

abbreviation ITEM_LINKED :: u16 where "ITEM_LINKED \<equiv> 1"
abbreviation ITEM_CAS :: u16 where "ITEM_CAS \<equiv> 2"
abbreviation ITEM_SLABBED :: u16 where "ITEM_SLABBED \<equiv> 4"
abbreviation ITEM_FETCHED :: u16 where "ITEM_FETCHED \<equiv> 8"
abbreviation ITEM_ACTIVE :: u16 where "ITEM_ACTIVE \<equiv> 16"
abbreviation ITEM_CHUNKED :: u16 where "ITEM_CHUNKED \<equiv> 32"
abbreviation ITEM_CHUNK :: u16 where "ITEM_CHUNK \<equiv> 64"
abbreviation ITEM_HDR :: u16 where "ITEM_HDR \<equiv> 128"
abbreviation ITEM_CFLAGS :: u16 where "ITEM_CFLAGS \<equiv> 256"
abbreviation ITEM_TOKEN_SENT :: u16 where "ITEM_TOKEN_SENT \<equiv> 512"
abbreviation ITEM_STALE :: u16 where "ITEM_STALE \<equiv> 2048"
abbreviation ITEM_KEY_BINARY :: u16 where "ITEM_KEY_BINARY \<equiv> 4096"

text \<open>\<open>it->it_flags & f\<close> as a condition, \<open>|= f\<close> and \<open>&= ~f\<close>.\<close>

definition has_flag :: "u16 \<Rightarrow> item \<Rightarrow> bool" where
  "has_flag f it \<longleftrightarrow> it_flags it AND f \<noteq> 0"

definition set_flag :: "u16 \<Rightarrow> item \<Rightarrow> item" where
  "set_flag f it = it\<lparr>it_flags := it_flags it OR f\<rparr>"

definition clear_flag :: "u16 \<Rightarrow> item \<Rightarrow> item" where
  "clear_flag f it = it\<lparr>it_flags := it_flags it AND NOT f\<rparr>"

text \<open>Struct sizes of the 64-bit build, and the accessor macros.\<close>

definition sizeof_item :: nat where "sizeof_item = 48"
definition sizeof_item_chunk :: nat where "sizeof_item_chunk = 48"
definition sizeof_item_hdr :: nat where "sizeof_item_hdr = 12"

definition ITEM_get_cas :: "item \<Rightarrow> u64" where
  "ITEM_get_cas it = (if has_flag ITEM_CAS it then data_cas it else 0)"

definition ITEM_set_cas :: "u64 \<Rightarrow> item \<Rightarrow> item" where
  "ITEM_set_cas v it = (if has_flag ITEM_CAS it then it\<lparr>data_cas := v\<rparr> else it)"

definition ITEM_key :: "item \<Rightarrow> byte list" where
  "ITEM_key it = take (unat (nkey it)) (data_key it)"

definition ITEM_ntotal :: "item \<Rightarrow> u64" where
  "ITEM_ntotal it = of_nat sizeof_item + ucast (nkey it) + 1 + of_int (nbytes it)
     + (if has_flag ITEM_CFLAGS it then 4 else 0) + (if has_flag ITEM_CAS it then 8 else 0)"

definition ITEM_clsid :: "item \<Rightarrow> u8" where
  "ITEM_clsid it = slabs_clsid it AND NOT 192"

definition ITEM_lruid :: "item \<Rightarrow> u8" where
  "ITEM_lruid it = slabs_clsid it AND 192"

text \<open>\<open>memcmp(a, b, n) == 0\<close>.\<close>

definition memcmp_eq :: "byte list \<Rightarrow> byte list \<Rightarrow> nat \<Rightarrow> bool" where
  "memcmp_eq a b n \<longleftrightarrow> take n a = take n b"

text \<open>The comparison \<open>nkey == it->nkey && memcmp(key, ITEM_key(it), nkey) == 0\<close>.\<close>

definition key_matches :: "byte list \<Rightarrow> nat \<Rightarrow> item \<Rightarrow> bool" where
  "key_matches key nk it \<longleftrightarrow> nk = unat (nkey it) \<and> memcmp_eq key (data_key it) nk"

lemma key_matches_ITEM_key:
  "key_matches key nk it \<longleftrightarrow> nk = unat (nkey it) \<and> take nk key = ITEM_key it"
  by (auto simp: key_matches_def memcmp_eq_def ITEM_key_def)

text \<open>
  A stored key: its length fits the one-byte field and the key bytes are all there. For such
  an item a match says that the two keys are the same byte string.
\<close>

definition key_ok :: "item \<Rightarrow> bool" where
  "key_ok it \<longleftrightarrow> unat (nkey it) \<le> length (data_key it)"

lemma key_matches_iff:
  assumes "key_ok it" and "length key = nk"
  shows "key_matches key nk it \<longleftrightarrow> key = ITEM_key it"
  using assms by (auto simp: key_matches_ITEM_key key_ok_def ITEM_key_def)

section \<open>Flag algebra\<close>

lemma has_flag_set_same [simp]: "f \<noteq> 0 \<Longrightarrow> has_flag f (set_flag f it)"
  by (auto simp: has_flag_def set_flag_def bit_eq_iff bit_simps)

lemma has_flag_set_other [simp]: "f AND g = 0 \<Longrightarrow> has_flag f (set_flag g it) = has_flag f it"
  by (auto simp: has_flag_def set_flag_def bit_eq_iff bit_simps)

lemma has_flag_clear_same [simp]: "\<not> has_flag f (clear_flag f it)"
  by (auto simp: has_flag_def clear_flag_def bit_eq_iff bit_simps)

lemma has_flag_clear_other [simp]: "f AND g = 0 \<Longrightarrow> has_flag f (clear_flag g it) = has_flag f it"
  by (auto simp: has_flag_def clear_flag_def bit_eq_iff bit_simps)

end
