(* ===== verification/Assoc.thy ===== *)
theory Assoc
  imports Heap_Lists Item_Model
begin

text \<open>
  The hash table of \<^verbatim>\<open>assoc.c\<close>: chained buckets over \<open>h_next\<close>, and the incremental expansion
  that moves one bucket at a time from \<open>old_hashtable\<close> to \<open>primary_hashtable\<close> while lookups,
  inserts and deletes go on. The three fields of \<^verbatim>\<open>stats_state\<close> that only this file writes are
  part of its state. Locks are not state: each operation runs under the item lock of its key,
  so it is one atomic step, and the outcome of a \<open>trylock\<close> or of \<open>calloc\<close> is an argument.
  A loop over a chain that never ends, and a failed \<open>assert\<close>, are the result \<open>None\<close>.
\<close>

section \<open>State\<close>

record assoc =
  hashpower :: nat
  primary_hashtable :: "ptr list"
  old_hashtable :: "ptr list"
  expanding :: bool
  expand_bucket :: u64
  hash_power_level :: nat
  hash_bytes :: u64
  hash_is_expanding :: bool

abbreviation HASHPOWER_DEFAULT :: nat where "HASHPOWER_DEFAULT \<equiv> 16"
abbreviation HASHPOWER_MAX :: nat where "HASHPOWER_MAX \<equiv> 32"
abbreviation sizeof_ptr :: u64 where "sizeof_ptr \<equiv> 8"

text \<open>The globals as they are before \<open>assoc_init\<close> runs.\<close>

definition assoc_globals :: assoc where
  "assoc_globals = \<lparr>hashpower = HASHPOWER_DEFAULT, primary_hashtable = [], old_hashtable = [],
     expanding = False, expand_bucket = 0, hash_power_level = 0, hash_bytes = 0,
     hash_is_expanding = False\<rparr>"

type_synonym hash_fn = "byte list \<Rightarrow> nat \<Rightarrow> u32"

definition hashsize :: "nat \<Rightarrow> u64" where
  "hashsize n = push_bit n 1"

definition hashmask :: "nat \<Rightarrow> u64" where
  "hashmask n = hashsize n - 1"

section \<open>Operations\<close>

text \<open>\<open>calloc_ok\<close> says whether the allocation succeeds; if not, the process exits (\<open>None\<close>).\<close>

definition assoc_init :: "bool \<Rightarrow> nat \<Rightarrow> assoc \<Rightarrow> assoc option" where
  "assoc_init calloc_ok hashtable_init a =
     (let hp = (if hashtable_init \<noteq> 0 then hashtable_init else hashpower a)
      in if \<not> calloc_ok then None
         else Some (a\<lparr>hashpower := hp,
                      primary_hashtable := replicate (unat (hashsize hp)) NULL,
                      hash_power_level := hp,
                      hash_bytes := hashsize hp * sizeof_ptr\<rparr>))"

text \<open>The bucket an operation on hash value \<open>hv\<close> works on, and the array it is in.\<close>

datatype slot = Old_slot nat | Primary_slot nat

definition assoc_slot :: "assoc \<Rightarrow> u32 \<Rightarrow> slot" where
  "assoc_slot a hv =
     (let oldbucket = ucast hv AND hashmask (hashpower a - 1)
      in if expanding a \<and> oldbucket \<ge> expand_bucket a then Old_slot (unat oldbucket)
         else Primary_slot (unat (ucast hv AND hashmask (hashpower a))))"

fun slot_head :: "assoc \<Rightarrow> slot \<Rightarrow> ptr" where
  "slot_head a (Old_slot i) = old_hashtable a ! i"
| "slot_head a (Primary_slot i) = primary_hashtable a ! i"

fun set_slot :: "assoc \<Rightarrow> slot \<Rightarrow> ptr \<Rightarrow> assoc" where
  "set_slot a (Old_slot i) p = a\<lparr>old_hashtable := (old_hashtable a)[i := p]\<rparr>"
| "set_slot a (Primary_slot i) p = a\<lparr>primary_hashtable := (primary_hashtable a)[i := p]\<rparr>"

partial_function (option) assoc_find_loop :: "heap \<Rightarrow> byte list \<Rightarrow> nat \<Rightarrow> ptr \<Rightarrow> ptr option" where
  "assoc_find_loop m key nk it =
     (if it = NULL then Some NULL
      else if key_matches key nk (m it) then Some it
      else assoc_find_loop m key nk (h_next (m it)))"

definition assoc_find :: "byte list \<Rightarrow> nat \<Rightarrow> u32 \<Rightarrow> heap \<Rightarrow> assoc \<Rightarrow> ptr option" where
  "assoc_find key nk hv m a = assoc_find_loop m key nk (slot_head a (assoc_slot a hv))"

text \<open>
  \<open>item **pos\<close>: the place that holds an item pointer, either a bucket of one of the two arrays
  or the \<open>h_next\<close> field of an item.
\<close>

datatype item_loc = Bucket slot | Hnext ptr

fun read_loc :: "heap \<Rightarrow> assoc \<Rightarrow> item_loc \<Rightarrow> ptr" where
  "read_loc m a (Bucket s) = slot_head a s"
| "read_loc m a (Hnext p) = h_next (m p)"

fun write_loc :: "heap \<Rightarrow> assoc \<Rightarrow> item_loc \<Rightarrow> ptr \<Rightarrow> heap \<times> assoc" where
  "write_loc m a (Bucket s) v = (m, set_slot a s v)"
| "write_loc m a (Hnext p) v = (hupd p (h_next_update (\<lambda>_. v)) m, a)"

partial_function (option) hashitem_before_loop ::
    "heap \<Rightarrow> assoc \<Rightarrow> byte list \<Rightarrow> nat \<Rightarrow> item_loc \<Rightarrow> item_loc option" where
  "hashitem_before_loop m a key nk pos =
     (if read_loc m a pos \<noteq> NULL \<and> \<not> key_matches key nk (m (read_loc m a pos))
      then hashitem_before_loop m a key nk (Hnext (read_loc m a pos))
      else Some pos)"

definition hashitem_before :: "byte list \<Rightarrow> nat \<Rightarrow> u32 \<Rightarrow> heap \<Rightarrow> assoc \<Rightarrow> item_loc option" where
  "hashitem_before key nk hv m a = hashitem_before_loop m a key nk (Bucket (assoc_slot a hv))"

definition assoc_insert :: "ptr \<Rightarrow> u32 \<Rightarrow> heap \<Rightarrow> assoc \<Rightarrow> heap \<times> assoc" where
  "assoc_insert it hv m a =
     (let s = assoc_slot a hv
      in (hupd it (h_next_update (\<lambda>_. slot_head a s)) m, set_slot a s it))"

definition assoc_delete :: "byte list \<Rightarrow> nat \<Rightarrow> u32 \<Rightarrow> heap \<Rightarrow> assoc \<Rightarrow> (heap \<times> assoc) option" where
  "assoc_delete key nk hv m a =
     (case hashitem_before key nk hv m a of
        None \<Rightarrow> None
      | Some before \<Rightarrow>
          (let it = read_loc m a before
           in if it \<noteq> NULL
              then let nxt = h_next (m it);
                       m' = hupd it (h_next_update (\<lambda>_. NULL)) m
                   in Some (write_loc m' a before nxt)
              else None))"

section \<open>Expansion\<close>

definition assoc_expand :: "bool \<Rightarrow> assoc \<Rightarrow> assoc" where
  "assoc_expand calloc_ok a =
     (if calloc_ok
      then a\<lparr>old_hashtable := primary_hashtable a,
             primary_hashtable := replicate (unat (hashsize (hashpower a + 1))) NULL,
             hashpower := hashpower a + 1,
             expanding := True,
             expand_bucket := 0,
             hash_power_level := hashpower a + 1,
             hash_bytes := hash_bytes a + hashsize (hashpower a + 1) * sizeof_ptr,
             hash_is_expanding := True\<rparr>
      else a\<lparr>old_hashtable := primary_hashtable a\<rparr>)"

text \<open>Whether the maintenance thread is woken up.\<close>

definition assoc_start_expand :: "bool \<Rightarrow> u64 \<Rightarrow> assoc \<Rightarrow> bool" where
  "assoc_start_expand trylock_ok curr_items a \<longleftrightarrow>
     trylock_ok \<and> curr_items > (hashsize (hashpower a) * 3) div 2 \<and> hashpower a < HASHPOWER_MAX"

text \<open>The inner \<open>for\<close> over the items of the bucket that is being moved.\<close>

partial_function (option) assoc_move_loop ::
    "hash_fn \<Rightarrow> ptr \<Rightarrow> heap \<Rightarrow> assoc \<Rightarrow> (heap \<times> assoc) option" where
  "assoc_move_loop hash it m a =
     (if it = NULL then Some (m, a)
      else let nxt = h_next (m it);
               bucket = unat (ucast (hash (ITEM_key (m it)) (unat (nkey (m it))))
                                AND hashmask (hashpower a))
           in assoc_move_loop hash nxt
                (hupd it (h_next_update (\<lambda>_. primary_hashtable a ! bucket)) m)
                (a\<lparr>primary_hashtable := (primary_hashtable a)[bucket := it]\<rparr>))"

definition assoc_move_bucket :: "hash_fn \<Rightarrow> heap \<Rightarrow> assoc \<Rightarrow> (heap \<times> assoc) option" where
  "assoc_move_bucket hash m a =
     (case assoc_move_loop hash (old_hashtable a ! unat (expand_bucket a)) m a of
        None \<Rightarrow> None
      | Some (m', a') \<Rightarrow>
          (let a'' = a'\<lparr>old_hashtable := (old_hashtable a')[unat (expand_bucket a') := NULL],
                        expand_bucket := expand_bucket a' + 1\<rparr>
           in if expand_bucket a'' = hashsize (hashpower a'' - 1)
              then Some (m', a''\<lparr>expanding := False, old_hashtable := [],
                     hash_bytes := hash_bytes a'' - hashsize (hashpower a'' - 1) * sizeof_ptr,
                     hash_is_expanding := False\<rparr>)
              else Some (m', a'')))"

text \<open>
  The bulk loop of the maintenance thread: one list element per iteration up to
  \<open>hash_bulk_move\<close>, saying whether \<open>item_trylock\<close> of the bucket succeeded (if not, the thread
  sleeps). Then, when no expansion is running, it waits for a signal and expands the table.
\<close>

fun assoc_bulk_move :: "hash_fn \<Rightarrow> bool list \<Rightarrow> heap \<Rightarrow> assoc \<Rightarrow> (heap \<times> assoc) option" where
  "assoc_bulk_move hash [] m a = Some (m, a)"
| "assoc_bulk_move hash (locked # ls) m a =
     (if \<not> expanding a then Some (m, a)
      else if locked
           then (case assoc_move_bucket hash m a of
                   None \<Rightarrow> None
                 | Some (m', a') \<Rightarrow> assoc_bulk_move hash ls m' a')
           else assoc_bulk_move hash ls m a)"

definition assoc_maintenance_round ::
    "hash_fn \<Rightarrow> bool list \<Rightarrow> bool \<Rightarrow> bool \<Rightarrow> heap \<Rightarrow> assoc \<Rightarrow> (heap \<times> assoc) option" where
  "assoc_maintenance_round hash locks do_run calloc_ok m a =
     (case assoc_bulk_move hash locks m a of
        None \<Rightarrow> None
      | Some (m', a') \<Rightarrow>
          Some (m', if \<not> expanding a' \<and> do_run then assoc_expand calloc_ok a' else a'))"

section \<open>Iteration\<close>

record assoc_iterator =
  iter_bucket :: u64
  iter_it :: ptr
  iter_next :: ptr
  bucket_locked :: bool

definition assoc_get_iterator :: assoc_iterator where
  "assoc_get_iterator = \<lparr>iter_bucket = 0, iter_it = NULL, iter_next = NULL, bucket_locked = False\<rparr>"

text \<open>One call: the return value, the item handed out (\<open>NULL\<close> for none), the iterator after.\<close>

definition assoc_iterate :: "heap \<Rightarrow> assoc \<Rightarrow> assoc_iterator \<Rightarrow> bool \<times> ptr \<times> assoc_iterator" where
  "assoc_iterate m a iter =
     (if bucket_locked iter
      then if iter_next iter \<noteq> NULL
           then (True, iter_next iter,
                 iter\<lparr>iter_it := iter_next iter, iter_next := h_next (m (iter_next iter))\<rparr>)
           else (True, NULL, iter\<lparr>iter_bucket := iter_bucket iter + 1, bucket_locked := False\<rparr>)
      else if iter_bucket iter \<noteq> hashsize (hashpower a)
           then let it = primary_hashtable a ! unat (iter_bucket iter)
                in if it \<noteq> NULL
                   then (True, it, iter\<lparr>iter_it := it, iter_next := h_next (m it),
                                        bucket_locked := True\<rparr>)
                   else (True, NULL, iter\<lparr>iter_it := it, iter_bucket := iter_bucket iter + 1,
                                          bucket_locked := False\<rparr>)
           else (False, NULL, iter))"

text \<open>The loop in which callers use the iterator: the items handed out until it returns false.\<close>

partial_function (option) assoc_walk :: "heap \<Rightarrow> assoc \<Rightarrow> assoc_iterator \<Rightarrow> ptr list option" where
  "assoc_walk m a iter =
     (case assoc_iterate m a iter of (ret, it, iter') \<Rightarrow>
        if ret then Option.bind (assoc_walk m a iter')
                       (\<lambda>xs. Some (if it \<noteq> NULL then it # xs else xs))
        else Some [])"

section \<open>Interleaved operations\<close>

text \<open>
  A history of the table: worker threads insert items and delete keys, the maintenance thread
  runs its rounds in between.
\<close>

datatype assoc_op =
    Insert ptr
  | Delete "byte list"
  | Maintain "bool list" bool bool

fun assoc_step :: "hash_fn \<Rightarrow> assoc_op \<Rightarrow> heap \<Rightarrow> assoc \<Rightarrow> (heap \<times> assoc) option" where
  "assoc_step hash (Insert it) m a =
     Some (assoc_insert it (hash (ITEM_key (m it)) (unat (nkey (m it)))) m a)"
| "assoc_step hash (Delete key) m a =
     assoc_delete key (length key) (hash key (length key)) m a"
| "assoc_step hash (Maintain locks do_run calloc_ok) m a =
     assoc_maintenance_round hash locks do_run calloc_ok m a"

fun assoc_run :: "hash_fn \<Rightarrow> assoc_op list \<Rightarrow> heap \<Rightarrow> assoc \<Rightarrow> (heap \<times> assoc) option" where
  "assoc_run hash [] m a = Some (m, a)"
| "assoc_run hash (x # xs) m a =
     (case assoc_step hash x m a of None \<Rightarrow> None | Some (m', a') \<Rightarrow> assoc_run hash xs m' a')"

text \<open>
  The specification: a map from keys to items. An insert is allowed when the item is not in
  the table and its key is free, a delete when the key is there; maintenance does nothing.
\<close>

fun map_step :: "heap \<Rightarrow> assoc_op \<Rightarrow> (byte list \<rightharpoonup> ptr) \<Rightarrow> (byte list \<rightharpoonup> ptr) option" where
  "map_step m (Insert it) M =
     (if it \<noteq> NULL \<and> key_ok (m it) \<and> it \<notin> ran M \<and> M (ITEM_key (m it)) = None
      then Some (M(ITEM_key (m it) \<mapsto> it)) else None)"
| "map_step m (Delete key) M = (if M key \<noteq> None then Some (M(key := None)) else None)"
| "map_step m (Maintain locks do_run calloc_ok) M = Some M"

fun map_run :: "heap \<Rightarrow> assoc_op list \<Rightarrow> (byte list \<rightharpoonup> ptr) \<Rightarrow> (byte list \<rightharpoonup> ptr) option" where
  "map_run m [] M = Some M"
| "map_run m (x # xs) M = (case map_step m x M of None \<Rightarrow> None | Some M' \<Rightarrow> map_run m xs M')"

section \<open>Representation invariant\<close>

definition item_hash :: "hash_fn \<Rightarrow> item \<Rightarrow> u32" where
  "item_hash hash it = hash (ITEM_key it) (unat (nkey it))"

definition assoc_shape :: "assoc \<Rightarrow> bool" where
  "assoc_shape a \<longleftrightarrow> hashpower a < 64 \<and> length (primary_hashtable a) = 2 ^ hashpower a \<and>
     (expanding a \<longrightarrow> 0 < hashpower a \<and> length (old_hashtable a) = 2 ^ (hashpower a - 1) \<and>
        unat (expand_bucket a) < 2 ^ (hashpower a - 1))"

fun valid_slot :: "assoc \<Rightarrow> slot \<Rightarrow> bool" where
  "valid_slot a (Old_slot i) \<longleftrightarrow> expanding a \<and> i < length (old_hashtable a)"
| "valid_slot a (Primary_slot i) \<longleftrightarrow> i < length (primary_hashtable a)"

text \<open>
  \<open>assoc_rep hash m a L\<close>: the table holds exactly the items \<open>L\<close>, whose keys differ; the chain
  of every bucket consists of the items of \<open>L\<close> that the code would look for in that bucket.
\<close>

definition assoc_rep :: "hash_fn \<Rightarrow> heap \<Rightarrow> assoc \<Rightarrow> ptr set \<Rightarrow> bool" where
  "assoc_rep hash m a L \<longleftrightarrow> assoc_shape a \<and> (\<forall>p\<in>L. key_ok (m p)) \<and>
     inj_on (\<lambda>p. ITEM_key (m p)) L \<and>
     (\<forall>s. valid_slot a s \<longrightarrow>
        (\<exists>ps. chain (\<lambda>p. h_next (m p)) (slot_head a s) ps \<and>
              set ps = {p \<in> L. assoc_slot a (item_hash hash (m p)) = s}))"

text \<open>The map from keys to items that the table stands for.\<close>

definition assoc_abs :: "heap \<Rightarrow> ptr set \<Rightarrow> byte list \<Rightarrow> ptr option" where
  "assoc_abs m L k = (if \<exists>p\<in>L. ITEM_key (m p) = k then Some (THE p. p \<in> L \<and> ITEM_key (m p) = k)
                      else None)"

section \<open>Buckets\<close>

lemma hashmask_mask: "hashmask n = mask n"
  by (simp only: hashmask_def hashsize_def push_bit_one_minus_one)

lemma unat_hashsize [wordlift]: "n < 64 \<Longrightarrow> unat (hashsize n) = 2 ^ n"
  unfolding hashsize_def by (rule unat_push_bit_one) simp

lemma unat_bucket [wordlift]: "unat (ucast (hv :: u32) AND hashmask n) = unat hv mod 2 ^ n"
  by (simp add: hashmask_mask unat_and_mask)

lemma assoc_slot_eq:
  "assoc_slot a hv =
     (if expanding a \<and> unat (expand_bucket a) \<le> unat hv mod 2 ^ (hashpower a - 1)
      then Old_slot (unat hv mod 2 ^ (hashpower a - 1))
      else Primary_slot (unat hv mod 2 ^ hashpower a))"
  by (simp add: assoc_slot_def Let_def unat_bucket word_le_nat_alt)

lemma assoc_slot_valid: "assoc_shape a \<Longrightarrow> valid_slot a (assoc_slot a hv)"
  by (auto simp: assoc_slot_eq assoc_shape_def)

lemma assoc_slot_set_slot [simp]: "assoc_slot (set_slot a s p) hv = assoc_slot a hv"
  by (cases s) (simp_all add: assoc_slot_eq)

lemma assoc_shape_set_slot [simp]: "assoc_shape (set_slot a s p) = assoc_shape a"
  by (cases s) (simp_all add: assoc_shape_def)

lemma valid_slot_set_slot [simp]: "valid_slot (set_slot a s p) s' = valid_slot a s'"
  by (cases s; cases s') simp_all

lemma slot_head_set_slot:
  "valid_slot a s \<Longrightarrow> slot_head (set_slot a s p) s' = (if s' = s then p else slot_head a s')"
  by (cases s; cases s') auto

section \<open>Consequences of the invariant\<close>

lemma assoc_rep_shape: "assoc_rep hash m a L \<Longrightarrow> assoc_shape a"
  by (simp add: assoc_rep_def)

lemma assoc_rep_slot:
  assumes "assoc_rep hash m a L" and "valid_slot a s"
  obtains ps where "chain (\<lambda>p. h_next (m p)) (slot_head a s) ps"
    and "set ps = {p \<in> L. assoc_slot a (item_hash hash (m p)) = s}"
  using assms by (auto simp: assoc_rep_def)

lemma assoc_rep_nonnull: "assoc_rep hash m a L \<Longrightarrow> p \<in> L \<Longrightarrow> p \<noteq> NULL"
proof -
  assume r: "assoc_rep hash m a L" and p: "p \<in> L"
  let ?s = "assoc_slot a (item_hash hash (m p))"
  from r have "valid_slot a ?s" by (auto simp: assoc_rep_def assoc_slot_valid)
  from assoc_rep_slot [OF r this] obtain ps where
    c: "chain (\<lambda>p. h_next (m p)) (slot_head a ?s) ps" and "p \<in> set ps" using p by blast
  then show "p \<noteq> NULL" using chain_nonnull by metis
qed

lemma assoc_rep_key_ok: "assoc_rep hash m a L \<Longrightarrow> p \<in> L \<Longrightarrow> key_ok (m p)"
  by (simp add: assoc_rep_def)

lemma assoc_rep_inj: "assoc_rep hash m a L \<Longrightarrow> inj_on (\<lambda>p. ITEM_key (m p)) L"
  by (simp add: assoc_rep_def)

lemma key_ok_length: "key_ok it \<Longrightarrow> length (ITEM_key it) = unat (nkey it)"
  by (simp add: key_ok_def ITEM_key_def)

lemma item_hash_key: "key_ok it \<Longrightarrow> ITEM_key it = key \<Longrightarrow> item_hash hash it = hash key (length key)"
  by (auto simp: item_hash_def key_ok_length)

lemma assoc_abs_eq_Some:
  "inj_on (\<lambda>p. ITEM_key (m p)) L \<Longrightarrow>
   assoc_abs m L k = Some p \<longleftrightarrow> p \<in> L \<and> ITEM_key (m p) = k"
proof -
  assume i: "inj_on (\<lambda>p. ITEM_key (m p)) L"
  have "(THE q. q \<in> L \<and> ITEM_key (m q) = ITEM_key (m p)) = p" if "p \<in> L" for p
    using that i by (intro the_equality) (auto dest: inj_onD)
  with i show ?thesis by (auto simp: assoc_abs_def dest: inj_onD)
qed

lemma assoc_abs_eq_None: "assoc_abs m L k = None \<longleftrightarrow> (\<forall>p\<in>L. ITEM_key (m p) \<noteq> k)"
  by (auto simp: assoc_abs_def)

text \<open>The invariant only looks at the chain pointers and the keys of the items in the table.\<close>

lemma assoc_rep_frame:
  assumes r: "assoc_rep hash m a L"
    and e: "\<And>p. p \<in> L \<Longrightarrow> h_next (m' p) = h_next (m p) \<and> nkey (m' p) = nkey (m p)
                       \<and> data_key (m' p) = data_key (m p)"
  shows "assoc_rep hash m' a L"
proof -
  have k: "ITEM_key (m' p) = ITEM_key (m p)" "key_ok (m' p) = key_ok (m p)"
    "item_hash hash (m' p) = item_hash hash (m p)" if "p \<in> L" for p
    using e [OF that] by (simp_all add: ITEM_key_def key_ok_def item_hash_def)
  have "\<exists>ps. chain (\<lambda>p. h_next (m' p)) (slot_head a s) ps \<and>
          set ps = {p \<in> L. assoc_slot a (item_hash hash (m' p)) = s}" if s: "valid_slot a s" for s
  proof -
    from assoc_rep_slot [OF r s] obtain ps where
      c: "chain (\<lambda>p. h_next (m p)) (slot_head a s) ps" and
      ps: "set ps = {p \<in> L. assoc_slot a (item_hash hash (m p)) = s}" .
    have "chain (\<lambda>p. h_next (m' p)) (slot_head a s) ps"
      using c by (rule chain_cong [THEN iffD1, rotated]) (use ps e in auto)
    moreover have "set ps = {p \<in> L. assoc_slot a (item_hash hash (m' p)) = s}"
      using ps k by auto
    ultimately show ?thesis by blast
  qed
  moreover have "inj_on (\<lambda>p. ITEM_key (m' p)) L"
    using r k by (simp add: assoc_rep_def inj_on_def)
  ultimately show ?thesis using r k by (simp add: assoc_rep_def)
qed

section \<open>Lookup\<close>

lemma assoc_find_loop_chain:
  assumes "chain (\<lambda>p. h_next (m p)) it ps"
  shows "\<exists>r. assoc_find_loop m key nk it = Some r \<and>
           (r \<noteq> NULL \<longrightarrow> r \<in> set ps \<and> key_matches key nk (m r)) \<and>
           (r = NULL \<longrightarrow> (\<forall>p\<in>set ps. \<not> key_matches key nk (m p)))"
  using assms
proof (induction ps arbitrary: it)
  case Nil
  then show ?case by (simp add: assoc_find_loop.simps)
next
  case (Cons a as)
  then have it: "it = a" "a \<noteq> NULL" and c: "chain (\<lambda>p. h_next (m p)) (h_next (m a)) as" by auto
  show ?case
  proof (cases "key_matches key nk (m a)")
    case True
    with it show ?thesis by (simp add: assoc_find_loop.simps [of m key nk a])
  next
    case False
    with it have "assoc_find_loop m key nk it = assoc_find_loop m key nk (h_next (m a))"
      by (simp add: assoc_find_loop.simps [of m key nk a])
    with Cons.IH [OF c] False show ?thesis by auto
  qed
qed

lemma assoc_find_correct:
  assumes r: "assoc_rep hash m a L" and nk: "length key = nk"
  shows "assoc_find key nk (hash key nk) m a =
           Some (case assoc_abs m L key of None \<Rightarrow> NULL | Some p \<Rightarrow> p)"
proof -
  let ?s = "assoc_slot a (hash key nk)"
  from r have "valid_slot a ?s" by (simp add: assoc_rep_shape assoc_slot_valid)
  from assoc_rep_slot [OF r this] obtain ps where
    c: "chain (\<lambda>p. h_next (m p)) (slot_head a ?s) ps" and
    ps: "set ps = {p \<in> L. assoc_slot a (item_hash hash (m p)) = ?s}" .
  have km: "key_matches key nk (m p) \<longleftrightarrow> key = ITEM_key (m p)" if "p \<in> L" for p
    using that r nk by (simp add: key_matches_iff assoc_rep_key_ok)
  have in_ps: "p \<in> set ps" if "p \<in> L" "ITEM_key (m p) = key" for p
    using that ps nk item_hash_key [of "m p" key hash] assoc_rep_key_ok [OF r] by auto
  from assoc_find_loop_chain [OF c, of key nk] obtain q where
    f: "assoc_find_loop m key nk (slot_head a ?s) = Some q" and
    q1: "q \<noteq> NULL \<Longrightarrow> q \<in> set ps \<and> key_matches key nk (m q)" and
    q0: "q = NULL \<Longrightarrow> \<forall>p\<in>set ps. \<not> key_matches key nk (m p)" by blast
  show ?thesis
  proof (cases "assoc_abs m L key")
    case None
    then have "q = NULL" using q1 ps km by (force simp: assoc_abs_eq_None)
    with None f show ?thesis by (simp add: assoc_find_def)
  next
    case (Some p)
    then have p: "p \<in> L" "ITEM_key (m p) = key"
      by (simp_all add: assoc_abs_eq_Some [OF assoc_rep_inj [OF r]])
    then have "q \<noteq> NULL" using q0 in_ps km by auto
    then have "q \<in> L" "ITEM_key (m q) = key" using q1 ps km by auto
    then have "q = p" using p assoc_rep_inj [OF r] by (auto dest: inj_onD)
    with Some f show ?thesis by (simp add: assoc_find_def)
  qed
qed

section \<open>Insert\<close>

text \<open>Both operations write only the \<open>h_next\<close> field of items.\<close>

lemma assoc_insert_fields [heap_frame]:
  assumes "assoc_insert it hv m a = (m', a')" and "\<And>x v. g (x\<lparr>h_next := v\<rparr>) = g x"
  shows "g (m' p) = g (m p)"
  using assms by (auto simp: assoc_insert_def Let_def hupd_def)

lemma assoc_insert_correct:
  assumes r: "assoc_rep hash m a L"
    and it: "it \<noteq> NULL" "it \<notin> L" "key_ok (m it)"
    and new: "assoc_abs m L (ITEM_key (m it)) = None"
    and hv: "hv = item_hash hash (m it)"
    and ins: "assoc_insert it hv m a = (m', a')"
  shows "assoc_rep hash m' a' (insert it L)"
    and "assoc_abs m' (insert it L) = (assoc_abs m L)(ITEM_key (m it) \<mapsto> it)"
proof -
  let ?s = "assoc_slot a hv"
  have m': "m' = hupd it (h_next_update (\<lambda>_. slot_head a ?s)) m" and a': "a' = set_slot a ?s it"
    using ins by (simp_all add: assoc_insert_def Let_def)
  have vs: "valid_slot a ?s" using r by (simp add: assoc_rep_shape assoc_slot_valid)
  have k: "ITEM_key (m' p) = ITEM_key (m p)" "key_ok (m' p) = key_ok (m p)"
    "item_hash hash (m' p) = item_hash hash (m p)" for p
    by (simp_all add: m' ITEM_key_def key_ok_def item_hash_def hupd_apply)
  have fresh: "ITEM_key (m p) \<noteq> ITEM_key (m it)" if "p \<in> L" for p
    using new that by (auto simp: assoc_abs_eq_None)
  have inj: "inj_on (\<lambda>p. ITEM_key (m' p)) (insert it L)"
    using assoc_rep_inj [OF r] fresh unfolding inj_on_insert by (auto simp: k dest: sym)
  have chains: "\<exists>ps. chain (\<lambda>p. h_next (m' p)) (slot_head a' s) ps \<and>
          set ps = {p \<in> insert it L. assoc_slot a' (item_hash hash (m' p)) = s}"
    if s: "valid_slot a' s" for s
  proof -
    have va: "valid_slot a s" using s by (simp add: a')
    from assoc_rep_slot [OF r va] obtain ps where
      c: "chain (\<lambda>p. h_next (m p)) (slot_head a s) ps" and
      ps: "set ps = {p \<in> L. assoc_slot a (item_hash hash (m p)) = s}" .
    have nx: "(\<lambda>p. h_next (m' p)) = (\<lambda>p. h_next (m p))(it := slot_head a ?s)"
      by (auto simp: m' hupd_def fun_eq_iff)
    have it_ps: "it \<notin> set ps" using ps it by auto
    show ?thesis
    proof (cases "s = ?s")
      case True
      have "chain (\<lambda>p. h_next (m' p)) (slot_head a' s) (it # ps)"
        using chain_push [OF c it(1) it_ps] vs True by (simp add: nx a' slot_head_set_slot)
      moreover have "set (it # ps) = {p \<in> insert it L. assoc_slot a' (item_hash hash (m' p)) = s}"
        using ps True hv by (auto simp: k a')
      ultimately show ?thesis by blast
    next
      case False
      have "chain (\<lambda>p. h_next (m' p)) (slot_head a' s) ps"
        using c False vs it_ps by (simp add: nx a' slot_head_set_slot chain_frame)
      moreover have "set ps = {p \<in> insert it L. assoc_slot a' (item_hash hash (m' p)) = s}"
        using ps False hv by (auto simp: k a')
      ultimately show ?thesis by blast
    qed
  qed
  show "assoc_rep hash m' a' (insert it L)"
    using r it inj chains by (auto simp: assoc_rep_def k a')
  show "assoc_abs m' (insert it L) = (assoc_abs m L)(ITEM_key (m it) \<mapsto> it)"
  proof
    fix key
    show "assoc_abs m' (insert it L) key = ((assoc_abs m L)(ITEM_key (m it) \<mapsto> it)) key"
      using fresh
      by (intro option_eqI)
        (auto simp: k assoc_abs_eq_Some [OF inj] assoc_abs_eq_Some [OF assoc_rep_inj [OF r]])
  qed
qed

section \<open>Delete\<close>

lemma hashitem_before_loop_chain:
  assumes "chain (\<lambda>p. h_next (m p)) (read_loc m a pos) (us @ q # vs)"
    and "\<forall>p\<in>set us. \<not> key_matches key nk (m p)" and "key_matches key nk (m q)"
  shows "hashitem_before_loop m a key nk pos = Some (if us = [] then pos else Hnext (last us))"
  using assms
proof (induction us arbitrary: pos)
  case Nil
  then show ?case by (simp add: hashitem_before_loop.simps)
next
  case (Cons u us)
  then have u: "read_loc m a pos = u" "u \<noteq> NULL" "\<not> key_matches key nk (m u)" by auto
  then have "hashitem_before_loop m a key nk pos = hashitem_before_loop m a key nk (Hnext u)"
    by (simp add: hashitem_before_loop.simps [of m a key nk pos])
  also have "\<dots> = Some (if us = [] then Hnext u else Hnext (last us))"
    using Cons u by simp
  finally show ?case by simp
qed

lemma assoc_delete_fields [heap_frame]:
  assumes "assoc_delete key nk hv m a = Some (m', a')" and "\<And>x v. g (x\<lparr>h_next := v\<rparr>) = g x"
  shows "g (m' p) = g (m p)"
proof -
  have "g (fst (write_loc (hupd q (h_next_update (\<lambda>_. v)) m) a pos w) p) = g (m p)" for q v pos w
    using assms(2) by (cases pos) (simp_all add: hupd_def)
  then show ?thesis
    using assms(1) by (auto simp: assoc_delete_def Let_def split: option.splits if_splits)
      (metis fst_conv)
qed

text \<open>
  Deleting the item \<open>q\<close> that sits after \<open>us\<close> in its bucket's chain: what happens to the
  chain of that bucket and to every other chain.
\<close>

lemma write_loc_unlink:
  fixes m a us q
  assumes c: "chain (\<lambda>p. h_next (m p)) (slot_head a s) (us @ q # vs)" and s: "valid_slot a s"
  defines "pos \<equiv> (if us = [] then Bucket s else Hnext (last us))"
  defines "r \<equiv> write_loc (hupd q (h_next_update (\<lambda>_. NULL)) m) a pos (h_next (m q))"
  shows "chain (\<lambda>p. h_next (fst r p)) (slot_head (snd r) s) (us @ vs)"
    and "s' \<noteq> s \<Longrightarrow> slot_head (snd r) s' = slot_head a s'"
    and "p \<notin> set (us @ q # vs) \<Longrightarrow> h_next (fst r p) = h_next (m p)"
    and "assoc_slot (snd r) hv = assoc_slot a hv"
    and "assoc_shape (snd r) = assoc_shape a"
    and "valid_slot (snd r) s' = valid_slot a s'"
proof -
  let ?nx = "\<lambda>p. h_next (m p)"
  consider (head) "us = []" | (inner) us' b where "us = us' @ [b]" by (cases us rule: rev_cases) auto
  then have "chain (\<lambda>p. h_next (fst r p)) (slot_head (snd r) s) (us @ vs)
      \<and> (s' \<noteq> s \<longrightarrow> slot_head (snd r) s' = slot_head a s')
      \<and> (p \<notin> set (us @ q # vs) \<longrightarrow> h_next (fst r p) = h_next (m p))
      \<and> assoc_slot (snd r) hv = assoc_slot a hv \<and> assoc_shape (snd r) = assoc_shape a
      \<and> valid_slot (snd r) s' = valid_slot a s'"
  proof cases
    case head
    then have r: "r = (hupd q (h_next_update (\<lambda>_. NULL)) m, set_slot a s (h_next (m q)))"
      by (simp add: r_def pos_def)
    have nx: "(\<lambda>p. h_next (hupd q (h_next_update (\<lambda>_. NULL)) m p)) = ?nx(q := NULL)"
      by (auto simp: hupd_def)
    have "chain (?nx(q := NULL)) (h_next (m q)) vs"
      using chain_remove_head [of ?nx _ q vs] c head by simp
    then show ?thesis using s head by (auto simp: r nx slot_head_set_slot)
  next
    case (inner us' b)
    have d: "distinct (us @ q # vs)" using c by (rule chain_distinct)
    have r: "r = (hupd b (h_next_update (\<lambda>_. h_next (m q))) (hupd q (h_next_update (\<lambda>_. NULL)) m), a)"
      using inner by (simp add: r_def pos_def)
    have nx: "(\<lambda>p. h_next (fst r p)) = ?nx(q := NULL, b := h_next (m q))"
      by (auto simp: r hupd_def)
    have "chain (?nx(q := NULL, b := ?nx q)) (slot_head a s) (us' @ b # vs)"
      using c inner by (intro chain_remove_inner) simp
    then have "chain (\<lambda>p. h_next (fst r p)) (slot_head (snd r) s) (us @ vs)"
      using inner by (simp only: nx) (simp add: r)
    then show ?thesis using inner by (auto simp: r hupd_def)
  qed
  then show "chain (\<lambda>p. h_next (fst r p)) (slot_head (snd r) s) (us @ vs)"
    and "s' \<noteq> s \<Longrightarrow> slot_head (snd r) s' = slot_head a s'"
    and "p \<notin> set (us @ q # vs) \<Longrightarrow> h_next (fst r p) = h_next (m p)"
    and "assoc_slot (snd r) hv = assoc_slot a hv"
    and "assoc_shape (snd r) = assoc_shape a"
    and "valid_slot (snd r) s' = valid_slot a s'" by blast+
qed

lemma assoc_delete_correct:
  assumes r: "assoc_rep hash m a L" and nk: "length key = nk"
    and abs: "assoc_abs m L key = Some q"
  obtains m' a' where "assoc_delete key nk (hash key nk) m a = Some (m', a')"
    and "assoc_rep hash m' a' (L - {q})"
    and "assoc_abs m' (L - {q}) = (assoc_abs m L)(key := None)"
    and "h_next (m' q) = NULL"
proof -
  let ?s = "assoc_slot a (hash key nk)"
  let ?R = "\<lambda>pos. write_loc (hupd q (h_next_update (\<lambda>_. NULL)) m) a pos (h_next (m q))"
  have q: "q \<in> L" "ITEM_key (m q) = key"
    using abs by (simp_all add: assoc_abs_eq_Some [OF assoc_rep_inj [OF r]])
  have vs: "valid_slot a ?s" using r by (simp add: assoc_rep_shape assoc_slot_valid)
  from assoc_rep_slot [OF r vs] obtain ps where
    c: "chain (\<lambda>p. h_next (m p)) (slot_head a ?s) ps" and
    ps: "set ps = {p \<in> L. assoc_slot a (item_hash hash (m p)) = ?s}" .
  have km: "key_matches key nk (m p) \<longleftrightarrow> p = q" if "p \<in> L" for p
    using that r nk q assoc_rep_inj [OF r]
    by (auto simp: key_matches_iff assoc_rep_key_ok dest: inj_onD)
  have "q \<in> set ps"
    using q ps nk item_hash_key [of "m q" key hash] assoc_rep_key_ok [OF r] by auto
  then obtain us ws where psd: "ps = us @ q # ws" by (meson split_list)
  have d: "distinct ps" using c by (rule chain_distinct)
  define pos where "pos = (if us = [] then Bucket ?s else Hnext (last us))"
  have hb: "hashitem_before key nk (hash key nk) m a = Some pos"
    unfolding hashitem_before_def pos_def
  proof (rule hashitem_before_loop_chain)
    show "chain (\<lambda>p. h_next (m p)) (read_loc m a (Bucket ?s)) (us @ q # ws)" using c psd by simp
    have "set us \<subseteq> L - {q}" using psd ps d by auto
    then show "\<forall>p\<in>set us. \<not> key_matches key nk (m p)" using km by auto
    show "key_matches key nk (m q)" using km q by simp
  qed
  have rq: "read_loc m a pos = q"
  proof (cases "us = []")
    case True
    then show ?thesis using c psd by (simp add: pos_def)
  next
    case False
    then obtain us' b where us: "us = us' @ [b]" by (cases us rule: rev_cases) auto
    have "\<exists>p. chain (\<lambda>p. h_next (m p)) p (b # q # ws)"
      by (rule chain_suffix [of _ "slot_head a ?s" us']) (use c psd us in simp)
    then show ?thesis using us by (auto simp: pos_def)
  qed
  have qn: "q \<noteq> NULL" using r q(1) by (rule assoc_rep_nonnull)
  obtain m' a' where ma: "?R pos = (m', a')" by fastforce
  have del: "assoc_delete key nk (hash key nk) m a = Some (m', a')"
    using hb rq qn ma by (simp add: assoc_delete_def)
  have cc: "chain (\<lambda>p. h_next (m p)) (slot_head a ?s) (us @ q # ws)" using c psd by simp
  note u = write_loc_unlink [OF cc vs, folded pos_def, unfolded ma, simplified fst_conv snd_conv]
  have k: "ITEM_key (m' p) = ITEM_key (m p)" "key_ok (m' p) = key_ok (m p)"
    "item_hash hash (m' p) = item_hash hash (m p)" for p
    using assoc_delete_fields [OF del, of ITEM_key p] assoc_delete_fields [OF del, of key_ok p]
      assoc_delete_fields [OF del, of "item_hash hash" p]
    by (simp_all add: ITEM_key_def key_ok_def item_hash_def)
  have chains: "\<exists>ps. chain (\<lambda>p. h_next (m' p)) (slot_head a' s) ps \<and>
          set ps = {p \<in> L - {q}. assoc_slot a' (item_hash hash (m' p)) = s}"
    if s: "valid_slot a' s" for s
  proof (cases "s = ?s")
    case True
    have "chain (\<lambda>p. h_next (m' p)) (slot_head a' s) (us @ ws)" using u(1) True by simp
    moreover have "set (us @ ws) = set ps - {q}" using d psd by auto
    then have "set (us @ ws) = {p \<in> L - {q}. assoc_slot a' (item_hash hash (m' p)) = s}"
      using ps True by (auto simp: k u(4))
    ultimately show ?thesis by blast
  next
    case False
    have va: "valid_slot a s" using s by (simp add: u(6))
    from assoc_rep_slot [OF r va] obtain ts where
      ct: "chain (\<lambda>p. h_next (m p)) (slot_head a s) ts" and
      ts: "set ts = {p \<in> L. assoc_slot a (item_hash hash (m p)) = s}" .
    have disj: "p \<notin> set (us @ q # ws)" if "p \<in> set ts" for p
      using that ts ps psd False by auto
    have "chain (\<lambda>p. h_next (m' p)) (slot_head a s) ts"
      using ct by (rule chain_cong [THEN iffD1, rotated]) (use u(3) [OF disj] in auto)
    then have "chain (\<lambda>p. h_next (m' p)) (slot_head a' s) ts" using u(2) [OF False] by simp
    moreover have "set ts = {p \<in> L - {q}. assoc_slot a' (item_hash hash (m' p)) = s}"
      using ts disj [of q] by (auto simp: k u(4))
    ultimately show ?thesis by blast
  qed
  have inj: "inj_on (\<lambda>p. ITEM_key (m' p)) (L - {q})"
    using assoc_rep_inj [OF r] by (auto simp: inj_on_def k)
  have rep: "assoc_rep hash m' a' (L - {q})"
    using r inj chains by (auto simp: assoc_rep_def k u(5))
  have "assoc_abs m' (L - {q}) key' = ((assoc_abs m L)(key := None)) key'" for key'
    using q
    by (intro option_eqI)
      (auto simp: k assoc_abs_eq_Some [OF inj] assoc_abs_eq_Some [OF assoc_rep_inj [OF r]]
        dest: inj_onD [OF assoc_rep_inj [OF r]])
  moreover have "h_next (m' q) = NULL"
  proof (cases "us = []")
    case True
    then show ?thesis using ma by (auto simp: pos_def)
  next
    case False
    then have "last us \<noteq> q" using d psd by (metis IntI distinct_append empty_iff last_in_set list.set_intros(1))
    then show ?thesis using ma False by (auto simp: pos_def hupd_def)
  qed
  ultimately show ?thesis using that del rep by blast
qed

section \<open>Moving a bucket\<close>

definition same_but_hnext :: "heap \<Rightarrow> heap \<Rightarrow> bool" where
  "same_but_hnext m m' \<longleftrightarrow> (\<forall>p. m' p = (m p)\<lparr>h_next := h_next (m' p)\<rparr>)"

lemma same_but_hnext_field:
  assumes "same_but_hnext m m'" and "\<And>x v. g (x\<lparr>h_next := v\<rparr>) = g x"
  shows "g (m' p) = g (m p)"
proof -
  have "m' p = (m p)\<lparr>h_next := h_next (m' p)\<rparr>"
    using assms(1) unfolding same_but_hnext_def by (rule spec)
  from arg_cong [OF this, of g] show ?thesis by (simp only: assms(2))
qed

lemma same_but_hnextD [heap_frame]:
  assumes "same_but_hnext m m'"
  shows "ITEM_key (m' p) = ITEM_key (m p)" "key_ok (m' p) = key_ok (m p)"
    "item_hash hash (m' p) = item_hash hash (m p)"
    "nkey (m' p) = nkey (m p)" "data_key (m' p) = data_key (m p)"
  by (rule same_but_hnext_field [OF assms]; simp add: ITEM_key_def key_ok_def item_hash_def)+

lemma assoc_move_loop_chain:
  assumes "chain (\<lambda>p. h_next (m p)) it rest"
    and "\<And>i. i < 2 ^ hashpower a \<Longrightarrow>
           \<exists>ps. chain (\<lambda>p. h_next (m p)) (primary_hashtable a ! i) ps \<and> set ps = S i"
    and "\<And>i. i < 2 ^ hashpower a \<Longrightarrow> S i \<inter> set rest = {}"
    and "length (primary_hashtable a) = 2 ^ hashpower a"
  shows "\<exists>m' prim. assoc_move_loop hash it m a = Some (m', a\<lparr>primary_hashtable := prim\<rparr>)
      \<and> length prim = 2 ^ hashpower a
      \<and> (\<forall>i < 2 ^ hashpower a. \<exists>ps. chain (\<lambda>p. h_next (m' p)) (prim ! i) ps \<and>
            set ps = S i \<union> {p \<in> set rest. unat (item_hash hash (m p)) mod 2 ^ hashpower a = i})
      \<and> (\<forall>p. p \<notin> set rest \<longrightarrow> m' p = m p) \<and> same_but_hnext m m'"
  using assms
proof (induction rest arbitrary: it m a S)
  case Nil
  then have "assoc_move_loop hash it m a = Some (m, a\<lparr>primary_hashtable := primary_hashtable a\<rparr>)"
    by (simp add: assoc_move_loop.simps)
  with Nil show ?case by (intro exI conjI) (auto simp: same_but_hnext_def)
next
  case (Cons x rest)
  let ?hp = "hashpower a" and ?b = "unat (item_hash hash (m x)) mod 2 ^ hashpower a"
  let ?m = "hupd x (h_next_update (\<lambda>_. primary_hashtable a ! ?b)) m"
  let ?a = "a\<lparr>primary_hashtable := (primary_hashtable a)[?b := x]\<rparr>"
  let ?nx = "\<lambda>p. h_next (m p)"
  from Cons.prems(1) have x: "it = x" "x \<noteq> NULL" and cr: "chain ?nx (h_next (m x)) rest" by auto
  have xr: "x \<notin> set rest" using chain_distinct [OF Cons.prems(1)] by simp
  have b: "?b < 2 ^ ?hp" by simp
  have nx: "(\<lambda>p. h_next (?m p)) = ?nx(x := primary_hashtable a ! ?b)"
    by (auto simp: hupd_def fun_eq_iff)
  have step: "assoc_move_loop hash it m a = assoc_move_loop hash (h_next (m x)) ?m ?a"
    using x by (simp add: assoc_move_loop.simps [of hash x m a] unat_bucket item_hash_def Let_def)
  let ?S = "\<lambda>i. if i = ?b then insert x (S i) else S i"
  have 1: "chain (\<lambda>p. h_next (?m p)) (h_next (m x)) rest"
    using cr xr by (simp add: nx chain_frame)
  have 2: "\<exists>ps. chain (\<lambda>p. h_next (?m p)) (primary_hashtable ?a ! i) ps \<and> set ps = ?S i"
    if i: "i < 2 ^ hashpower ?a" for i
  proof -
    from Cons.prems(2) [of i] i obtain ps where
      c: "chain ?nx (primary_hashtable a ! i) ps" and ps: "set ps = S i" by auto
    have xps: "x \<notin> set ps" using ps Cons.prems(3) [of i] i by auto
    show ?thesis
    proof (cases "i = ?b")
      case True
      then have "chain (\<lambda>p. h_next (?m p)) (primary_hashtable ?a ! i) (x # ps)"
        using chain_push [OF c x(2) xps] i Cons.prems(4) by (simp add: nx)
      with ps True show ?thesis by (metis list.simps(15))
    next
      case False
      then have "chain (\<lambda>p. h_next (?m p)) (primary_hashtable ?a ! i) ps"
        using c xps by (simp add: nx chain_frame)
      with ps False show ?thesis by auto
    qed
  qed
  have 3: "?S i \<inter> set rest = {}" if "i < 2 ^ hashpower ?a" for i
    using Cons.prems(3) [of i] that xr by auto
  have 4: "length (primary_hashtable ?a) = 2 ^ hashpower ?a" using Cons.prems(4) by simp
  from Cons.IH [OF 1 2 3 4] obtain m' prim where
    f: "assoc_move_loop hash (h_next (m x)) ?m ?a = Some (m', ?a\<lparr>primary_hashtable := prim\<rparr>)" and
    len: "length prim = 2 ^ ?hp" and
    ch: "\<And>i. i < 2 ^ ?hp \<Longrightarrow> \<exists>ps. chain (\<lambda>p. h_next (m' p)) (prim ! i) ps \<and>
            set ps = ?S i \<union> {p \<in> set rest. unat (item_hash hash (?m p)) mod 2 ^ ?hp = i}" and
    fr: "\<And>p. p \<notin> set rest \<Longrightarrow> m' p = ?m p" and sb: "same_but_hnext ?m m'" by auto
  have sb': "same_but_hnext m m'" unfolding same_but_hnext_def
  proof
    fix p
    have "m' p = (?m p)\<lparr>h_next := h_next (m' p)\<rparr>" using sb unfolding same_but_hnext_def by (rule spec)
    also have "\<dots> = (m p)\<lparr>h_next := h_next (m' p)\<rparr>" by (simp add: hupd_apply)
    finally show "m' p = (m p)\<lparr>h_next := h_next (m' p)\<rparr>" .
  qed
  have ih: "item_hash hash (?m p) = item_hash hash (m p)" for p
    by (simp add: item_hash_def ITEM_key_def hupd_apply)
  have "\<exists>ps. chain (\<lambda>p. h_next (m' p)) (prim ! i) ps \<and>
      set ps = S i \<union> {p \<in> set (x # rest). unat (item_hash hash (m p)) mod 2 ^ ?hp = i}"
    if i: "i < 2 ^ ?hp" for i
  proof -
    from ch [OF i] obtain ps where "chain (\<lambda>p. h_next (m' p)) (prim ! i) ps"
      and "set ps = ?S i \<union> {p \<in> set rest. unat (item_hash hash (m p)) mod 2 ^ ?hp = i}"
      by (auto simp: ih)
    moreover have "?S i \<union> {p \<in> set rest. unat (item_hash hash (m p)) mod 2 ^ ?hp = i} =
        S i \<union> {p \<in> set (x # rest). unat (item_hash hash (m p)) mod 2 ^ ?hp = i}" by auto
    ultimately show ?thesis by blast
  qed
  moreover have "\<forall>p. p \<notin> set (x # rest) \<longrightarrow> m' p = m p" using fr by auto
  ultimately show ?case using step f len sb' by auto
qed

text \<open>
  The old bucket's items are exactly those whose hash value has the low bits
  \<open>expand_bucket\<close>; after the move they are found in the primary table.
\<close>

lemma assoc_move_bucket_correct:
  assumes r: "assoc_rep hash m a L" and e: "expanding a"
  obtains m' a' where "assoc_move_bucket hash m a = Some (m', a')"
    and "assoc_rep hash m' a' L" and "same_but_hnext m m'"
    and "hashpower a' = hashpower a"
    and "expanding a' \<longleftrightarrow> unat (expand_bucket a) + 1 < 2 ^ (hashpower a - 1)"
    and "unat (expand_bucket a') = unat (expand_bucket a) + 1"
proof -
  let ?half = "2 ^ (hashpower a - 1) :: nat" and ?full = "2 ^ hashpower a :: nat"
  let ?h = "\<lambda>p. unat (item_hash hash (m p))" and ?nx = "\<lambda>p. h_next (m p)"
  define eb where "eb = unat (expand_bucket a)"
  have sh: "assoc_shape a" using r by (rule assoc_rep_shape)
  with e have hp: "0 < hashpower a" "hashpower a < 64" and lp: "length (primary_hashtable a) = ?full"
    and lo: "length (old_hashtable a) = ?half" and eb: "eb < ?half"
    by (auto simp: assoc_shape_def eb_def)
  have slot: "assoc_slot a (item_hash hash (m p)) =
      (if eb \<le> ?h p mod ?half then Old_slot (?h p mod ?half) else Primary_slot (?h p mod ?full))" for p
    using e by (simp add: assoc_slot_eq eb_def)
  have "valid_slot a (Old_slot eb)" using e eb lo by simp
  from assoc_rep_slot [OF r this] obtain rest where
    c: "chain ?nx (old_hashtable a ! eb) rest" and
    rest0: "set rest = {p \<in> L. assoc_slot a (item_hash hash (m p)) = Old_slot eb}" by auto
  have rest: "set rest = {p \<in> L. ?h p mod ?half = eb}" by (auto simp: rest0 slot)
  define S where "S i = {p \<in> L. ?h p mod ?half < eb \<and> ?h p mod ?full = i}" for i
  have prim: "\<exists>ps. chain ?nx (primary_hashtable a ! i) ps \<and> set ps = S i" if "i < ?full" for i
  proof -
    have "valid_slot a (Primary_slot i)" using that lp by simp
    from assoc_rep_slot [OF r this] obtain ps where
      "chain ?nx (primary_hashtable a ! i) ps" and
      "set ps = {p \<in> L. assoc_slot a (item_hash hash (m p)) = Primary_slot i}" by auto
    moreover have "{p \<in> L. assoc_slot a (item_hash hash (m p)) = Primary_slot i} = S i"
      by (auto simp: slot S_def)
    ultimately show ?thesis by auto
  qed
  have disj: "S i \<inter> set rest = {}" for i by (auto simp: S_def rest)
  from assoc_move_loop_chain [OF c prim disj lp, of hash] obtain m' prim' where
    f: "assoc_move_loop hash (old_hashtable a ! eb) m a = Some (m', a\<lparr>primary_hashtable := prim'\<rparr>)" and
    lp': "length prim' = ?full" and
    ch: "\<And>i. i < ?full \<Longrightarrow> \<exists>ps. chain (\<lambda>p. h_next (m' p)) (prim' ! i) ps \<and>
            set ps = S i \<union> {p \<in> set rest. ?h p mod ?full = i}" and
    fr: "\<And>p. p \<notin> set rest \<Longrightarrow> m' p = m p" and sb: "same_but_hnext m m'" by auto
  have new: "S i \<union> {p \<in> set rest. ?h p mod ?full = i} = {p \<in> L. ?h p mod ?half \<le> eb \<and> ?h p mod ?full = i}" for i
    by (auto simp: S_def rest)
  define last_bucket where "last_bucket \<longleftrightarrow> \<not> eb + 1 < ?half"
  define a' where "a' = (if last_bucket then a\<lparr>primary_hashtable := prim', old_hashtable := [],
       expand_bucket := expand_bucket a + 1, expanding := False,
       hash_bytes := hash_bytes a - hashsize (hashpower a - 1) * sizeof_ptr, hash_is_expanding := False\<rparr>
     else a\<lparr>primary_hashtable := prim', old_hashtable := (old_hashtable a)[eb := NULL],
       expand_bucket := expand_bucket a + 1\<rparr>)"
  have eb': "unat (expand_bucket a + 1) = eb + 1"
  proof -
    have "?half \<le> 2 ^ 63" using hp by (intro power_increasing) auto
    then have "eb + 1 < 2 ^ 64" using eb by simp
    then show ?thesis unfolding eb_def by (intro unat_Suc_word) simp
  qed
  have fin: "expand_bucket a + 1 = hashsize (hashpower a - 1) \<longleftrightarrow> last_bucket"
  proof -
    have "unat (hashsize (hashpower a - 1)) = ?half" using hp by (intro unat_hashsize) simp
    then show ?thesis using eb' eb by (auto simp: word_unat_eq_iff last_bucket_def)
  qed
  have mv: "assoc_move_bucket hash m a = Some (m', a')"
    using f fin by (simp add: assoc_move_bucket_def eb_def [symmetric] a'_def Let_def)
  note k = same_but_hnextD [OF sb]
  have slot': "assoc_slot a' (item_hash hash (m' p)) =
      (if \<not> last_bucket \<and> eb < ?h p mod ?half then Old_slot (?h p mod ?half) else Primary_slot (?h p mod ?full))" for p
    using e eb' by (auto simp: assoc_slot_eq k a'_def Suc_le_eq)
  have le: "?h p mod ?half \<le> eb" if "last_bucket" for p
  proof -
    have "?h p mod ?half < ?half" by simp
    then show ?thesis using that unfolding last_bucket_def by linarith
  qed
  have chains: "\<exists>ps. chain (\<lambda>p. h_next (m' p)) (slot_head a' s) ps \<and>
          set ps = {p \<in> L. assoc_slot a' (item_hash hash (m' p)) = s}"
    if s: "valid_slot a' s" for s
  proof (cases s)
    case (Primary_slot i)
    then have "i < ?full" using s lp' by (simp add: a'_def split: if_splits)
    from ch [OF this] obtain ps where c': "chain (\<lambda>p. h_next (m' p)) (prim' ! i) ps" and
      ps: "set ps = {p \<in> L. ?h p mod ?half \<le> eb \<and> ?h p mod ?full = i}" by (auto simp: new)
    have "set ps = {p \<in> L. assoc_slot a' (item_hash hash (m' p)) = s}"
      using Primary_slot ps le by (auto simp: slot' not_less)
    then show ?thesis using c' Primary_slot by (auto simp: a'_def)
  next
    case (Old_slot i)
    then have nd: "\<not> last_bucket" and i: "i < ?half" using s lo by (auto simp: a'_def split: if_splits)
    show ?thesis
    proof (cases "i = eb")
      case True
      then have "{p \<in> L. assoc_slot a' (item_hash hash (m' p)) = s} = {}"
        using Old_slot by (auto simp: slot')
      moreover have "slot_head a' s = NULL" using True Old_slot nd eb lo by (simp add: a'_def)
      ultimately show ?thesis by (intro exI [of _ "[]"]) simp
    next
      case False
      have "valid_slot a s" using Old_slot i e lo by simp
      from assoc_rep_slot [OF r this] obtain ts where
        ct: "chain ?nx (slot_head a s) ts" and
        ts0: "set ts = {p \<in> L. assoc_slot a (item_hash hash (m p)) = s}" by auto
      have ts: "set ts = {p \<in> L. eb \<le> ?h p mod ?half \<and> ?h p mod ?half = i}"
        using Old_slot by (auto simp: ts0 slot)
      have eq: "h_next (m q) = h_next (m' q)" if q: "q \<in> set ts" for q
      proof -
        have "q \<notin> set rest" using q False unfolding ts rest by blast
        then show ?thesis by (simp add: fr)
      qed
      have "chain (\<lambda>p. h_next (m' p)) (slot_head a s) ts"
        using ct by (rule chain_cong [THEN iffD1, rotated]) (rule eq)
      moreover have "assoc_slot a' (item_hash hash (m' p)) = s \<longleftrightarrow>
          eb \<le> ?h p mod ?half \<and> ?h p mod ?half = i" for p
        unfolding slot' Old_slot using nd False by (cases "eb < ?h p mod ?half") simp_all
      then have "set ts = {p \<in> L. assoc_slot a' (item_hash hash (m' p)) = s}"
        by (simp only: ts)
      moreover have "slot_head a' s = slot_head a s" using Old_slot nd False by (simp add: a'_def)
      ultimately show ?thesis by metis
    qed
  qed
  have "assoc_shape a'"
    using sh e lp' lo eb' by (auto simp: assoc_shape_def a'_def last_bucket_def eb_def)
  then have rep: "assoc_rep hash m' a' L"
    using r chains by (auto simp: assoc_rep_def k inj_on_def)
  show ?thesis
    by (rule that [OF mv rep sb]) (use eb' in \<open>auto simp: a'_def last_bucket_def eb_def e\<close>)
qed

lemma assoc_abs_cong:
  "(\<And>p. ITEM_key (m' p) = ITEM_key (m p)) \<Longrightarrow> assoc_abs m' L = assoc_abs m L"
  by (auto simp: assoc_abs_def fun_eq_iff)

lemma ran_assoc_abs: "inj_on (\<lambda>p. ITEM_key (m p)) L \<Longrightarrow> ran (assoc_abs m L) = L"
  by (auto simp: ran_def assoc_abs_eq_Some)

section \<open>Start, expansion and whole rounds\<close>

lemma assoc_init_correct:
  assumes "assoc_init True n a = Some a'" and "\<not> expanding a" and "hashpower a' < 64"
  shows "assoc_rep hash m a' {}"
proof -
  have a': "length (primary_hashtable a') = 2 ^ hashpower a'" "\<not> expanding a'"
    "\<And>i. i < 2 ^ hashpower a' \<Longrightarrow> primary_hashtable a' ! i = NULL"
    using assms by (auto simp: assoc_init_def Let_def unat_hashsize)
  have "\<exists>ps. chain (\<lambda>p. h_next (m p)) (slot_head a' s) ps \<and> set ps = {}"
    if "valid_slot a' s" for s
    using that a' by (cases s) auto
  then show ?thesis using a' assms(3) by (simp add: assoc_rep_def assoc_shape_def)
qed

lemma assoc_expand_correct:
  assumes r: "assoc_rep hash m a L" and ne: "\<not> expanding a" and hp: "hashpower a + 1 < 64"
  shows "assoc_rep hash m (assoc_expand ok a) L"
proof (cases ok)
  case False
  have "assoc_slot (a\<lparr>old_hashtable := t\<rparr>) hv = assoc_slot a hv" for t hv
    by (simp add: assoc_slot_eq)
  moreover have "slot_head (a\<lparr>old_hashtable := t\<rparr>) s = slot_head a s"
      "valid_slot (a\<lparr>old_hashtable := t\<rparr>) s = valid_slot a s" if "valid_slot (a\<lparr>old_hashtable := t\<rparr>) s" for t s
    using that ne by (cases s; simp)+
  ultimately show ?thesis
    using r False ne by (auto simp: assoc_rep_def assoc_expand_def assoc_shape_def)
next
  case True
  let ?a = "assoc_expand ok a"
  let ?h = "\<lambda>p. unat (item_hash hash (m p))"
  have sh: "assoc_shape a" using r by (rule assoc_rep_shape)
  have len: "length (primary_hashtable a) = 2 ^ hashpower a" using sh by (simp add: assoc_shape_def)
  have hs: "unat (hashsize (hashpower a + 1)) = 2 ^ (hashpower a + 1)"
    using hp by (intro unat_hashsize) simp
  have f: "expanding ?a" "hashpower ?a = hashpower a + 1" "expand_bucket ?a = 0"
    "old_hashtable ?a = primary_hashtable a"
    "primary_hashtable ?a = replicate (2 ^ (hashpower a + 1)) NULL"
    using True hs by (simp_all add: assoc_expand_def)
  have slot: "assoc_slot a (item_hash hash (m p)) = Primary_slot (?h p mod 2 ^ hashpower a)" for p
    using ne by (simp add: assoc_slot_eq)
  have slot': "assoc_slot ?a (item_hash hash (m p)) = Old_slot (?h p mod 2 ^ hashpower a)" for p
    using f by (simp add: assoc_slot_eq)
  have chains: "\<exists>ps. chain (\<lambda>p. h_next (m p)) (slot_head ?a s) ps \<and>
          set ps = {p \<in> L. assoc_slot ?a (item_hash hash (m p)) = s}" if s: "valid_slot ?a s" for s
  proof (cases s)
    case (Old_slot i)
    then have "valid_slot a (Primary_slot i)" using s f by simp
    from assoc_rep_slot [OF r this] show ?thesis using Old_slot f by (auto simp: slot slot')
  next
    case (Primary_slot i)
    then show ?thesis using s f by (intro exI [of _ "[]"]) (auto simp: slot')
  qed
  have "assoc_shape ?a" using f hp len by (simp add: assoc_shape_def)
  then show ?thesis using r chains by (simp add: assoc_rep_def)
qed

definition count_true :: "bool list \<Rightarrow> nat" where
  "count_true ls = length (filter id ls)"

text \<open>
  A round of the bulk loop keeps the table; when it gets as many bucket locks as there are
  buckets left, the expansion is over.
\<close>

lemma assoc_bulk_move_correct:
  assumes "assoc_rep hash m a L"
  shows "\<exists>m' a'. assoc_bulk_move hash ls m a = Some (m', a') \<and> assoc_rep hash m' a' L \<and>
           assoc_abs m' L = assoc_abs m L \<and> (\<forall>p. ITEM_key (m' p) = ITEM_key (m p) \<and>
              nkey (m' p) = nkey (m p) \<and> data_key (m' p) = data_key (m p)) \<and>
           hashpower a' = hashpower a \<and> (\<not> expanding a \<longrightarrow> \<not> expanding a') \<and>
           (2 ^ (hashpower a - 1) \<le> unat (expand_bucket a) + count_true ls \<longrightarrow> \<not> expanding a')"
  using assms
proof (induction ls arbitrary: m a)
  case Nil
  then show ?case by (auto simp: assoc_rep_def assoc_shape_def count_true_def)
next
  case (Cons locked ls)
  show ?case
  proof (cases "expanding a \<and> locked")
    case False
    then show ?thesis
      using Cons.IH [OF Cons.prems] Cons.prems by (cases "expanding a") (auto simp: count_true_def)
  next
    case True
    then obtain m1 a1 where mv: "assoc_move_bucket hash m a = Some (m1, a1)"
      and r1: "assoc_rep hash m1 a1 L" and sb: "same_but_hnext m m1" and hp: "hashpower a1 = hashpower a"
      and eb: "unat (expand_bucket a1) = unat (expand_bucket a) + 1"
      using assoc_move_bucket_correct [OF Cons.prems] by blast
    note nk = same_but_hnextD(4,5) [OF sb]
    have abs: "assoc_abs m1 L = assoc_abs m L" by (rule assoc_abs_cong) (rule same_but_hnextD [OF sb])
    from Cons.IH [OF r1] obtain m' a' where
      "assoc_bulk_move hash ls m1 a1 = Some (m', a')" "assoc_rep hash m' a' L"
      "assoc_abs m' L = assoc_abs m1 L"
      "\<forall>p. ITEM_key (m' p) = ITEM_key (m1 p) \<and> nkey (m' p) = nkey (m1 p) \<and> data_key (m' p) = data_key (m1 p)"
      "hashpower a' = hashpower a1"
      "2 ^ (hashpower a1 - 1) \<le> unat (expand_bucket a1) + count_true ls \<longrightarrow> \<not> expanding a'" by blast
    then show ?thesis using True mv abs nk hp eb same_but_hnextD(1) [OF sb]
      by (auto simp: count_true_def)
  qed
qed

lemma assoc_maintenance_round_correct:
  assumes r: "assoc_rep hash m a L" and hp: "hashpower a + 1 < 64"
  obtains m' a' where "assoc_maintenance_round hash locks do_run ok m a = Some (m', a')"
    and "assoc_rep hash m' a' L" and "assoc_abs m' L = assoc_abs m L"
    and "hashpower a' \<le> hashpower a + 1"
    and "\<And>p. nkey (m' p) = nkey (m p) \<and> data_key (m' p) = data_key (m p)"
proof -
  from assoc_bulk_move_correct [OF r, of locks] obtain m' a1 where
    b: "assoc_bulk_move hash locks m a = Some (m', a1)" and r1: "assoc_rep hash m' a1 L" and
    abs: "assoc_abs m' L = assoc_abs m L" and hp1: "hashpower a1 = hashpower a" and
    fr: "\<And>p. nkey (m' p) = nkey (m p) \<and> data_key (m' p) = data_key (m p)" by blast
  let ?a = "if \<not> expanding a1 \<and> do_run then assoc_expand ok a1 else a1"
  have "assoc_rep hash m' ?a L" using r1 hp hp1 by (simp add: assoc_expand_correct)
  moreover have "hashpower ?a \<le> hashpower a + 1" using hp1 by (simp add: assoc_expand_def)
  ultimately show ?thesis using that b abs fr by (simp add: assoc_maintenance_round_def)
qed

section \<open>Histories\<close>

definition same_keys :: "heap \<Rightarrow> heap \<Rightarrow> bool" where
  "same_keys m m' \<longleftrightarrow> (\<forall>p. nkey (m' p) = nkey (m p) \<and> data_key (m' p) = data_key (m p))"

lemma same_keysD:
  assumes "same_keys m m'"
  shows "ITEM_key (m' p) = ITEM_key (m p)" "key_ok (m' p) = key_ok (m p)"
    "nkey (m' p) = nkey (m p)"
  using assms by (simp_all add: same_keys_def ITEM_key_def key_ok_def)

lemma map_step_same_keys: "same_keys m m' \<Longrightarrow> map_step m' x M = map_step m x M"
  by (cases x) (simp_all add: same_keysD)

lemma map_run_same_keys: "same_keys m m' \<Longrightarrow> map_run m' xs M = map_run m xs M"
  by (induction xs arbitrary: M) (auto simp: map_step_same_keys split: option.splits)

lemma assoc_step_correct:
  assumes r: "assoc_rep hash m a L" and hp: "hashpower a + 1 < 64"
    and spec: "map_step m x (assoc_abs m L) = Some M"
  obtains m' a' L' where "assoc_step hash x m a = Some (m', a')" and "assoc_rep hash m' a' L'"
    and "assoc_abs m' L' = M" and "hashpower a' \<le> hashpower a + 1" and "same_keys m m'"
proof (cases x)
  case (Insert it)
  obtain m' a' where ins: "assoc_insert it (item_hash hash (m it)) m a = (m', a')" by fastforce
  have it: "it \<noteq> NULL" "it \<notin> L" "key_ok (m it)" "assoc_abs m L (ITEM_key (m it)) = None"
    using spec Insert by (auto simp: ran_assoc_abs [OF assoc_rep_inj [OF r]] split: if_splits)
  note c = assoc_insert_correct [OF r it refl ins]
  have "same_keys m m'" unfolding same_keys_def
    by (simp add: assoc_insert_fields [OF ins, of nkey] assoc_insert_fields [OF ins, of data_key])
  moreover have "hashpower a' = hashpower a"
    using ins by (auto simp: assoc_insert_def Let_def) (cases "assoc_slot a (item_hash hash (m it))"; simp)
  ultimately show ?thesis using that [of m' a' "insert it L"] c ins spec Insert it
    by (auto simp: item_hash_def split: if_splits)
next
  case (Delete key)
  then obtain q where "assoc_abs m L key = Some q" using spec by (auto split: if_splits)
  from assoc_delete_correct [OF r refl this] obtain m' a' where
    d: "assoc_delete key (length key) (hash key (length key)) m a = Some (m', a')" and
    r': "assoc_rep hash m' a' (L - {q})" and
    abs: "assoc_abs m' (L - {q}) = (assoc_abs m L)(key := None)" by metis
  have "hashpower (snd (write_loc mm a pos v)) = hashpower a" for mm pos v
    by (cases pos) (auto, metis assoc.select_convs(1) assoc.surjective assoc.update_convs(2,3) set_slot.elims)
  then have "hashpower a' = hashpower a"
    using d by (auto simp: assoc_delete_def Let_def split: option.splits if_splits) (metis snd_conv)
  moreover have "same_keys m m'" unfolding same_keys_def
    by (simp add: assoc_delete_fields [OF d, of nkey] assoc_delete_fields [OF d, of data_key])
  ultimately show ?thesis using that [of m' a' "L - {q}"] d r' abs spec Delete by (auto split: if_splits)
next
  case (Maintain locks do_run ok)
  from assoc_maintenance_round_correct [OF r hp, of locks do_run ok] obtain m' a' where
    "assoc_maintenance_round hash locks do_run ok m a = Some (m', a')" "assoc_rep hash m' a' L"
    "assoc_abs m' L = assoc_abs m L" "hashpower a' \<le> hashpower a + 1" "same_keys m m'"
    unfolding same_keys_def by metis
  then show ?thesis using that [of m' a' L] spec Maintain by simp
qed

lemma assoc_run_correct:
  assumes "assoc_rep hash m a L" and "hashpower a + length xs < 64"
    and "map_run m xs (assoc_abs m L) = Some M"
  shows "\<exists>m' a' L'. assoc_run hash xs m a = Some (m', a') \<and> assoc_rep hash m' a' L' \<and>
           assoc_abs m' L' = M"
  using assms
proof (induction xs arbitrary: m a L)
  case Nil
  then show ?case by auto
next
  case (Cons x xs)
  from Cons.prems(3) obtain M1 where s: "map_step m x (assoc_abs m L) = Some M1"
    and rest: "map_run m xs M1 = Some M" by (auto split: option.splits)
  from assoc_step_correct [OF Cons.prems(1) _ s] Cons.prems(2) obtain m1 a1 L1 where
    st: "assoc_step hash x m a = Some (m1, a1)" and r1: "assoc_rep hash m1 a1 L1" and
    ab: "assoc_abs m1 L1 = M1" and hp: "hashpower a1 \<le> hashpower a + 1" and sk: "same_keys m m1" by auto
  have "map_run m1 xs (assoc_abs m1 L1) = Some M" using rest ab map_run_same_keys [OF sk] by simp
  from Cons.IH [OF r1 _ this] hp Cons.prems(2) st show ?case by auto
qed

section \<open>Iteration\<close>

lemma assoc_walk_locked:
  assumes "chain (\<lambda>p. h_next (m p)) (iter_next it) ns" and "bucket_locked it"
    and "\<And>x y. assoc_walk m a \<lparr>iter_bucket = iter_bucket it + 1, iter_it = x, iter_next = y,
                  bucket_locked = False\<rparr> = Some rest"
  shows "assoc_walk m a it = Some (ns @ rest)"
  using assms
proof (induction ns arbitrary: it)
  case Nil
  then have "assoc_iterate m a it = (True, NULL, \<lparr>iter_bucket = iter_bucket it + 1,
      iter_it = iter_it it, iter_next = iter_next it, bucket_locked = False\<rparr>)"
    by (simp add: assoc_iterate_def)
  with Nil(3) show ?case by (simp add: assoc_walk.simps [of m a it])
next
  case (Cons n ns)
  let ?it = "it\<lparr>iter_it := iter_next it, iter_next := h_next (m (iter_next it))\<rparr>"
  have "assoc_walk m a ?it = Some (ns @ rest)" by (rule Cons.IH) (use Cons.prems in simp_all)
  moreover have "assoc_iterate m a it = (True, n, ?it)" using Cons.prems by (simp add: assoc_iterate_def)
  ultimately show ?case using Cons.prems(1) by (simp add: assoc_walk.simps [of m a it])
qed

lemma assoc_walk_from:
  assumes c: "\<And>i. i < 2 ^ hashpower a \<Longrightarrow> chain (\<lambda>p. h_next (m p)) (primary_hashtable a ! i) (C i)"
    and hp: "hashpower a < 64" and b: "unat b \<le> 2 ^ hashpower a"
  shows "assoc_walk m a \<lparr>iter_bucket = b, iter_it = x, iter_next = y, bucket_locked = False\<rparr> =
           Some (concat (map C [unat b..<2 ^ hashpower a]))"
  using b
proof (induction "2 ^ hashpower a - unat b" arbitrary: b x y)
  case 0
  then have "b = hashsize (hashpower a)" using hp by (simp add: word_unat_eq_iff unat_hashsize)
  with 0 show ?case by (simp add: assoc_walk.simps assoc_iterate_def)
next
  case (Suc d)
  let ?n = "2 ^ hashpower a :: nat"
  let ?it = "\<lparr>iter_bucket = b, iter_it = x, iter_next = y, bucket_locked = False\<rparr>"
  have lt: "unat b < ?n" using Suc.hyps(2) by simp
  have ne: "b \<noteq> hashsize (hashpower a)" using lt hp by (auto simp: unat_hashsize)
  have "?n \<le> 2 ^ 63" using hp by (intro power_increasing) auto
  then have b1: "unat (b + 1) = unat b + 1" using lt by (intro unat_Suc_word) simp
  have IH: "assoc_walk m a \<lparr>iter_bucket = b + 1, iter_it = x', iter_next = y', bucket_locked = False\<rparr> =
      Some (concat (map C [unat b + 1..<?n]))" for x' y'
    using Suc.hyps(1) [of "b + 1" x' y'] Suc.hyps(2) lt b1 by simp
  have up: "[unat b..<?n] = unat b # [unat b + 1..<?n]" using lt by (simp add: upt_conv_Cons)
  note cb = c [OF lt]
  show ?case
  proof (cases "primary_hashtable a ! unat b = NULL")
    case True
    then have "C (unat b) = []" using cb by simp
    moreover have "assoc_iterate m a ?it =
        (True, NULL, \<lparr>iter_bucket = b + 1, iter_it = NULL, iter_next = y, bucket_locked = False\<rparr>)"
      using True ne by (simp add: assoc_iterate_def)
    ultimately show ?thesis using IH up by (simp add: assoc_walk.simps [of m a ?it])
  next
    case False
    let ?p = "primary_hashtable a ! unat b"
    let ?it' = "\<lparr>iter_bucket = b, iter_it = ?p, iter_next = h_next (m ?p), bucket_locked = True\<rparr>"
    obtain ns where ns: "C (unat b) = ?p # ns" "chain (\<lambda>p. h_next (m p)) (h_next (m ?p)) ns"
      using chain_cases_nonnull [OF False cb] by blast
    have "assoc_walk m a ?it' = Some (ns @ concat (map C [unat b + 1..<?n]))"
      by (rule assoc_walk_locked) (use ns IH in simp_all)
    moreover have "assoc_iterate m a ?it = (True, ?p, ?it')" using False ne by (simp add: assoc_iterate_def Let_def)
    ultimately show ?thesis using False ns(1) up by (simp add: assoc_walk.simps [of m a ?it])
  qed
qed

lemma assoc_walk_all:
  assumes r: "assoc_rep hash m a L" and ne: "\<not> expanding a"
  obtains xs where "assoc_walk m a assoc_get_iterator = Some xs" and "distinct xs" and "set xs = L"
proof -
  let ?n = "2 ^ hashpower a :: nat" and ?h = "\<lambda>p. unat (item_hash hash (m p))"
  have sh: "hashpower a < 64" "length (primary_hashtable a) = ?n"
    using assoc_rep_shape [OF r] by (simp_all add: assoc_shape_def)
  have slot: "assoc_slot a (item_hash hash (m p)) = Primary_slot (?h p mod ?n)" for p
    using ne by (simp add: assoc_slot_eq)
  have "\<exists>ps. chain (\<lambda>p. h_next (m p)) (primary_hashtable a ! i) ps \<and> set ps = {p \<in> L. ?h p mod ?n = i}"
    if "i < ?n" for i
    using assoc_rep_slot [OF r, of "Primary_slot i"] that sh by (auto simp: slot)
  then have "\<forall>i. \<exists>ps. i < ?n \<longrightarrow> chain (\<lambda>p. h_next (m p)) (primary_hashtable a ! i) ps \<and>
      set ps = {p \<in> L. ?h p mod ?n = i}" by blast
  from choice [OF this] obtain C where
    C: "\<And>i. i < ?n \<Longrightarrow> chain (\<lambda>p. h_next (m p)) (primary_hashtable a ! i) (C i)" and
    CS: "\<And>i. i < ?n \<Longrightarrow> set (C i) = {p \<in> L. ?h p mod ?n = i}" by blast
  let ?xs = "concat (map C [0..<?n])"
  have "assoc_walk m a assoc_get_iterator = Some ?xs"
    using assoc_walk_from [OF C sh(1), of 0] by (simp add: assoc_get_iterator_def)
  moreover have "distinct ?xs"
    by (rule distinct_concat_map) (auto simp: CS dest: chain_distinct [OF C])
  moreover have "set ?xs = L"
  proof -
    have "?h p mod ?n < ?n" for p by simp
    then show ?thesis by (auto simp: CS)
  qed
  ultimately show ?thesis by (rule that)
qed

section \<open>A table in the middle of an expansion\<close>

text \<open>
  Three items with the keys 1, 2 and 3 under a hash function that takes the first key byte.
  The table grows from two buckets to four; bucket 0 has been moved, bucket 1 has not.
\<close>

definition sample_hash :: hash_fn where
  "sample_hash key n = (case key of [] \<Rightarrow> 0 | b # _ \<Rightarrow> ucast b)"

definition sample_heap :: heap where
  "sample_heap = (\<lambda>_. zero_item)(
     100 := zero_item\<lparr>nkey := 1, data_key := [1], h_next := 102\<rparr>,
     101 := zero_item\<lparr>nkey := 1, data_key := [2]\<rparr>,
     102 := zero_item\<lparr>nkey := 1, data_key := [3]\<rparr>,
     103 := zero_item\<lparr>nkey := 1, data_key := [6]\<rparr>)"

definition sample_assoc :: assoc where
  "sample_assoc = \<lparr>hashpower = 2, primary_hashtable = [0, 0, 101, 0], old_hashtable = [0, 100],
     expanding = True, expand_bucket = 1, hash_power_level = 2, hash_bytes = 48,
     hash_is_expanding = True\<rparr>"

lemmas sample_defs = sample_hash_def sample_heap_def sample_assoc_def zero_item_def

lemma sample_rep: "assoc_rep sample_hash sample_heap sample_assoc {100, 101, 102}"
proof -
  have k: "ITEM_key (sample_heap 100) = [1]" "ITEM_key (sample_heap 101) = [2]"
    "ITEM_key (sample_heap 102) = [3]" by (simp_all add: sample_defs ITEM_key_def)
  have h: "assoc_slot sample_assoc (item_hash sample_hash (sample_heap 100)) = Old_slot 1"
    "assoc_slot sample_assoc (item_hash sample_hash (sample_heap 101)) = Primary_slot 2"
    "assoc_slot sample_assoc (item_hash sample_hash (sample_heap 102)) = Old_slot 1"
    by (simp_all add: assoc_slot_eq item_hash_def k) (simp_all add: sample_defs)
  have "\<exists>ps. chain (\<lambda>p. h_next (sample_heap p)) (slot_head sample_assoc s) ps \<and>
      set ps = {p \<in> {100, 101, 102}. assoc_slot sample_assoc (item_hash sample_hash (sample_heap p)) = s}"
    if "valid_slot sample_assoc s" for s
  proof -
    from that consider "s = Old_slot 0" | "s = Old_slot 1" | "s = Primary_slot 0" | "s = Primary_slot 1"
      | "s = Primary_slot 2" | "s = Primary_slot 3"
      by (cases s) (auto simp: sample_assoc_def numeral_eq_Suc less_Suc_eq)
    then show ?thesis
    proof cases
      case 2
      then show ?thesis by (intro exI [of _ "[100, 102]"]) (auto simp: h, auto simp: sample_defs)
    next
      case 5
      then show ?thesis by (intro exI [of _ "[101]"]) (auto simp: h, auto simp: sample_defs)
    qed (intro exI [of _ "[]"]; auto simp: h; auto simp: sample_defs)+
  qed
  moreover have "\<forall>p\<in>{100, 101, 102}. key_ok (sample_heap p)" by (simp add: key_ok_def sample_defs)
  moreover have "assoc_shape sample_assoc" by (simp add: assoc_shape_def sample_assoc_def)
  ultimately show ?thesis by (simp add: assoc_rep_def inj_on_def k)
qed

lemma sample_abs: "assoc_abs sample_heap {100, 101, 102} = [[1] \<mapsto> 100, [2] \<mapsto> 101, [3] \<mapsto> 102]"
proof
  fix key
  have k: "ITEM_key (sample_heap 100) = [1]" "ITEM_key (sample_heap 101) = [2]"
    "ITEM_key (sample_heap 102) = [3]" by (simp_all add: sample_defs ITEM_key_def)
  show "assoc_abs sample_heap {100, 101, 102} key = [[1] \<mapsto> 100, [2] \<mapsto> 101, [3] \<mapsto> 102] key"
    by (rule option_eqI) (auto simp: assoc_abs_eq_Some [OF assoc_rep_inj [OF sample_rep]] k)
qed

section \<open>Properties\<close>

text \<open>C11: in every well-formed table, expanding or not, \<open>assoc_find\<close> returns, and what it
  returns is the item the abstract map has for the key, or \<open>NULL\<close> when there is none.\<close>

theorem assoc_find_refines_map:
  assumes "assoc_rep hash m a L" and "length key = nk"
  shows "assoc_find key nk (hash key nk) m a =
           Some (case assoc_abs m L key of None \<Rightarrow> NULL | Some p \<Rightarrow> p)"
  using assms by (rule assoc_find_correct)

theorem assoc_find_refines_map_witness:
  "assoc_find [3] 1 (sample_hash [3] 1) sample_heap sample_assoc = Some 102"
proof -
  have "length ([3] :: byte list) = 1" by simp
  from assoc_find_refines_map [OF sample_rep this] show ?thesis by (simp add: sample_abs)
qed



text \<open>C12: a bulk move that gets the lock of a bucket at least once for every bucket that is
  still to be moved finishes the expansion, and the map is the same as before.\<close>

theorem assoc_expansion_completes:
  assumes "assoc_rep hash m a L"
    and "2 ^ (hashpower a - 1) \<le> unat (expand_bucket a) + count_true locks"
  shows "\<exists>m' a'. assoc_bulk_move hash locks m a = Some (m', a') \<and> \<not> expanding a' \<and>
           assoc_rep hash m' a' L \<and> assoc_abs m' L = assoc_abs m L"
  using assoc_bulk_move_correct [OF assms(1), of locks] assms(2) by blast

theorem assoc_expansion_completes_witness:
  "\<exists>m' a'. assoc_bulk_move sample_hash [False, True] sample_heap sample_assoc = Some (m', a') \<and>
     \<not> expanding a' \<and> assoc_rep sample_hash m' a' {100, 101, 102} \<and>
     assoc_abs m' {100, 101, 102} = [[1] \<mapsto> 100, [2] \<mapsto> 101, [3] \<mapsto> 102]"
proof -
  have "2 ^ (hashpower sample_assoc - 1) \<le> unat (expand_bucket sample_assoc) + count_true [False, True]"
    by (simp add: sample_assoc_def count_true_def)
  from assoc_expansion_completes [OF sample_rep this] show ?thesis by (simp only: sample_abs)
qed

text \<open>C14: while no expansion runs, the iterator hands out every item of the table exactly
  once and then stops.\<close>

theorem assoc_iterator_complete:
  assumes "assoc_rep hash m a L" and "\<not> expanding a"
  shows "\<exists>xs. assoc_walk m a assoc_get_iterator = Some xs \<and> distinct xs \<and> set xs = L"
  using assoc_walk_all [OF assms] by blast

theorem assoc_iterator_complete_witness:
  "\<exists>m a xs. assoc_bulk_move sample_hash [True] sample_heap sample_assoc = Some (m, a) \<and>
     assoc_walk m a assoc_get_iterator = Some xs \<and> distinct xs \<and> set xs = {100, 101, 102}"
proof -
  have "2 ^ (hashpower sample_assoc - 1) \<le> unat (expand_bucket sample_assoc) + count_true [True]"
    by (simp add: sample_assoc_def count_true_def)
  with assoc_bulk_move_correct [OF sample_rep, of "[True]"] obtain m a where
    "assoc_bulk_move sample_hash [True] sample_heap sample_assoc = Some (m, a)"
    "assoc_rep sample_hash m a {100, 101, 102}" "\<not> expanding a" by blast
  with assoc_iterator_complete show ?thesis by blast
qed

end
