(* ===== verification/Settings.thy ===== *)
theory Settings
  imports Prelude
begin

text \<open>
  The fields of \<^verbatim>\<open>struct settings\<close> (\<^verbatim>\<open>memcached.h\<close>) that the modelled code reads. C \<open>int\<close>
  settings that hold sizes are \<open>nat\<close>: the option parser only accepts positive values.
\<close>

record settings =
  maxbytes :: u64
  oldest_live :: u32
  oldest_cas :: u64
  evict_to_free :: bool
  chunk_size :: nat
  use_cas :: bool
  item_size_max :: nat
  slab_chunk_size_max :: nat
  slab_page_size :: nat
  lru_segmented :: bool
  slab_reassign :: bool
  slab_automove :: nat
  tail_repair_time :: u32
  hot_lru_pct :: u32
  warm_lru_pct :: u32
  temp_lru :: bool
  temporary_ttl :: u32

definition sample_settings :: settings where
  "sample_settings = \<lparr>maxbytes = 67108864, oldest_live = 0, oldest_cas = 0, evict_to_free = True,
     chunk_size = 48, use_cas = True, item_size_max = 1048576, slab_chunk_size_max = 524288,
     slab_page_size = 1048576, lru_segmented = True, slab_reassign = True, slab_automove = 1,
     tail_repair_time = 0, hot_lru_pct = 20, warm_lru_pct = 40, temp_lru = False,
     temporary_ttl = 61\<rparr>"

end
