(* ===== verification/Item_Queues.thy ===== *)
theory Item_Queues
  imports Heap_Lists Item_Model
begin

text \<open>
  Queues of items threaded through the \<open>next\<close> and \<open>prev\<close> fields of the header. The slab free
  lists and the LRU queues are both of this shape; the lemmas give the effect of the pointer
  updates the two components share, for any heap that agrees with them on the queue.
\<close>

definition item_queue :: "heap \<Rightarrow> ptr \<Rightarrow> ptr \<Rightarrow> ptr list \<Rightarrow> bool" where
  "item_queue m h t xs \<longleftrightarrow> dqueue (\<lambda>q. it_next (m q)) (\<lambda>q. it_prev (m q)) h t xs"

lemma item_queue_empty [simp]: "item_queue m h t [] \<longleftrightarrow> h = NULL \<and> t = NULL"
  by (simp add: item_queue_def)

lemma item_queue_nonnull: "item_queue m h t xs \<Longrightarrow> NULL \<notin> set xs"
  by (simp add: item_queue_def dqueue_nonnull)

lemma item_queue_distinct: "item_queue m h t xs \<Longrightarrow> distinct xs"
  by (simp add: item_queue_def dqueue_distinct)

lemma item_queue_head: "item_queue m h t xs \<Longrightarrow> h = (if xs = [] then NULL else hd xs)"
  unfolding item_queue_def by (rule dqueue_head)

lemma item_queue_tail: "item_queue m h t xs \<Longrightarrow> t = (if xs = [] then NULL else last xs)"
  unfolding item_queue_def by (rule dqueue_tail)

lemma item_queue_frame:
  "item_queue m h t xs \<Longrightarrow>
   (\<And>q. q \<in> set xs \<Longrightarrow> it_next (m' q) = it_next (m q) \<and> it_prev (m' q) = it_prev (m q)) \<Longrightarrow>
   item_queue m' h t xs"
  unfolding item_queue_def by (rule dqueue_cong [THEN iffD1, rotated]) auto

lemma item_queue_head_in: "item_queue m h t xs \<Longrightarrow> h \<noteq> NULL \<Longrightarrow> h \<in> set xs"
  using item_queue_head by (metis hd_in_set)

lemma item_queue_tail_in: "item_queue m h t xs \<Longrightarrow> t \<noteq> NULL \<Longrightarrow> t \<in> set xs"
  using item_queue_tail by (metis last_in_set)

text \<open>Pushing \<open>p\<close> at the head.\<close>

lemma item_queue_push:
  assumes q: "item_queue m h t xs" and p: "p \<noteq> NULL" "p \<notin> set xs"
    and p': "it_next (m' p) = h" "it_prev (m' p) = NULL"
    and h': "h \<noteq> NULL \<Longrightarrow> it_prev (m' h) = p \<and> it_next (m' h) = it_next (m h)"
    and o': "\<And>q. q \<in> set xs \<Longrightarrow> q \<noteq> h \<Longrightarrow>
               it_next (m' q) = it_next (m q) \<and> it_prev (m' q) = it_prev (m q)"
  shows "item_queue m' p (if t = NULL then p else t) (p # xs)"
proof -
  have hp: "h \<noteq> NULL \<Longrightarrow> h \<noteq> p" using item_queue_head_in [OF q] p by auto
  show ?thesis
    unfolding item_queue_def
    by (rule dqueue_cong [THEN iffD1, OF _ dqueue_push [OF q [unfolded item_queue_def] p]])
      (use p p' h' o' hp item_queue_nonnull [OF q] in \<open>auto\<close>)
qed

text \<open>
  Removing \<open>p\<close>: head and tail move when they point at it, and its neighbours are linked to
  each other.
\<close>

lemma item_queue_remove:
  assumes q: "item_queue m h t (ys @ p # zs)"
    and n': "\<And>q. q \<in> set (ys @ zs) \<Longrightarrow>
      it_next (m' q) = (if q = it_prev (m p) then it_next (m p) else it_next (m q))"
    and b': "\<And>q. q \<in> set (ys @ zs) \<Longrightarrow>
      it_prev (m' q) = (if q = it_next (m p) then it_prev (m p) else it_prev (m q))"
  shows "item_queue m' (if h = p then it_next (m p) else h) (if t = p then it_prev (m p) else t) (ys @ zs)"
proof -
  have nn: "NULL \<notin> set (ys @ zs)" using item_queue_nonnull [OF q] by auto
  show ?thesis
    unfolding item_queue_def
    by (rule dqueue_cong [THEN iffD1, OF _ dqueue_remove [OF q [unfolded item_queue_def]]])
      (use n' b' nn in \<open>auto\<close>)
qed

text \<open>The neighbours of an element are elements.\<close>

lemma item_queue_neighbours:
  assumes q: "item_queue m h t (ys @ p # zs)"
  shows "it_next (m p) = (if zs = [] then NULL else hd zs)"
    and "it_prev (m p) = (if ys = [] then NULL else last ys)"
proof -
  from q obtain f where l: "dseg (\<lambda>q. it_next (m q)) (\<lambda>q. it_prev (m q)) NULL h ys f p"
      and b: "it_prev (m p) = f"
      and r: "dseg (\<lambda>q. it_next (m q)) (\<lambda>q. it_prev (m q)) p (it_next (m p)) zs t NULL"
    by (auto simp: item_queue_def dqueue_def dseg_append)
  show "it_next (m p) = (if zs = [] then NULL else hd zs)" using dseg_first [OF r] by simp
  show "it_prev (m p) = (if ys = [] then NULL else last ys)" using dseg_last [OF l] b by simp
qed

text \<open>Appending at the tail, and inserting in front of an element.\<close>

lemma item_queue_append:
  assumes q: "item_queue m h t xs" and p: "p \<noteq> NULL" "p \<notin> set xs"
    and p': "it_next (m' p) = NULL" "it_prev (m' p) = t"
    and t': "t \<noteq> NULL \<Longrightarrow> it_next (m' t) = p \<and> it_prev (m' t) = it_prev (m t)"
    and o': "\<And>q. q \<in> set xs \<Longrightarrow> q \<noteq> t \<Longrightarrow> it_next (m' q) = it_next (m q) \<and> it_prev (m' q) = it_prev (m q)"
  shows "item_queue m' (if h = NULL then p else h) p (xs @ [p])"
  unfolding item_queue_def
  by (rule dqueue_cong [THEN iffD1, OF _ dqueue_append [OF q [unfolded item_queue_def] p]])
    (use p p' t' o' item_queue_nonnull [OF q] in \<open>auto\<close>)

lemma item_queue_insert_before:
  assumes q: "item_queue m h t (ys @ b # zs)" and p: "p \<noteq> NULL" "p \<notin> set (ys @ b # zs)"
    and n': "\<And>q. q \<in> set (ys @ p # b # zs) \<Longrightarrow>
      it_next (m' q) = (if q = p then b else if q = it_prev (m b) then p else it_next (m q))"
    and b': "\<And>q. q \<in> set (ys @ p # b # zs) \<Longrightarrow>
      it_prev (m' q) = (if q = p then it_prev (m b) else if q = b then p else it_prev (m q))"
  shows "item_queue m' (if h = b then p else h) t (ys @ p # b # zs)"
proof -
  have nn: "NULL \<notin> set (ys @ b # zs)" using item_queue_nonnull [OF q] .
  show ?thesis
    unfolding item_queue_def
    by (rule dqueue_cong [THEN iffD1, OF _ dqueue_insert_before [OF q [unfolded item_queue_def] p]])
      (use n' b' nn p in \<open>auto\<close>)
qed

end
