(* ===== verification/Slabs.thy ===== *)
theory Slabs
  imports Settings Item_Queues
begin

text \<open>
  The slab allocator of \<^verbatim>\<open>slabs.c\<close>: size classes, free lists of chunks threaded through the item
  headers, pages taken from the global pool or from the system, and the memory limit. What the
  C library decides (the address \<open>malloc\<close> returns, whether \<open>realloc\<close> succeeds) is an argument.
  Freeing a chunked item walks its chunk list in the heap; a walk that never ends is \<open>None\<close>.
\<close>

section \<open>State\<close>

record slabclass_t =
  sc_size :: nat
  perslab :: nat
  slots :: ptr
  sl_curr :: nat
  slabs_n :: nat
  slab_list :: "ptr list"
  list_size :: nat

record slabs =
  slabclass :: "slabclass_t list"
  mem_limit :: u64
  mem_malloced :: u64
  mem_limit_reached :: bool
  power_largest :: nat
  mem_base :: ptr
  mem_current :: ptr
  mem_avail :: u64

abbreviation (input) POWER_SMALLEST :: nat where "POWER_SMALLEST \<equiv> 1"
abbreviation (input) MAX_NUMBER_OF_SLAB_CLASSES :: nat where "MAX_NUMBER_OF_SLAB_CLASSES \<equiv> 64"
abbreviation (input) SLAB_GLOBAL_PAGE_POOL :: nat where "SLAB_GLOBAL_PAGE_POOL \<equiv> 0"
abbreviation (input) CHUNK_ALIGN_BYTES :: nat where "CHUNK_ALIGN_BYTES \<equiv> 8"
abbreviation (input) SLABS_ALLOC_NO_NEWPAGE :: nat where "SLABS_ALLOC_NO_NEWPAGE \<equiv> 1"

definition zero_slabclass :: slabclass_t where
  "zero_slabclass = \<lparr>sc_size = 0, perslab = 0, slots = NULL, sl_curr = 0, slabs_n = 0,
     slab_list = [], list_size = 0\<rparr>"

text \<open>\<open>slabclass[cid]\<close>, and an update of it in place.\<close>

abbreviation cls :: "slabs \<Rightarrow> nat \<Rightarrow> slabclass_t" where
  "cls s cid \<equiv> slabclass s ! cid"

definition upd_cls :: "nat \<Rightarrow> (slabclass_t \<Rightarrow> slabclass_t) \<Rightarrow> slabs \<Rightarrow> slabs" where
  "upd_cls cid f s = s\<lparr>slabclass := (slabclass s)[cid := f (cls s cid)]\<rparr>"

section \<open>Size classes\<close>

text \<open>
  The \<open>while\<close> loop of \<open>slabs_clsid\<close>: \<open>res\<close> starts at 1 and \<open>power_largest\<close> is at least 1, so
  the C test \<open>res++ == power_largest\<close> is first met with equality. The function is called
  \<open>slabs_clsid_for\<close> here because \<open>slabs_clsid\<close> is the field of the item.
\<close>

function slabs_clsid_loop :: "slabs \<Rightarrow> nat \<Rightarrow> nat \<Rightarrow> nat" where
  "slabs_clsid_loop s sz res =
     (if sz > sc_size (cls s res)
      then (if res \<ge> power_largest s then power_largest s else slabs_clsid_loop s sz (res + 1))
      else res)"
  by pat_completeness auto
termination
  by (relation "measure (\<lambda>(s, sz, res). power_largest s - res)") auto

declare slabs_clsid_loop.simps [simp del]

definition slabs_clsid_for :: "settings \<Rightarrow> slabs \<Rightarrow> nat \<Rightarrow> nat" where
  "slabs_clsid_for st s sz =
     (if sz = 0 \<or> sz > item_size_max st then 0 else slabs_clsid_loop s sz POWER_SMALLEST)"

definition slabs_size :: "slabs \<Rightarrow> nat \<Rightarrow> nat" where
  "slabs_size s clsid = sc_size (cls s clsid)"

definition align_chunk :: "nat \<Rightarrow> nat" where
  "align_chunk sz = (if sz mod CHUNK_ALIGN_BYTES \<noteq> 0
                     then sz + (CHUNK_ALIGN_BYTES - sz mod CHUNK_ALIGN_BYTES) else sz)"

text \<open>
  The loop of \<open>slabs_init\<close> that fills the class descriptors. \<open>slab_sizes\<close> is the optional list
  of sizes given by the user (0 ends it). Without it the sizes grow by the factor, which is a
  C \<open>double\<close>: \<open>grow sz\<close> stands for the truncated product \<open>sz * factor\<close>, and \<open>stop sz\<close> for the
  test \<open>sz >= slab_chunk_size_max / factor\<close>. The result is the class sizes from class 1 on
  and the index \<open>i\<close> at which the loop stopped.
\<close>

fun slabs_init_loop :: "(nat \<Rightarrow> nat) \<Rightarrow> (nat \<Rightarrow> bool) \<Rightarrow> nat list option \<Rightarrow> nat \<Rightarrow> nat \<Rightarrow> nat \<Rightarrow>
    nat list \<times> nat" where
  "slabs_init_loop grow stop ssz 0 i sz = ([], i)"
| "slabs_init_loop grow stop ssz (Suc n) i sz =
     (case ssz of
        Some xs \<Rightarrow>
          (if xs ! (i - 1) = 0 then ([], i)
           else let sz' = align_chunk (xs ! (i - 1));
                    (rest, k) = slabs_init_loop grow stop ssz n (i + 1) sz'
                in (sz' # rest, k))
      | None \<Rightarrow>
          (if stop sz then ([], i)
           else let sz' = align_chunk sz;
                    (rest, k) = slabs_init_loop grow stop ssz n (i + 1) (grow sz')
                in (sz' # rest, k)))"

definition mk_class :: "settings \<Rightarrow> nat \<Rightarrow> slabclass_t" where
  "mk_class st sz = zero_slabclass\<lparr>sc_size := sz, perslab := slab_page_size st div sz\<rparr>"

section \<open>Free lists\<close>

text \<open>
  An \<open>item_chunk\<close> has the same layout as an item header: \<open>head\<close> is where \<open>h_next\<close> is and
  \<open>orig_clsid\<close> where \<open>nkey\<close> is. The first chunk header of a large item sits behind the key,
  at \<open>ITEM_schunk(it)\<close>.
\<close>

abbreviation (input) ch_head :: "item \<Rightarrow> ptr" where "ch_head \<equiv> h_next"
abbreviation (input) orig_clsid :: "item \<Rightarrow> u8" where "orig_clsid \<equiv> nkey"

definition ITEM_schunk :: "ptr \<Rightarrow> item \<Rightarrow> ptr" where
  "ITEM_schunk p it = p + sizeof_item + unat (nkey it) + 1
     + (if has_flag ITEM_CFLAGS it then 4 else 0) + (if has_flag ITEM_CAS it then 8 else 0)"

text \<open>\<open>it->prev = 0; it->next = p->slots; if (it->next) it->next->prev = it; p->slots = it; p->sl_curr++\<close>\<close>

definition push_free :: "nat \<Rightarrow> ptr \<Rightarrow> heap \<Rightarrow> slabs \<Rightarrow> heap \<times> slabs" where
  "push_free cid it m s =
     (let h = slots (cls s cid);
          m1 = hupd it (\<lambda>x. x\<lparr>it_prev := NULL, it_next := h\<rparr>) m;
          m2 = (if h \<noteq> NULL then hupd h (it_prev_update (\<lambda>_. it)) m1 else m1)
      in (m2, upd_cls cid (\<lambda>c. c\<lparr>slots := it, sl_curr := sl_curr c + 1\<rparr>) s))"

partial_function (option) free_chunks_loop :: "ptr \<Rightarrow> heap \<Rightarrow> slabs \<Rightarrow> (heap \<times> slabs) option" where
  "free_chunks_loop chunk m s =
     (if chunk = NULL then Some (m, s)
      else if it_flags (m chunk) \<noteq> ITEM_CHUNK then None
      else let next_chunk = it_next (m chunk);
               m1 = hupd chunk (it_flags_update (\<lambda>_. ITEM_SLABBED)) m;
               (m2, s2) = push_free (unat (slabs_clsid (m chunk))) chunk m1 s
           in free_chunks_loop next_chunk m2 s2)"

definition do_slabs_free_chunked :: "ptr \<Rightarrow> heap \<Rightarrow> slabs \<Rightarrow> (heap \<times> slabs) option" where
  "do_slabs_free_chunked it m s =
     (let chunk = ITEM_schunk it (m it);
          oc = orig_clsid (m chunk);
          m1 = hupd it (\<lambda>x. x\<lparr>it_flags := ITEM_SLABBED, it_prev := NULL, slabs_clsid := oc\<rparr>) m;
          nxt = it_next (m1 chunk);
          m2 = (if nxt \<noteq> NULL then hupd nxt (it_prev_update (\<lambda>_. NULL)) m1 else m1);
          (m3, s3) = push_free (unat oc) it m2 s
      in free_chunks_loop nxt m3 s3)"

text \<open>The \<open>assert\<close> on the class id is a failed run (\<open>None\<close>).\<close>

definition do_slabs_free :: "ptr \<Rightarrow> nat \<Rightarrow> heap \<Rightarrow> slabs \<Rightarrow> (heap \<times> slabs) option" where
  "do_slabs_free p cid m s =
     (if cid < POWER_SMALLEST \<or> cid > power_largest s then None
      else if \<not> has_flag ITEM_CHUNKED (m p)
           then Some (push_free cid p
                  (hupd p (\<lambda>x. x\<lparr>it_flags := ITEM_SLABBED, slabs_clsid := of_nat cid\<rparr>) m) s)
           else do_slabs_free_chunked p m s)"

section \<open>Pages\<close>

definition grow_slab_list :: "bool \<Rightarrow> nat \<Rightarrow> slabs \<Rightarrow> bool \<times> slabs" where
  "grow_slab_list realloc_ok cid s =
     (let p = cls s cid
      in if slabs_n p = list_size p
         then let new_size = (if list_size p \<noteq> 0 then list_size p * 2 else 16)
              in if \<not> realloc_ok then (False, s)
                 else (True, upd_cls cid (\<lambda>c. c\<lparr>list_size := new_size,
                        slab_list := slab_list c @ replicate (new_size - list_size c) NULL\<rparr>) s)
         else (True, s))"

text \<open>\<open>p->slab_list[p->slabs++] = ptr\<close>\<close>

definition add_page :: "nat \<Rightarrow> ptr \<Rightarrow> slabs \<Rightarrow> slabs" where
  "add_page cid p s = upd_cls cid (\<lambda>c. c\<lparr>slab_list := (slab_list c)[slabs_n c := p],
                                        slabs_n := slabs_n c + 1\<rparr>) s"

definition get_page_from_global_pool :: "slabs \<Rightarrow> ptr \<times> slabs" where
  "get_page_from_global_pool s =
     (let p = cls s SLAB_GLOBAL_PAGE_POOL
      in if slabs_n p < 1 then (NULL, s)
         else (slab_list p ! (slabs_n p - 1),
               upd_cls SLAB_GLOBAL_PAGE_POOL (\<lambda>c. c\<lparr>slabs_n := slabs_n c - 1\<rparr>) s))"

text \<open>\<open>malloc_ret\<close> is what \<open>malloc\<close> returns, \<open>NULL\<close> when it fails.\<close>

definition memory_allocate :: "ptr \<Rightarrow> nat \<Rightarrow> slabs \<Rightarrow> ptr \<times> slabs" where
  "memory_allocate malloc_ret sz s =
     (if mem_base s = NULL
      then (malloc_ret, s\<lparr>mem_malloced := mem_malloced s + of_nat sz\<rparr>)
      else if of_nat sz > mem_avail s then (NULL, s)
      else let sz' = align_chunk sz
           in (mem_current s,
               s\<lparr>mem_current := mem_current s + sz',
                 mem_avail := (if of_nat sz' < mem_avail s then mem_avail s - of_nat sz' else 0),
                 mem_malloced := mem_malloced s + of_nat sz'\<rparr>))"

definition wipe :: "ptr \<Rightarrow> nat \<Rightarrow> heap \<Rightarrow> heap" where
  "wipe p len m = (\<lambda>q. if p \<le> q \<and> q < p + len then zero_item else m q)"

fun split_slab_page_loop :: "nat \<Rightarrow> ptr \<Rightarrow> nat \<Rightarrow> heap \<Rightarrow> slabs \<Rightarrow> (heap \<times> slabs) option" where
  "split_slab_page_loop 0 p cid m s = Some (m, s)"
| "split_slab_page_loop (Suc n) p cid m s =
     (case do_slabs_free p cid m s of
        None \<Rightarrow> None
      | Some (m', s') \<Rightarrow> split_slab_page_loop n (p + sc_size (cls s' cid)) cid m' s')"

definition split_slab_page_into_freelist :: "ptr \<Rightarrow> nat \<Rightarrow> heap \<Rightarrow> slabs \<Rightarrow> (heap \<times> slabs) option" where
  "split_slab_page_into_freelist p cid m s = split_slab_page_loop (perslab (cls s cid)) p cid m s"

text \<open>What the C library answers during one call: \<open>realloc\<close> and \<open>malloc\<close>.\<close>

record alloc_env =
  realloc_ok :: bool
  malloc_ret :: ptr

definition slab_page_len :: "settings \<Rightarrow> slabs \<Rightarrow> nat \<Rightarrow> nat" where
  "slab_page_len st s cid =
     (if slab_reassign st \<or> slab_chunk_size_max st \<noteq> slab_page_size st then slab_page_size st
      else sc_size (cls s cid) * perslab (cls s cid))"

definition do_slabs_newslab :: "settings \<Rightarrow> alloc_env \<Rightarrow> nat \<Rightarrow> heap \<Rightarrow> slabs \<Rightarrow>
    (bool \<times> heap \<times> slabs) option" where
  "do_slabs_newslab st env cid m s =
     (let len = slab_page_len st s cid
      in if mem_limit s \<noteq> 0 \<and> mem_malloced s + of_nat len > mem_limit s \<and> slabs_n (cls s cid) > 0
            \<and> slabs_n (cls s SLAB_GLOBAL_PAGE_POOL) = 0
         then Some (False, m, s\<lparr>mem_limit_reached := True\<rparr>)
         else let (grown, s1) = grow_slab_list (realloc_ok env) cid s
              in if \<not> grown then Some (False, m, s1)
                 else let (p0, s2) = get_page_from_global_pool s1;
                          (p, s3) = (if p0 \<noteq> NULL then (p0, s2)
                                     else memory_allocate (malloc_ret env) len s2)
                      in if p = NULL then Some (False, m, s3)
                         else (case split_slab_page_into_freelist p cid (wipe p len m) s3 of
                                 None \<Rightarrow> None
                               | Some (m', s4) \<Rightarrow> Some (True, m', add_page cid p s4)))"

text \<open>
  The result is the chunk (\<open>NULL\<close> when there is none); \<open>None\<close> is a failed \<open>assert\<close>
  (the head of a free list is not marked free, or the size does not fit the class).
\<close>

definition do_slabs_alloc :: "settings \<Rightarrow> alloc_env \<Rightarrow> nat \<Rightarrow> nat \<Rightarrow> nat \<Rightarrow> heap \<Rightarrow> slabs \<Rightarrow>
    (ptr \<times> heap \<times> slabs) option" where
  "do_slabs_alloc st env sz cid flags m s =
     (if cid < POWER_SMALLEST \<or> cid > power_largest s then Some (NULL, m, s)
      else if \<not> (sl_curr (cls s cid) = 0 \<or> has_flag ITEM_SLABBED (m (slots (cls s cid)))) then None
      else if \<not> sz \<le> sc_size (cls s cid) then None
      else (case (if sl_curr (cls s cid) = 0 \<and> flags \<noteq> SLABS_ALLOC_NO_NEWPAGE
                  then do_slabs_newslab st env cid m s else Some (False, m, s)) of
              None \<Rightarrow> None
            | Some (_, m1, s1) \<Rightarrow>
                if sl_curr (cls s1 cid) \<noteq> 0
                then let it = slots (cls s1 cid);
                         nxt = it_next (m1 it);
                         m2 = (if nxt \<noteq> NULL then hupd nxt (it_prev_update (\<lambda>_. NULL)) m1 else m1);
                         m3 = hupd it (\<lambda>x. (clear_flag ITEM_SLABBED x)\<lparr>refcount := 1\<rparr>) m2
                     in Some (it, m3, upd_cls cid (\<lambda>c. c\<lparr>slots := nxt, sl_curr := sl_curr c - 1\<rparr>) s1)
                else Some (NULL, m1, s1)))"

section \<open>Initialisation\<close>

text \<open>One page for every class, in order; a class that gets none ends the program (\<open>exit(1)\<close>).\<close>

fun slabs_preallocate_loop :: "settings \<Rightarrow> alloc_env \<Rightarrow> nat list \<Rightarrow> heap \<Rightarrow> slabs \<Rightarrow> (heap \<times> slabs) option" where
  "slabs_preallocate_loop st env [] m s = Some (m, s)"
| "slabs_preallocate_loop st env (i # is) m s =
     (case do_slabs_newslab st env i m s of
        Some (True, m', s') \<Rightarrow> slabs_preallocate_loop st env is m' s'
      | _ \<Rightarrow> None)"

definition slabs_preallocate :: "settings \<Rightarrow> alloc_env \<Rightarrow> nat \<Rightarrow> heap \<Rightarrow> slabs \<Rightarrow> (heap \<times> slabs) option" where
  "slabs_preallocate st env maxslabs m s =
     slabs_preallocate_loop st env
       [POWER_SMALLEST ..< min MAX_NUMBER_OF_SLAB_CLASSES (POWER_SMALLEST + maxslabs)] m s"

text \<open>
  The class table after the loop: classes 1 to \<open>power_largest - 1\<close> from the loop (which runs
  while \<open>++i < MAX_NUMBER_OF_SLAB_CLASSES - 1\<close>), the last with the largest chunk size.
\<close>

definition slabs_init_classes :: "settings \<Rightarrow> (nat \<Rightarrow> nat) \<Rightarrow> (nat \<Rightarrow> bool) \<Rightarrow> nat list option \<Rightarrow>
    slabclass_t list \<times> nat" where
  "slabs_init_classes st grow stop ssz =
     (let (szs, k) = slabs_init_loop grow stop ssz (MAX_NUMBER_OF_SLAB_CLASSES - 2) POWER_SMALLEST
                       (sizeof_item + chunk_size st);
          cs = zero_slabclass # map (mk_class st) szs @ [mk_class st (slab_chunk_size_max st)]
      in (cs @ replicate (MAX_NUMBER_OF_SLAB_CLASSES - length cs) zero_slabclass, k))"

text \<open>
  \<open>large\<close> is what \<open>alloc_large_chunk\<close> returns (\<open>NULL\<close> when there is no large chunk), and
  \<open>t_initial\<close> the parsed \<^verbatim>\<open>T_MEMD_INITIAL_MALLOC\<close> of the environment, if any.
\<close>

definition slabs_init :: "settings \<Rightarrow> alloc_env \<Rightarrow> (nat \<Rightarrow> nat) \<Rightarrow> (nat \<Rightarrow> bool) \<Rightarrow> nat list option \<Rightarrow>
    u64 \<Rightarrow> bool \<Rightarrow> ptr \<Rightarrow> bool \<Rightarrow> ptr \<Rightarrow> u64 option \<Rightarrow> heap \<Rightarrow> (heap \<times> slabs) option" where
  "slabs_init st env grow stop ssz limit prealloc mem_base_external reuse_mem large t_initial m =
     (let (base, cur, avail) =
            (if prealloc \<and> mem_base_external = NULL
             then (if large \<noteq> NULL then (large, large, limit) else (NULL, NULL, 0))
             else if prealloc
                  then (if reuse_mem then (mem_base_external, mem_base_external + unat limit, 0)
                        else (mem_base_external, mem_base_external, limit))
                  else (NULL, NULL, 0));
          (cs, k) = slabs_init_classes st grow stop ssz;
          s = \<lparr>slabclass = cs, mem_limit = limit,
               mem_malloced = (case t_initial of Some v \<Rightarrow> v | None \<Rightarrow> 0),
               mem_limit_reached = False, power_largest = k,
               mem_base = base, mem_current = cur, mem_avail = avail\<rparr>
      in if prealloc \<and> base \<noteq> NULL \<and> \<not> reuse_mem then slabs_preallocate st env k m s
         else Some (m, s))"

text \<open>
  \<open>slabs_prefill_global\<close>: pages into the global pool up to the limit; \<open>env n\<close> is what the C
  library answers in turn \<open>n\<close>. The result of \<open>grow_slab_list\<close> is ignored by the code; a failed
  \<open>realloc\<close> with a full page list is a write out of bounds (\<open>None\<close>).
\<close>

partial_function (option) slabs_prefill_loop :: "settings \<Rightarrow> (nat \<Rightarrow> alloc_env) \<Rightarrow> nat \<Rightarrow> heap \<Rightarrow> slabs \<Rightarrow>
    (heap \<times> slabs) option" where
  "slabs_prefill_loop st env n m s =
     (if mem_malloced s < mem_limit s
      then let (p, s1) = memory_allocate (malloc_ret (env n)) (slab_page_size st) s
           in if p = NULL then Some (m, s1)
              else let (grown, s2) = grow_slab_list (realloc_ok (env n)) SLAB_GLOBAL_PAGE_POOL s1
                   in if \<not> grown then None
                      else slabs_prefill_loop st env (n + 1) (wipe p sizeof_item m)
                             (add_page SLAB_GLOBAL_PAGE_POOL p s2)
      else Some (m, s))"

definition slabs_prefill_global :: "settings \<Rightarrow> (nat \<Rightarrow> alloc_env) \<Rightarrow> heap \<Rightarrow> slabs \<Rightarrow> (heap \<times> slabs) option" where
  "slabs_prefill_global st env m s =
     (case slabs_prefill_loop st env 0 m s of
        None \<Rightarrow> None
      | Some (m', s') \<Rightarrow> Some (m', s'\<lparr>mem_limit_reached := True\<rparr>))"

text \<open>
  \<open>slabs_fixup\<close>, called for each chunk of reused memory at a warm restart. The result is the
  size to advance by (\<open>-1\<close> for an unused page).
\<close>

definition slabs_fixup :: "bool \<Rightarrow> ptr \<Rightarrow> nat \<Rightarrow> heap \<Rightarrow> slabs \<Rightarrow> (int \<times> heap \<times> slabs) option" where
  "slabs_fixup realloc_succeeds chunk border m s =
     (let cid = unat (ITEM_clsid (m chunk))
      in if cid = 0
         then let (grown, s1) = grow_slab_list realloc_succeeds 0 s
              in if \<not> grown then None else Some (- 1, m, add_page 0 chunk s1)
         else case (if border = 0
                    then let (grown, s1) = grow_slab_list realloc_succeeds cid s
                         in if \<not> grown then None else Some (add_page cid chunk s1)
                    else Some s) of
                None \<Rightarrow> None
              | Some s2 \<Rightarrow>
                  let (m3, s3) = (if it_flags (m chunk) = ITEM_SLABBED then push_free cid chunk m s2
                                  else (m, s2))
                  in Some (int (sc_size (cls s3 cid)), m3, s3))"

section \<open>The memory limit\<close>

text \<open>
  \<open>memory_release\<close>: pages of the global pool go back to the system while more than the limit
  is in use. Each turn takes one page from the pool.
\<close>

fun memory_release_loop :: "settings \<Rightarrow> nat \<Rightarrow> slabs \<Rightarrow> slabs" where
  "memory_release_loop st 0 s = s"
| "memory_release_loop st (Suc n) s =
     (if mem_malloced s > mem_limit s
      then let (p, s') = get_page_from_global_pool s
           in if p \<noteq> NULL
              then memory_release_loop st n
                     (s'\<lparr>mem_malloced := mem_malloced s' - of_nat (slab_page_size st)\<rparr>)
              else s'
      else s)"

definition memory_release :: "settings \<Rightarrow> slabs \<Rightarrow> slabs" where
  "memory_release st s =
     (if mem_base s \<noteq> NULL then s
      else if \<not> slab_reassign st then s
      else memory_release_loop st (Suc (slabs_n (cls s SLAB_GLOBAL_PAGE_POOL))) s)"

definition do_slabs_adjust_mem_limit :: "u64 \<Rightarrow> settings \<Rightarrow> slabs \<Rightarrow> bool \<times> settings \<times> slabs" where
  "do_slabs_adjust_mem_limit new_mem_limit st s =
     (if mem_base s \<noteq> NULL then (False, st, s)
      else (True, st\<lparr>maxbytes := new_mem_limit\<rparr>,
            memory_release st (s\<lparr>mem_limit := new_mem_limit, mem_limit_reached := False\<rparr>)))"

definition slabs_available_chunks :: "nat \<Rightarrow> slabs \<Rightarrow> nat \<times> bool \<times> nat" where
  "slabs_available_chunks cid s =
     (sl_curr (cls s cid), mem_malloced s \<ge> mem_limit s, perslab (cls s cid))"

definition global_page_pool_size :: "slabs \<Rightarrow> nat \<times> bool" where
  "global_page_pool_size s = (slabs_n (cls s SLAB_GLOBAL_PAGE_POOL), mem_malloced s \<ge> mem_limit s)"

record slab_stats_automove =
  chunks_per_page :: nat
  free_chunks :: nat
  total_pages :: nat
  am_chunk_size :: nat

definition fill_slab_stats_automove :: "slabs \<Rightarrow> slab_stats_automove list" where
  "fill_slab_stats_automove s =
     map (\<lambda>n. \<lparr>chunks_per_page = perslab (cls s n), free_chunks = sl_curr (cls s n),
               total_pages = slabs_n (cls s n), am_chunk_size = sc_size (cls s n)\<rparr>)
       [0 ..< MAX_NUMBER_OF_SLAB_CLASSES]"

end
