(* ===== verification/Slab_Laws.thy ===== *)
theory Slab_Laws
  imports Slabs "HOL-Library.Disjoint_Sets"
begin

text \<open>
  The invariant of the slab allocator and the laws of its operations. \<open>C\<close> is the set of all
  chunks carved so far, as pairs of address and class; \<open>F i\<close> the free list of class \<open>i\<close>. The
  memory of two chunks never overlaps, and no chunk overlaps a page of the global pool or the
  rest of the preallocated block.
\<close>

section \<open>Class table updates\<close>

lemma cls_upd_cls:
  "i < length (slabclass s) \<Longrightarrow> cls (upd_cls i f s) j = (if j = i then f (cls s i) else cls s j)"
  by (simp add: upd_cls_def)

lemma length_upd_cls [simp]: "length (slabclass (upd_cls i f s)) = length (slabclass s)"
  by (simp add: upd_cls_def)

lemma upd_cls_globals [simp]:
  "mem_limit (upd_cls i f s) = mem_limit s" "mem_malloced (upd_cls i f s) = mem_malloced s"
  "mem_limit_reached (upd_cls i f s) = mem_limit_reached s"
  "power_largest (upd_cls i f s) = power_largest s" "mem_base (upd_cls i f s) = mem_base s"
  "mem_current (upd_cls i f s) = mem_current s" "mem_avail (upd_cls i f s) = mem_avail s"
  by (simp_all add: upd_cls_def)

section \<open>The invariant\<close>

definition region :: "ptr \<Rightarrow> nat \<Rightarrow> ptr set" where
  "region p n = {p ..< p + n}"

definition chunk_region :: "slabs \<Rightarrow> ptr \<times> nat \<Rightarrow> ptr set" where
  "chunk_region s c = region (fst c) (sc_size (cls s (snd c)))"

definition free_ok :: "heap \<Rightarrow> slabclass_t \<Rightarrow> nat \<Rightarrow> ptr list \<Rightarrow> bool" where
  "free_ok m c i xs \<longleftrightarrow> (\<exists>t. item_queue m (slots c) t xs) \<and> sl_curr c = length xs \<and>
     (\<forall>p\<in>set xs. it_flags (m p) = ITEM_SLABBED \<and> slabs_clsid (m p) = of_nat i)"

text \<open>The unused memory the allocator holds: the pages of the pool and the preallocated rest.\<close>

definition pool_pages :: "slabs \<Rightarrow> ptr list" where
  "pool_pages s = take (slabs_n (cls s SLAB_GLOBAL_PAGE_POOL)) (slab_list (cls s SLAB_GLOBAL_PAGE_POOL))"

definition spare_regions :: "settings \<Rightarrow> slabs \<Rightarrow> ptr set list" where
  "spare_regions st s = (if mem_base s = NULL then {} else region (mem_current s) (unat (mem_avail s)))
     # rev (map (\<lambda>g. region g (slab_page_size st)) (pool_pages s))"

primrec pairwise_disjoint :: "'a set list \<Rightarrow> bool" where
  "pairwise_disjoint [] \<longleftrightarrow> True"
| "pairwise_disjoint (R # Rs) \<longleftrightarrow> (\<forall>S\<in>set Rs. R \<inter> S = {}) \<and> pairwise_disjoint Rs"

definition classes_ok :: "settings \<Rightarrow> slabs \<Rightarrow> bool" where
  "classes_ok st s \<longleftrightarrow> length (slabclass s) = MAX_NUMBER_OF_SLAB_CLASSES \<and>
     POWER_SMALLEST \<le> power_largest s \<and> power_largest s < MAX_NUMBER_OF_SLAB_CLASSES \<and>
     (\<forall>i\<in>{1..power_largest s}. 0 < sc_size (cls s i) \<and>
        sc_size (cls s i) * perslab (cls s i) \<le> slab_page_size st) \<and>
     (\<forall>i\<le>power_largest s. slabs_n (cls s i) \<le> list_size (cls s i) \<and>
        length (slab_list (cls s i)) = list_size (cls s i)) \<and>
     slab_page_size st < 2 ^ 31 \<and>
     NULL \<notin> set (pool_pages s) \<and> (mem_base s \<noteq> NULL \<longrightarrow> mem_current s \<noteq> NULL)"

definition slabs_rep :: "settings \<Rightarrow> heap \<Rightarrow> slabs \<Rightarrow> (nat \<Rightarrow> ptr list) \<Rightarrow> (ptr \<times> nat) set \<Rightarrow> bool" where
  "slabs_rep st m s F C \<longleftrightarrow> classes_ok st s \<and>
     (\<forall>i\<in>{1..power_largest s}. free_ok m (cls s i) i (F i) \<and> (\<forall>p\<in>set (F i). (p, i) \<in> C)) \<and>
     (\<forall>c\<in>C. fst c \<noteq> NULL \<and> snd c \<in> {1..power_largest s}) \<and>
     disjoint_family_on (chunk_region s) C \<and>
     pairwise_disjoint (spare_regions st s) \<and>
     (\<forall>c\<in>C. \<forall>R\<in>set (spare_regions st s). chunk_region s c \<inter> R = {})"

definition used :: "(nat \<Rightarrow> ptr list) \<Rightarrow> (ptr \<times> nat) set \<Rightarrow> (ptr \<times> nat) set" where
  "used F C = {c \<in> C. fst c \<notin> set (F (snd c))}"

section \<open>Consequences\<close>

lemma slabs_repD:
  assumes "slabs_rep st m s F C"
  shows "classes_ok st s"
    and "i \<in> {1..power_largest s} \<Longrightarrow> free_ok m (cls s i) i (F i)"
    and "i \<in> {1..power_largest s} \<Longrightarrow> p \<in> set (F i) \<Longrightarrow> (p, i) \<in> C"
    and "c \<in> C \<Longrightarrow> fst c \<noteq> NULL"
    and "c \<in> C \<Longrightarrow> snd c \<in> {1..power_largest s}"
    and "disjoint_family_on (chunk_region s) C"
    and "pairwise_disjoint (spare_regions st s)"
    and "c \<in> C \<Longrightarrow> R \<in> set (spare_regions st s) \<Longrightarrow> chunk_region s c \<inter> R = {}"
  using assms unfolding slabs_rep_def by auto

lemma classes_okD:
  assumes "classes_ok st s"
  shows "length (slabclass s) = MAX_NUMBER_OF_SLAB_CLASSES"
    and "1 \<le> power_largest s" and "power_largest s < MAX_NUMBER_OF_SLAB_CLASSES"
    and "i \<in> {1..power_largest s} \<Longrightarrow> 0 < sc_size (cls s i)"
    and "i \<in> {1..power_largest s} \<Longrightarrow> sc_size (cls s i) * perslab (cls s i) \<le> slab_page_size st"
    and "i \<le> power_largest s \<Longrightarrow> slabs_n (cls s i) \<le> list_size (cls s i)"
    and "i \<le> power_largest s \<Longrightarrow> length (slab_list (cls s i)) = list_size (cls s i)"
    and "slab_page_size st < 2 ^ 31"
    and "NULL \<notin> set (pool_pages s)" and "mem_base s \<noteq> NULL \<Longrightarrow> mem_current s \<noteq> NULL"
  using assms unfolding classes_ok_def by auto

lemma chunk_start: "slabs_rep st m s F C \<Longrightarrow> c \<in> C \<Longrightarrow> fst c \<in> chunk_region s c"
  using classes_okD(4) [OF slabs_repD(1)] slabs_repD(5) [of st m s F C c]
  by (auto simp: chunk_region_def region_def)

lemma chunk_region_inj:
  assumes "slabs_rep st m s F C" "c \<in> C" "d \<in> C" "q \<in> chunk_region s c" "q \<in> chunk_region s d"
  shows "c = d"
  using slabs_repD(6) [OF assms(1)] assms(2-) by (auto simp: disjoint_family_on_def)

lemma chunk_eqI: "slabs_rep st m s F C \<Longrightarrow> (p, i) \<in> C \<Longrightarrow> (p, j) \<in> C \<Longrightarrow> i = j"
  using chunk_region_inj [of st m s F C "(p, i)" "(p, j)" p] chunk_start [of st m s F C]
  by fastforce

lemma free_lists_disjoint:
  assumes "slabs_rep st m s F C" "i \<in> {1..power_largest s}" "j \<in> {1..power_largest s}"
    "p \<in> set (F i)" "p \<in> set (F j)"
  shows "i = j"
  using assms chunk_eqI slabs_repD(3) by blast

text \<open>The memory of a used chunk holds no element of a free list.\<close>

lemma used_region_not_free:
  assumes rep: "slabs_rep st m s F C" and c: "c \<in> used F C" and q: "q \<in> chunk_region s c"
    and i: "i \<in> {1..power_largest s}"
  shows "q \<notin> set (F i)"
proof
  assume qf: "q \<in> set (F i)"
  then have "(q, i) \<in> C" using slabs_repD(3) [OF rep i] by simp
  moreover have "q \<in> chunk_region s (q, i)" using chunk_start [OF rep \<open>(q, i) \<in> C\<close>] by simp
  ultimately have "c = (q, i)" using chunk_region_inj [OF rep _ _ q] c by (auto simp: used_def)
  with c qf show False by (simp add: used_def)
qed

section \<open>Free lists\<close>

lemma free_ok_frame: "free_ok m c i xs \<Longrightarrow> (\<And>p. p \<in> set xs \<Longrightarrow> m' p = m p) \<Longrightarrow> free_ok m' c i xs"
  unfolding free_ok_def by (metis item_queue_frame)

lemma slabs_rep_frame:
  "slabs_rep st m s F C \<Longrightarrow>
   (\<And>i p. i \<in> {1..power_largest s} \<Longrightarrow> p \<in> set (F i) \<Longrightarrow> m' p = m p) \<Longrightarrow> slabs_rep st m' s F C"
  unfolding slabs_rep_def by (metis free_ok_frame)

text \<open>A write into the memory of used chunks leaves the allocator alone.\<close>

lemma slabs_rep_client_write:
  assumes rep: "slabs_rep st m s F C"
    and w: "\<And>q. m' q \<noteq> m q \<Longrightarrow> \<exists>c\<in>used F C. q \<in> chunk_region s c"
  shows "slabs_rep st m' s F C"
  by (rule slabs_rep_frame [OF rep]) (metis w used_region_not_free [OF rep])

lemma pool_pages_upd_cls:
  "i \<noteq> 0 \<Longrightarrow> pool_pages (upd_cls i f s) = pool_pages s"
  by (simp add: pool_pages_def upd_cls_def)

lemma spare_regions_upd_cls [simp]:
  "i \<noteq> 0 \<Longrightarrow> spare_regions st (upd_cls i f s) = spare_regions st s"
  by (simp add: spare_regions_def pool_pages_upd_cls)

text \<open>Updates of a class that leave its geometry and its pages alone.\<close>

definition same_geometry :: "(slabclass_t \<Rightarrow> slabclass_t) \<Rightarrow> bool" where
  "same_geometry f \<longleftrightarrow> (\<forall>c. sc_size (f c) = sc_size c \<and> perslab (f c) = perslab c \<and>
     slabs_n (f c) = slabs_n c \<and> slab_list (f c) = slab_list c \<and> list_size (f c) = list_size c)"

lemma sc_size_upd_cls:
  "(\<And>c. sc_size (f c) = sc_size c) \<Longrightarrow> sc_size (cls (upd_cls i f s) j) = sc_size (cls s j)"
  by (cases "i < length (slabclass s)") (auto simp: upd_cls_def nth_list_update not_less list_update_beyond)

lemma chunk_region_upd_cls:
  "(\<And>c. sc_size (f c) = sc_size c) \<Longrightarrow> chunk_region (upd_cls i f s) = chunk_region s"
  by (rule ext) (simp add: chunk_region_def sc_size_upd_cls)

lemma classes_ok_upd_cls:
  assumes "classes_ok st s" "i \<in> {1..power_largest s}" "same_geometry f"
  shows "classes_ok st (upd_cls i f s)"
proof -
  have "i < length (slabclass s)" using assms by (auto simp: classes_ok_def)
  then show ?thesis
    using assms by (auto simp: classes_ok_def cls_upd_cls same_geometry_def pool_pages_upd_cls)
qed

lemma slabs_rep_set_free:
  assumes rep: "slabs_rep st m s F C" and i: "i \<in> {1..power_largest s}"
    and f: "same_geometry f"
    and new: "free_ok m' (f (cls s i)) i xs" "\<And>p. p \<in> set xs \<Longrightarrow> (p, i) \<in> C"
    and o: "\<And>j p. j \<in> {1..power_largest s} \<Longrightarrow> j \<noteq> i \<Longrightarrow> p \<in> set (F j) \<Longrightarrow> m' p = m p"
  shows "slabs_rep st m' (upd_cls i f s) (F(i := xs)) C"
proof -
  have il: "i < length (slabclass s)" using slabs_repD(1) [OF rep] i by (auto simp: classes_ok_def)
  have cr: "chunk_region (upd_cls i f s) = chunk_region s"
    by (rule chunk_region_upd_cls) (use f in \<open>simp add: same_geometry_def\<close>)
  have fr: "free_ok m' (cls (upd_cls i f s) j) j ((F(i := xs)) j) \<and> (\<forall>p\<in>set ((F(i := xs)) j). (p, j) \<in> C)"
    if j: "j \<in> {1..power_largest s}" for j
  proof (cases "j = i")
    case True
    with new il show ?thesis by (simp add: cls_upd_cls)
  next
    case False
    have "free_ok m' (cls s j) j (F j)"
      by (rule free_ok_frame [OF slabs_repD(2) [OF rep j]]) (use o j False in auto)
    with False il slabs_repD(3) [OF rep j] show ?thesis by (simp add: cls_upd_cls)
  qed
  have i0: "i \<noteq> 0" using i by auto
  show ?thesis
    unfolding slabs_rep_def cr spare_regions_upd_cls [OF i0]
    using fr slabs_repD(4-8) [OF rep] classes_ok_upd_cls [OF slabs_repD(1) [OF rep] i f]
    by auto
qed

text \<open>Other addresses than \<open>p\<close> and the old head of the list keep their contents.\<close>

lemma push_free_heap:
  "q \<noteq> p \<Longrightarrow> q \<noteq> slots (cls s i) \<Longrightarrow> fst (push_free i p m s) q = m q"
  by (simp add: push_free_def Let_def hupd_apply)

lemma push_free_flags [simp]:
  "it_flags (fst (push_free i p m s) q) = it_flags (m q)"
  "slabs_clsid (fst (push_free i p m s) q) = slabs_clsid (m q)"
  by (simp_all add: push_free_def Let_def hupd_apply)

lemma push_free_rep:
  assumes rep: "slabs_rep st m s F C" and u: "(p, i) \<in> used F C"
    and fl: "it_flags (m p) = ITEM_SLABBED" "slabs_clsid (m p) = of_nat i"
  shows "slabs_rep st (fst (push_free i p m s)) (snd (push_free i p m s)) (F(i := p # F i)) C"
proof -
  let ?m = "fst (push_free i p m s)"
  have pC: "(p, i) \<in> C" and pF: "p \<notin> set (F i)" using u by (auto simp: used_def)
  have i: "i \<in> {1..power_largest s}" and pn: "p \<noteq> NULL" using slabs_repD(4,5) [OF rep pC] by auto
  from slabs_repD(2) [OF rep i] obtain t where
      q: "item_queue m (slots (cls s i)) t (F i)" and len: "sl_curr (cls s i) = length (F i)"
      and all: "\<forall>p\<in>set (F i). it_flags (m p) = ITEM_SLABBED \<and> slabs_clsid (m p) = of_nat i"
    by (auto simp: free_ok_def)
  have hp: "slots (cls s i) \<noteq> NULL \<Longrightarrow> slots (cls s i) \<noteq> p" using item_queue_head_in [OF q] pF by auto
  have "item_queue ?m p (if t = NULL then p else t) (p # F i)"
    by (rule item_queue_push [OF q pn pF])
      (use hp pF in \<open>auto simp: push_free_def Let_def hupd_apply\<close>)
  then have "free_ok ?m ((\<lambda>c. c\<lparr>slots := p, sl_curr := sl_curr c + 1\<rparr>) (cls s i)) i (p # F i)"
    using all fl len by (auto simp: free_ok_def)
  moreover have "?m r = m r" if "j \<in> {1..power_largest s}" "j \<noteq> i" "r \<in> set (F j)" for j r
  proof (rule push_free_heap)
    have r: "(r, j) \<in> C" using slabs_repD(3) [OF rep that(1,3)] .
    show "r \<noteq> p" using chunk_eqI [OF rep r] pC that(2) by auto
    show "r \<noteq> slots (cls s i)"
    proof
      assume eq: "r = slots (cls s i)"
      have "r \<noteq> NULL" using slabs_repD(4) [OF rep r] by simp
      then have "r \<in> set (F i)" using item_queue_head_in [OF q] eq by simp
      then show False using free_lists_disjoint [OF rep i that(1)] that by auto
    qed
  qed
  moreover have "snd (push_free i p m s) = upd_cls i (\<lambda>c. c\<lparr>slots := p, sl_curr := sl_curr c + 1\<rparr>) s"
    by (simp add: push_free_def Let_def)
  ultimately show ?thesis
    using slabs_rep_set_free [OF rep i, of "\<lambda>c. c\<lparr>slots := p, sl_curr := sl_curr c + 1\<rparr>" ?m "p # F i"]
      slabs_repD(3) [OF rep i] pC
    by (auto simp: same_geometry_def)
qed

lemma used_push: "used (F(i := p # F i)) C = used F C - {(p, i)}"
  by (auto simp: used_def)

section \<open>Freeing\<close>

text \<open>What an operation on free lists leaves alone.\<close>

definition slab_frame :: "slabs \<Rightarrow> slabs \<Rightarrow> bool" where
  "slab_frame s s' \<longleftrightarrow> power_largest s' = power_largest s \<and>
     length (slabclass s') = length (slabclass s) \<and>
     (\<forall>i. sc_size (cls s' i) = sc_size (cls s i) \<and> perslab (cls s' i) = perslab (cls s i) \<and>
          slabs_n (cls s' i) = slabs_n (cls s i) \<and> slab_list (cls s' i) = slab_list (cls s i) \<and>
          list_size (cls s' i) = list_size (cls s i)) \<and>
     mem_limit s' = mem_limit s \<and> mem_malloced s' = mem_malloced s \<and>
     mem_limit_reached s' = mem_limit_reached s \<and>
     mem_base s' = mem_base s \<and> mem_current s' = mem_current s \<and> mem_avail s' = mem_avail s"

lemma slab_frame_refl [simp]: "slab_frame s s"
  by (simp add: slab_frame_def)

lemma slab_frame_trans [trans]: "slab_frame s s' \<Longrightarrow> slab_frame s' s'' \<Longrightarrow> slab_frame s s''"
  by (simp add: slab_frame_def)

lemma slab_frame_upd_cls: "same_geometry f \<Longrightarrow> slab_frame s (upd_cls i f s)"
  by (cases "i < length (slabclass s)")
    (auto simp: slab_frame_def same_geometry_def cls_upd_cls, auto simp: upd_cls_def not_less list_update_beyond)

lemma slab_frame_region: "slab_frame s s' \<Longrightarrow> chunk_region s' = chunk_region s"
  by (rule ext) (simp add: slab_frame_def chunk_region_def)

lemma slab_frame_push [simp]: "slab_frame s (snd (push_free i p m s))"
  by (simp add: push_free_def Let_def slab_frame_upd_cls same_geometry_def)

text \<open>Addresses that are in no free list.\<close>

definition unlisted :: "slabs \<Rightarrow> (nat \<Rightarrow> ptr list) \<Rightarrow> ptr set" where
  "unlisted s F = {q. q \<noteq> NULL \<and> (\<forall>i\<in>{1..power_largest s}. q \<notin> set (F i))}"

lemma push_free_unlisted:
  assumes rep: "slabs_rep st m s F C" and i: "i \<in> {1..power_largest s}"
    and q: "q \<in> unlisted s F" "q \<noteq> p"
  shows "fst (push_free i p m s) q = m q"
proof (rule push_free_heap [OF q(2)])
  obtain t where Q: "item_queue m (slots (cls s i)) t (F i)"
    using slabs_repD(2) [OF rep i] by (auto simp: free_ok_def)
  show "q \<noteq> slots (cls s i)"
    using item_queue_head_in [OF Q] q(1) i by (auto simp: unlisted_def)
qed

lemma used_unlisted:
  assumes rep: "slabs_rep st m s F C" and c: "c \<in> used F C" and q: "q \<in> chunk_region s c"
  shows "q \<in> unlisted s F"
proof -
  have "0 < fst c" using slabs_repD(4) [OF rep] c by (auto simp: used_def)
  then have "q \<noteq> NULL" using q by (auto simp: chunk_region_def region_def)
  then show ?thesis using used_region_not_free [OF rep c q] by (auto simp: unlisted_def)
qed

lemma do_slabs_free_plain:
  assumes rep: "slabs_rep st m s F C" and u: "(p, i) \<in> used F C"
    and nc: "\<not> has_flag ITEM_CHUNKED (m p)"
  shows "\<exists>m' s'. do_slabs_free p i m s = Some (m', s') \<and> slabs_rep st m' s' (F(i := p # F i)) C \<and>
           slab_frame s s' \<and> (\<forall>q\<in>unlisted s F. q \<noteq> p \<longrightarrow> m' q = m q)"
proof -
  let ?m = "hupd p (\<lambda>x. x\<lparr>it_flags := ITEM_SLABBED, slabs_clsid := of_nat i\<rparr>) m"
  have pC: "(p, i) \<in> C" using u by (simp add: used_def)
  have i: "i \<in> {1..power_largest s}" using slabs_repD(5) [OF rep pC] by simp
  have rep1: "slabs_rep st ?m s F C"
    by (rule slabs_rep_client_write [OF rep])
      (use u chunk_start [OF rep pC] in \<open>auto simp: hupd_apply split: if_splits\<close>)
  have "slabs_rep st (fst (push_free i p ?m s)) (snd (push_free i p ?m s)) (F(i := p # F i)) C"
    by (rule push_free_rep [OF rep1 u]) simp_all
  moreover have "\<forall>q\<in>unlisted s F. q \<noteq> p \<longrightarrow> fst (push_free i p ?m s) q = m q"
    using push_free_unlisted [OF rep1 i] by (simp add: hupd_apply)
  moreover have "do_slabs_free p i m s = Some (push_free i p ?m s)"
    using i nc by (simp add: do_slabs_free_def)
  ultimately show ?thesis by (metis prod.collapse slab_frame_push)
qed

text \<open>Freeing the chunks of a large item: every chunk of the list goes to its own class.\<close>

lemma free_chunks_loop_rep:
  assumes "slabs_rep st m s F C" "chain (\<lambda>q. it_next (m q)) ch cs"
    and "\<And>c. c \<in> set cs \<Longrightarrow> it_flags (m c) = ITEM_CHUNK \<and> (c, unat (slabs_clsid (m c))) \<in> used F C"
  shows "\<exists>m' s' F'. free_chunks_loop ch m s = Some (m', s') \<and> slabs_rep st m' s' F' C \<and>
           used F' C = used F C - (\<lambda>c. (c, unat (slabs_clsid (m c)))) ` set cs \<and> slab_frame s s' \<and>
           (\<forall>q\<in>unlisted s F - set cs. m' q = m q)"
  using assms
proof (induction cs arbitrary: m s F ch)
  case Nil
  then show ?case by (simp add: free_chunks_loop.simps) blast
next
  case (Cons c cs)
  let ?i = "unat (slabs_clsid (m c))"
  let ?m1 = "hupd c (it_flags_update (\<lambda>_. ITEM_SLABBED)) m"
  let ?m2 = "fst (push_free ?i c ?m1 s)" and ?s2 = "snd (push_free ?i c ?m1 s)"
  let ?F = "F(?i := c # F ?i)"
  note rep = Cons.prems(1)
  have ch: "ch = c" "c \<noteq> NULL" and cs: "chain (\<lambda>q. it_next (m q)) (it_next (m c)) cs" using Cons.prems(2) by auto
  have fl: "it_flags (m c) = ITEM_CHUNK" and u: "(c, ?i) \<in> used F C" using Cons.prems(3) by auto
  have dist: "c \<notin> set cs" using chain_distinct [OF Cons.prems(2)] by simp
  have cC: "(c, ?i) \<in> C" using u by (simp add: used_def)
  have i: "?i \<in> {1..power_largest s}" using slabs_repD(5) [OF rep cC] by simp
  have rep1: "slabs_rep st ?m1 s F C"
    by (rule slabs_rep_client_write [OF rep])
      (use u chunk_start [OF rep cC] in \<open>auto simp: hupd_apply split: if_splits\<close>)
  have rep2: "slabs_rep st ?m2 ?s2 ?F C" by (rule push_free_rep [OF rep1 u]) simp_all
  have frame: "?m2 q = m q" if "q \<in> unlisted s F" "q \<noteq> c" for q
    using push_free_unlisted [OF rep1 i that] that by (simp add: hupd_apply)
  have keep: "?m2 d = m d" if "d \<in> set cs" for d
  proof (rule frame)
    have d: "(d, unat (slabs_clsid (m d))) \<in> used F C" using Cons.prems(3) that by simp
    then show "d \<in> unlisted s F" using used_unlisted [OF rep d] chunk_start [OF rep] by (auto simp: used_def)
    show "d \<noteq> c" using dist that by auto
  qed
  have chain2: "chain (\<lambda>q. it_next (?m2 q)) (it_next (m c)) cs"
    using cs by (rule chain_cong [THEN iffD1, rotated]) (simp add: keep)
  have all2: "it_flags (?m2 d) = ITEM_CHUNK \<and> (d, unat (slabs_clsid (?m2 d))) \<in> used ?F C"
    if "d \<in> set cs" for d
    using Cons.prems(3) [of d] that dist by (auto simp: keep used_push)
  from Cons.IH [OF rep2 chain2 all2] obtain m' s' F' where
    IH: "free_chunks_loop (it_next (m c)) ?m2 ?s2 = Some (m', s')" "slabs_rep st m' s' F' C"
      "used F' C = used ?F C - (\<lambda>c. (c, unat (slabs_clsid (?m2 c)))) ` set cs" "slab_frame ?s2 s'"
      "\<forall>q\<in>unlisted ?s2 ?F - set cs. m' q = ?m2 q"
    by blast
  have "free_chunks_loop ch m s = Some (m', s')"
    using IH(1) ch fl by (simp add: free_chunks_loop.simps [of c] Let_def case_prod_beta)
  moreover have "used F' C = used F C - (\<lambda>c. (c, unat (slabs_clsid (m c)))) ` set (c # cs)"
    unfolding IH(3) used_push using keep by auto
  moreover have "slab_frame s s'" using slab_frame_trans [OF slab_frame_push IH(4)] .
  moreover have "m' q = m q" if q: "q \<in> unlisted s F - set (c # cs)" for q
  proof -
    have "power_largest ?s2 = power_largest s" by (simp add: push_free_def Let_def)
    then have "q \<in> unlisted ?s2 ?F - set cs" using q by (auto simp: unlisted_def)
    then show ?thesis using IH(5) frame q by auto
  qed
  ultimately show ?case using IH(2) by blast
qed

text \<open>
  Freeing a chunked item whose header is the used chunk \<open>(it, i)\<close> and whose further chunks are
  \<open>cs\<close>. The first chunk header lies inside the item.
\<close>

definition chunked_item :: "heap \<Rightarrow> slabs \<Rightarrow> (ptr \<times> nat) set \<Rightarrow> ptr \<Rightarrow> nat \<Rightarrow> ptr list \<Rightarrow> bool" where
  "chunked_item m s U it i cs \<longleftrightarrow>
     has_flag ITEM_CHUNKED (m it) \<and> (it, i) \<in> U \<and>
     ITEM_schunk it (m it) \<in> chunk_region s (it, i) \<and>
     unat (orig_clsid (m (ITEM_schunk it (m it)))) = i \<and>
     chain (\<lambda>q. it_next (m q)) (it_next (m (ITEM_schunk it (m it)))) cs \<and> it \<notin> set cs \<and>
     (\<forall>c\<in>set cs. it_flags (m c) = ITEM_CHUNK \<and> (c, unat (slabs_clsid (m c))) \<in> U)"

definition chunks_of :: "heap \<Rightarrow> ptr \<Rightarrow> nat \<Rightarrow> ptr list \<Rightarrow> (ptr \<times> nat) set" where
  "chunks_of m it i cs = insert (it, i) ((\<lambda>c. (c, unat (slabs_clsid (m c)))) ` set cs)"

lemma ITEM_schunk_neq [simp]: "ITEM_schunk p it \<noteq> p"
  by (simp add: ITEM_schunk_def sizeof_item_def)

lemma do_slabs_free_chunked_rep:
  assumes rep: "slabs_rep st m s F C" and ci: "chunked_item m s (used F C) it i cs"
  shows "\<exists>m' s' F'. do_slabs_free it i m s = Some (m', s') \<and> slabs_rep st m' s' F' C \<and>
           used F' C = used F C - chunks_of m it i cs \<and> slab_frame s s' \<and>
           (\<forall>q\<in>unlisted s F - insert it (set cs). m' q = m q)"
proof -
  let ?ch = "ITEM_schunk it (m it)"
  let ?oc = "orig_clsid (m ?ch)" and ?n = "it_next (m ?ch)"
  let ?m1 = "hupd it (\<lambda>x. x\<lparr>it_flags := ITEM_SLABBED, it_prev := NULL, slabs_clsid := ?oc\<rparr>) m"
  define m2 where "m2 = (if ?n \<noteq> NULL then hupd ?n (it_prev_update (\<lambda>_. NULL)) ?m1 else ?m1)"
  define m3 where "m3 = fst (push_free i it m2 s)"
  define s3 where "s3 = snd (push_free i it m2 s)"
  let ?F = "F(i := it # F i)"
  have u: "(it, i) \<in> used F C" and oc: "unat ?oc = i"
    and ch: "chain (\<lambda>q. it_next (m q)) ?n cs" and ncs: "it \<notin> set cs"
    and cs: "\<And>c. c \<in> set cs \<Longrightarrow> it_flags (m c) = ITEM_CHUNK \<and> (c, unat (slabs_clsid (m c))) \<in> used F C"
    using ci by (auto simp: chunked_item_def)
  have itC: "(it, i) \<in> C" using u by (simp add: used_def)
  have i: "i \<in> {1..power_largest s}" using slabs_repD(5) [OF rep itC] by simp
  have ncs': "?n \<noteq> NULL \<Longrightarrow> ?n \<in> set cs" using chain_cases_nonnull [OF _ ch] by auto
  have start: "\<exists>c\<in>used F C. q \<in> chunk_region s c" if "q \<in> insert it (set cs)" for q
    using that u cs chunk_start [OF rep] by (force simp: used_def)
  have rep2: "slabs_rep st m2 s F C"
    by (rule slabs_rep_client_write [OF rep])
      (use start ncs' in \<open>auto simp: m2_def hupd_apply split: if_splits\<close>)
  have fl: "it_flags (m2 it) = ITEM_SLABBED" "slabs_clsid (m2 it) = of_nat i"
    using oc by (auto simp: m2_def hupd_apply)
  have rep3: "slabs_rep st m3 s3 ?F C" unfolding m3_def s3_def by (rule push_free_rep [OF rep2 u fl])
  have frame: "m3 q = m2 q" if "q \<in> unlisted s F" "q \<noteq> it" for q
    unfolding m3_def using push_free_unlisted [OF rep2 i that] .
  have keep: "m3 c = m2 c" if "c \<in> set cs" for c
  proof (rule frame)
    show "c \<in> unlisted s F" using start [of c] that used_unlisted [OF rep] by auto
    show "c \<noteq> it" using ncs that by auto
  qed
  have keep': "it_next (m3 c) = it_next (m c)" "it_flags (m3 c) = it_flags (m c)"
    "slabs_clsid (m3 c) = slabs_clsid (m c)" if "c \<in> set cs" for c
    using keep [OF that] that ncs by (auto simp: m2_def hupd_apply)
  have chain3: "chain (\<lambda>q. it_next (m3 q)) ?n cs"
    using ch by (rule chain_cong [THEN iffD1, rotated]) (simp add: keep'(1))
  have cs3: "it_flags (m3 c) = ITEM_CHUNK \<and> (c, unat (slabs_clsid (m3 c))) \<in> used ?F C"
    if "c \<in> set cs" for c
    using cs [OF that] that ncs by (auto simp: keep'(2,3) used_push)
  from free_chunks_loop_rep [OF rep3 chain3 cs3] obtain m' s' F' where
    L: "free_chunks_loop ?n m3 s3 = Some (m', s')" "slabs_rep st m' s' F' C"
      "used F' C = used ?F C - (\<lambda>c. (c, unat (slabs_clsid (m3 c)))) ` set cs" "slab_frame s3 s'"
      "\<forall>q\<in>unlisted s3 ?F - set cs. m' q = m3 q"
    by blast
  have "do_slabs_free it i m s = Some (m', s')"
    using i ci oc L(1) unfolding m3_def s3_def m2_def
    by (cases "?n = NULL") (simp_all add: do_slabs_free_def do_slabs_free_chunked_def
      chunked_item_def Let_def case_prod_beta)
  moreover have "used F' C = used F C - chunks_of m it i cs"
    unfolding L(3) used_push chunks_of_def using keep'(3) by auto
  moreover have "m' q = m q" if q: "q \<in> unlisted s F - insert it (set cs)" for q
  proof -
    have "power_largest s3 = power_largest s" by (simp add: s3_def push_free_def Let_def)
    then have "q \<in> unlisted s3 ?F - set cs" using q by (auto simp: unlisted_def)
    then have "m' q = m2 q" using L(5) frame q by auto
    then show ?thesis using q ncs' by (auto simp: m2_def hupd_apply)
  qed
  ultimately show ?thesis using L(2) slab_frame_trans [OF slab_frame_push L(4) [unfolded s3_def]] by blast
qed

text \<open>Freeing never changes pages, class geometry or the memory counters, whatever the state.\<close>

lemma free_chunks_loop_frame:
  assumes "free_chunks_loop ch m s = Some r"
  shows "slab_frame s (snd r)"
proof (rule free_chunks_loop.raw_induct [OF _ assms])
  fix loop :: "ptr \<Rightarrow> heap \<Rightarrow> slabs \<Rightarrow> (heap \<times> slabs) option" and ch m s r
  assume IH: "\<And>ch m s r. loop ch m s = Some r \<Longrightarrow> slab_frame s (snd r)"
  assume "(if ch = NULL then Some (m, s) else if it_flags (m ch) \<noteq> ITEM_CHUNK then None
      else let next_chunk = it_next (m ch); m1 = hupd ch (it_flags_update (\<lambda>_. ITEM_SLABBED)) m;
               (m2, s2) = push_free (unat (slabs_clsid (m ch))) ch m1 s
           in loop next_chunk m2 s2) = Some r"
  then show "slab_frame s (snd r)"
    by (auto simp: Let_def case_prod_beta dest!: IH intro: slab_frame_trans [OF slab_frame_push] split: if_splits)
qed

lemma do_slabs_free_frame:
  "do_slabs_free p i m s = Some (m', s') \<Longrightarrow> slab_frame s s'"
  by (auto simp: do_slabs_free_def do_slabs_free_chunked_def Let_def case_prod_beta
      dest!: free_chunks_loop_frame arg_cong [where f = snd and x = "push_free _ _ _ _"]
      intro: slab_frame_trans [OF slab_frame_push] split: if_splits)

lemma split_slab_page_frame:
  assumes "split_slab_page_into_freelist p i m s = Some (m', s')"
  shows "slab_frame s s'"
proof -
  have "split_slab_page_loop n p i m s = Some (m', s') \<Longrightarrow> slab_frame s s'" for n
    by (induction n arbitrary: p m s) (auto dest: do_slabs_free_frame intro: slab_frame_trans split: option.splits)
  then show ?thesis using assms by (simp add: split_slab_page_into_freelist_def)
qed

section \<open>Allocation from a free list\<close>

lemma pop_rep:
  assumes rep: "slabs_rep st m s F C" and i: "i \<in> {1..power_largest s}" and F: "F i = it # xs"
  defines "n \<equiv> it_next (m it)"
  defines "m2 \<equiv> (if n \<noteq> NULL then hupd n (it_prev_update (\<lambda>_. NULL)) m else m)"
  defines "m3 \<equiv> hupd it (\<lambda>x. (clear_flag ITEM_SLABBED x)\<lparr>refcount := 1\<rparr>) m2"
  shows "slabs_rep st m3 (upd_cls i (\<lambda>c. c\<lparr>slots := n, sl_curr := sl_curr c - 1\<rparr>) s) (F(i := xs)) C"
    and "slots (cls s i) = it" and "it_flags (m3 it) = 0" and "refcount (m3 it) = 1"
    and "\<forall>q\<in>unlisted s F. m3 q = m q" and "slabs_clsid (m3 it) = of_nat i"
proof -
  from slabs_repD(2) [OF rep i] F obtain t where
      q: "item_queue m (slots (cls s i)) t ([] @ it # xs)" and len: "sl_curr (cls s i) = Suc (length xs)"
      and all: "\<forall>p\<in>set (it # xs). it_flags (m p) = ITEM_SLABBED \<and> slabs_clsid (m p) = of_nat i"
    by (auto simp: free_ok_def)
  show sl: "slots (cls s i) = it" using item_queue_head [OF q] by simp
  have nb: "n = (if xs = [] then NULL else hd xs)" "it_prev (m it) = NULL"
    using item_queue_neighbours [OF q] by (simp_all add: n_def)
  have nn: "NULL \<notin> set xs" "it \<notin> set xs" using item_queue_nonnull [OF q] item_queue_distinct [OF q] by auto
  have nxs: "n \<noteq> NULL \<Longrightarrow> n \<in> set xs" using nb by (auto split: if_splits)
  have nit: "n \<noteq> it" using nb nn item_queue_nonnull [OF q] by (auto split: if_splits)
  have "item_queue m3 (if slots (cls s i) = it then it_next (m it) else slots (cls s i))
          (if t = it then it_prev (m it) else t) ([] @ xs)"
    by (rule item_queue_remove [OF q])
      (use nn nb in \<open>auto simp: m3_def m2_def hupd_apply clear_flag_def n_def [symmetric]\<close>)
  then have "\<exists>t. item_queue m3 n t xs" using sl by (auto simp: n_def)
  moreover have "it_flags (m3 p) = it_flags (m p)" "slabs_clsid (m3 p) = slabs_clsid (m p)" if "p \<in> set xs" for p
    using nn that by (auto simp: m3_def m2_def hupd_apply)
  ultimately have "free_ok m3 ((\<lambda>c. c\<lparr>slots := n, sl_curr := sl_curr c - 1\<rparr>) (cls s i)) i xs"
    using all len by (auto simp: free_ok_def)
  moreover have "m3 p = m p" if "j \<in> {1..power_largest s}" "j \<noteq> i" "p \<in> set (F j)" for j p
  proof -
    have "p \<notin> set (F i)" using free_lists_disjoint [OF rep i that(1) _ that(3)] that(2) by auto
    then show ?thesis using F nxs by (auto simp: m3_def m2_def hupd_apply)
  qed
  ultimately show "slabs_rep st m3 (upd_cls i (\<lambda>c. c\<lparr>slots := n, sl_curr := sl_curr c - 1\<rparr>) s) (F(i := xs)) C"
    using slabs_rep_set_free [OF rep i, of "\<lambda>c. c\<lparr>slots := n, sl_curr := sl_curr c - 1\<rparr>" m3 xs]
      slabs_repD(3) [OF rep i] F
    by (auto simp: same_geometry_def)
  show "it_flags (m3 it) = 0" "refcount (m3 it) = 1" "slabs_clsid (m3 it) = of_nat i"
    using all nit by (simp_all add: m3_def m2_def hupd_apply clear_flag_def)
  show "\<forall>q\<in>unlisted s F. m3 q = m q"
  proof
    fix q
    assume "q \<in> unlisted s F"
    then have "q \<notin> set (F i)" using i by (simp add: unlisted_def)
    then show "m3 q = m q" using F nxs by (auto simp: m3_def m2_def hupd_apply)
  qed
qed

section \<open>Pages\<close>

text \<open>
  What \<open>malloc\<close> promises: the memory it returns overlaps no memory the program holds.
\<close>

definition memory_of :: "settings \<Rightarrow> slabs \<Rightarrow> (ptr \<times> nat) set \<Rightarrow> ptr set" where
  "memory_of st s C = \<Union> (chunk_region s ` C) \<union> \<Union> (set (spare_regions st s))"

definition malloc_region :: "settings \<Rightarrow> alloc_env \<Rightarrow> ptr set" where
  "malloc_region st env = (if malloc_ret env = NULL then {} else region (malloc_ret env) (slab_page_size st))"

definition malloc_fresh :: "settings \<Rightarrow> alloc_env \<Rightarrow> slabs \<Rightarrow> (ptr \<times> nat) set \<Rightarrow> bool" where
  "malloc_fresh st env s C \<longleftrightarrow> malloc_region st env \<inter> memory_of st s C = {}"

text \<open>A page that overlaps no chunk and no spare memory.\<close>

definition free_page :: "settings \<Rightarrow> slabs \<Rightarrow> (ptr \<times> nat) set \<Rightarrow> ptr \<Rightarrow> nat \<Rightarrow> bool" where
  "free_page st s C p len \<longleftrightarrow>
     p \<noteq> NULL \<and> (\<forall>R\<in>chunk_region s ` C \<union> set (spare_regions st s). region p len \<inter> R = {})"

lemma memory_of_mono:
  assumes "\<And>c. c \<in> C \<Longrightarrow> chunk_region s' c = chunk_region s c"
    and "\<And>R. R \<in> set (spare_regions st s') \<Longrightarrow> \<exists>R'\<in>set (spare_regions st s). R \<subseteq> R'"
  shows "memory_of st s' C \<subseteq> memory_of st s C"
proof
  fix q
  assume "q \<in> memory_of st s' C"
  then consider c where "c \<in> C" "q \<in> chunk_region s' c" | R where "R \<in> set (spare_regions st s')" "q \<in> R"
    unfolding memory_of_def by blast
  then show "q \<in> memory_of st s C"
  proof cases
    case 1
    then show ?thesis using assms(1) [OF 1(1)] unfolding memory_of_def by blast
  next
    case 2
    then show ?thesis using assms(2) [OF 2(1)] unfolding memory_of_def by blast
  qed
qed

text \<open>Operations on pages keep the free lists; the spare memory may only shrink.\<close>

lemma slabs_rep_pages:
  assumes rep: "slabs_rep st m s F C" and ok: "classes_ok st s'"
    and pl: "power_largest s' = power_largest s"
    and same: "\<And>i. i \<in> {1..power_largest s} \<Longrightarrow> slots (cls s' i) = slots (cls s i) \<and>
                 sl_curr (cls s' i) = sl_curr (cls s i) \<and> sc_size (cls s' i) = sc_size (cls s i)"
    and pd: "pairwise_disjoint (spare_regions st s')"
    and sub: "\<And>R. R \<in> set (spare_regions st s') \<Longrightarrow> \<exists>R'\<in>set (spare_regions st s). R \<subseteq> R'"
  shows "slabs_rep st m s' F C" and "c \<in> C \<Longrightarrow> chunk_region s' c = chunk_region s c"
proof -
  show cr: "chunk_region s' c = chunk_region s c" if "c \<in> C" for c
    using same slabs_repD(5) [OF rep that] by (simp add: chunk_region_def)
  have fo: "free_ok m (cls s' i) i (F i)" if "i \<in> {1..power_largest s}" for i
    using slabs_repD(2) [OF rep that] same [OF that] by (simp add: free_ok_def)
  have "disjoint_family_on (chunk_region s') C"
    using slabs_repD(6) [OF rep] by (simp add: disjoint_family_on_def cr)
  moreover have "chunk_region s' c \<inter> R = {}" if "c \<in> C" "R \<in> set (spare_regions st s')" for c R
    using sub [OF that(2)] slabs_repD(8) [OF rep that(1)] cr [OF that(1)] by auto
  ultimately show "slabs_rep st m s' F C"
    unfolding slabs_rep_def using ok pl fo slabs_repD(3-5) [OF rep] pd by auto
qed

lemma grow_slab_list_rep:
  assumes rep: "slabs_rep st m s F C" and i: "i \<le> power_largest s"
    and g: "grow_slab_list ok i s = (grown, s')"
  shows "slabs_rep st m s' F C" and "spare_regions st s' = spare_regions st s"
    and "chunk_region s' = chunk_region s" and "power_largest s' = power_largest s"
    and "perslab (cls s' j) = perslab (cls s j)" and "slabs_n (cls s' j) = slabs_n (cls s j)"
    and "grown \<Longrightarrow> slabs_n (cls s' i) < list_size (cls s' i)"
    and "mem_base s' = mem_base s" and "mem_malloced s' = mem_malloced s" and "mem_limit s' = mem_limit s"
proof -
  note ok = slabs_repD(1) [OF rep]
  have il: "i < length (slabclass s)" using classes_okD(1,3) [OF ok] i by simp
  note n = classes_okD(6,7) [OF ok i]
  define k where "k = (if list_size (cls s i) \<noteq> 0 then list_size (cls s i) * 2 else 16)"
  have k: "list_size (cls s i) < k" by (simp add: k_def)
  have cases: "s' = s \<or> (slabs_n (cls s i) = list_size (cls s i) \<and> s' = upd_cls i (\<lambda>c. c\<lparr>list_size := k,
       slab_list := slab_list c @ replicate (k - list_size c) NULL\<rparr>) s)"
    using g unfolding grow_slab_list_def Let_def k_def [symmetric] by (auto split: if_splits)
  have "pool_pages s' = pool_pages s \<and> power_largest s' = power_largest s \<and> mem_base s' = mem_base s \<and>
      mem_current s' = mem_current s \<and> mem_avail s' = mem_avail s"
    using cases il n by (auto simp: pool_pages_def cls_upd_cls)
  then show sp: "spare_regions st s' = spare_regions st s" and pl: "power_largest s' = power_largest s"
    and "mem_base s' = mem_base s"
    by (simp_all add: spare_regions_def)
  show "mem_malloced s' = mem_malloced s" "mem_limit s' = mem_limit s" using cases by auto
  show "chunk_region s' = chunk_region s" using cases by (auto simp: chunk_region_upd_cls)
  show "perslab (cls s' j) = perslab (cls s j)" "slabs_n (cls s' j) = slabs_n (cls s j)"
    using cases il by (auto simp: cls_upd_cls)
  show "grown \<Longrightarrow> slabs_n (cls s' i) < list_size (cls s' i)"
    using g il n by (auto simp: grow_slab_list_def Let_def cls_upd_cls split: if_splits)
  have pp: "pool_pages s' = pool_pages s" using cases il n by (auto simp: pool_pages_def cls_upd_cls)
  have "classes_ok st s'"
    using cases ok il n k unfolding classes_ok_def pp by (auto simp: cls_upd_cls)
  then show "slabs_rep st m s' F C"
    by (rule slabs_rep_pages(1) [OF rep])
      (use cases il pl sp slabs_repD(7) [OF rep] in \<open>auto simp: cls_upd_cls\<close>)
qed

lemma get_page_rep:
  assumes rep: "slabs_rep st m s F C" and g: "get_page_from_global_pool s = (p, s')"
  shows "slabs_rep st m s' F C" and "power_largest s' = power_largest s"
    and "p \<noteq> NULL \<Longrightarrow> free_page st s' C p (slab_page_size st)"
    and "p = NULL \<Longrightarrow> s' = s" and "i \<noteq> 0 \<Longrightarrow> cls s' i = cls s i"
    and "memory_of st s' C \<subseteq> memory_of st s C"
    and "p \<noteq> NULL \<Longrightarrow> region p (slab_page_size st) \<subseteq> memory_of st s C"
proof -
  let ?p = "cls s 0"
  note ok = slabs_repD(1) [OF rep]
  have il: "0 < length (slabclass s)" using classes_okD(1) [OF ok] by simp
  show o: "i \<noteq> 0 \<Longrightarrow> cls s' i = cls s i" for i
    using g il by (auto simp: get_page_from_global_pool_def Let_def cls_upd_cls split: if_splits)
  show pl: "power_largest s' = power_largest s"
    using g by (auto simp: get_page_from_global_pool_def Let_def split: if_splits)
  have all: "slabs_rep st m s' F C \<and> (p \<noteq> NULL \<longrightarrow> free_page st s' C p (slab_page_size st)) \<and>
      (p = NULL \<longrightarrow> s' = s) \<and> memory_of st s' C \<subseteq> memory_of st s C \<and>
      (p \<noteq> NULL \<longrightarrow> region p (slab_page_size st) \<subseteq> memory_of st s C)"
  proof (cases "slabs_n ?p = 0")
    case True
    then have "p = NULL" "s' = s" using g by (auto simp: get_page_from_global_pool_def Let_def)
    with rep show ?thesis by simp
  next
    case False
    then have p: "p = slab_list ?p ! (slabs_n ?p - 1)" "s' = upd_cls 0 (\<lambda>c. c\<lparr>slabs_n := slabs_n c - 1\<rparr>) s"
      using g by (auto simp: get_page_from_global_pool_def Let_def)
    have le: "slabs_n ?p \<le> length (slab_list ?p)" using classes_okD(6,7) [OF ok, of 0] by simp
    obtain n where n: "slabs_n ?p = Suc n" using False by (cases "slabs_n ?p") auto
    have pp: "pool_pages s = pool_pages s' @ [p]"
      using le n il p by (simp add: pool_pages_def cls_upd_cls take_Suc_conv_app_nth)
    have sp: "spare_regions st s = hd (spare_regions st s') # region p (slab_page_size st) # tl (spare_regions st s')"
      "spare_regions st s' = hd (spare_regions st s') # tl (spare_regions st s')"
      using p(2) by (simp_all add: spare_regions_def pp)
    have pn: "p \<noteq> NULL" using classes_okD(9) [OF ok] pp by auto
    have ok': "classes_ok st s'"
      using ok p(2) il pp by (auto simp: classes_ok_def cls_upd_cls)
    have pd: "pairwise_disjoint (spare_regions st s')" and dp: "\<forall>R\<in>set (spare_regions st s'). region p (slab_page_size st) \<inter> R = {}"
      using slabs_repD(7) [OF rep] sp
      by (metis (no_types) pairwise_disjoint.simps(2) list.set_intros set_ConsD Int_commute)+
    have sub: "R \<in> set (spare_regions st s') \<Longrightarrow> \<exists>R'\<in>set (spare_regions st s). R \<subseteq> R'" for R
      using sp by (metis list.set_intros set_ConsD subset_refl)
    have rep': "slabs_rep st m s' F C" and cr: "\<And>c. c \<in> C \<Longrightarrow> chunk_region s' c = chunk_region s c"
      using slabs_rep_pages [OF rep ok' pl _ pd sub] o by auto
    have inp: "region p (slab_page_size st) \<in> set (spare_regions st s)" using sp(1) by (metis list.set_intros)
    then have mem: "region p (slab_page_size st) \<subseteq> memory_of st s C" unfolding memory_of_def by blast
    have mono: "memory_of st s' C \<subseteq> memory_of st s C" by (rule memory_of_mono [OF cr sub])
    from inp have "chunk_region s c \<inter> region p (slab_page_size st) = {}" if "c \<in> C" for c
      using slabs_repD(8) [OF rep that] by simp
    then have "region p (slab_page_size st) \<inter> chunk_region s' c = {}" if "c \<in> C" for c
      using cr [OF that] that by (metis Int_commute)
    with pn dp have "free_page st s' C p (slab_page_size st)" unfolding free_page_def by blast
    with rep' pn mem mono show ?thesis by simp
  qed
  then show "slabs_rep st m s' F C" "p \<noteq> NULL \<Longrightarrow> free_page st s' C p (slab_page_size st)"
    "p = NULL \<Longrightarrow> s' = s" "memory_of st s' C \<subseteq> memory_of st s C"
    "p \<noteq> NULL \<Longrightarrow> region p (slab_page_size st) \<subseteq> memory_of st s C" by simp_all
qed

lemma align_chunk_ge: "n \<le> align_chunk n" "align_chunk n < n + 8"
  by (auto simp: align_chunk_def)

lemma unat_of_nat_small: "n < 2 ^ 64 \<Longrightarrow> unat (of_nat n :: u64) = n"
  by (simp add: unat_of_nat take_bit_nat_eq_self)

lemma region_subset: "q \<le> p \<Longrightarrow> p + n \<le> q + k \<Longrightarrow> region p n \<subseteq> region q k"
  by (auto simp: region_def)

lemma free_page_mono:
  "free_page st s C p n \<Longrightarrow> k \<le> n \<Longrightarrow> free_page st s C p k"
  using region_subset [of p p k n] by (fastforce simp: free_page_def)

lemma memory_allocate_rep:
  assumes rep: "slabs_rep st m s F C" and fresh: "malloc_fresh st env s C"
    and len: "len \<le> slab_page_size st" and g: "memory_allocate (malloc_ret env) len s = (p, s')"
  shows "slabs_rep st m s' F C" and "power_largest s' = power_largest s" and "slabclass s' = slabclass s"
    and "p \<noteq> NULL \<Longrightarrow> free_page st s' C p len"
    and "memory_of st s' C \<subseteq> memory_of st s C"
    and "p \<noteq> NULL \<Longrightarrow> region p len \<subseteq> memory_of st s C \<union> malloc_region st env"
proof -
  note ok = slabs_repD(1) [OF rep]
  have small: "slab_page_size st < 2 ^ 31" using classes_okD(8) [OF ok] .
  show pl: "power_largest s' = power_largest s" and sc: "slabclass s' = slabclass s"
    using g by (auto simp: memory_allocate_def Let_def split: if_splits)
  have pp: "pool_pages s' = pool_pages s" using sc by (simp add: pool_pages_def)
  let ?tail = "rev (map (\<lambda>g. region g (slab_page_size st)) (pool_pages s))"
  have cr: "chunk_region s' = chunk_region s" using sc by (intro ext) (simp add: chunk_region_def)
  have all: "slabs_rep st m s' F C \<and> (p \<noteq> NULL \<longrightarrow> free_page st s' C p len) \<and>
      memory_of st s' C \<subseteq> memory_of st s C \<and> (p \<noteq> NULL \<longrightarrow> region p len \<subseteq> memory_of st s C \<union> malloc_region st env)"
  proof (cases "mem_base s = NULL")
    case True
    then have s': "p = malloc_ret env" "s' = s\<lparr>mem_malloced := mem_malloced s + of_nat len\<rparr>"
      using g by (auto simp: memory_allocate_def)
    have sp: "spare_regions st s' = spare_regions st s" using s' pp by (simp add: spare_regions_def)
    have "classes_ok st s'" using ok pp sc s' by (simp add: classes_ok_def)
    then have "slabs_rep st m s' F C"
      by (rule slabs_rep_pages(1) [OF rep _ pl]) (use sc sp slabs_repD(7) [OF rep] in auto)
    moreover have "p \<noteq> NULL \<longrightarrow> free_page st s' C p len"
    proof
      assume pn: "p \<noteq> NULL"
      have mr: "malloc_region st env = region p (slab_page_size st)" using pn s'(1) by (simp add: malloc_region_def)
      have "region p (slab_page_size st) \<inter> R = {}" if "R \<in> chunk_region s' ` C \<union> set (spare_regions st s')" for R
        using fresh that s'(1) unfolding malloc_fresh_def memory_of_def mr sp cr by blast
      with pn have "free_page st s' C p (slab_page_size st)" unfolding free_page_def by blast
      then show "free_page st s' C p len" using len by (rule free_page_mono)
    qed
    moreover have "memory_of st s' C = memory_of st s C" by (simp add: memory_of_def cr sp)
    moreover have "region p len \<subseteq> malloc_region st env" if "p \<noteq> NULL"
      using s'(1) len that by (auto simp: malloc_region_def region_def)
    ultimately show ?thesis by auto
  next
    case False
    show ?thesis
    proof (cases "of_nat len > mem_avail s")
      case True
      with False g have "p = NULL" "s' = s" by (auto simp: memory_allocate_def)
      with rep show ?thesis by simp
    next
      case fits: False
      let ?n = "align_chunk len"
      have s': "p = mem_current s" "mem_base s' = mem_base s" "mem_current s' = mem_current s + ?n"
        "mem_avail s' = (if of_nat ?n < mem_avail s then mem_avail s - of_nat ?n else 0)"
        using g False fits by (auto simp: memory_allocate_def Let_def)
      have lenu: "unat (of_nat len :: u64) = len" "unat (of_nat ?n :: u64) = ?n"
        using len small align_chunk_ge(2) [of len] by (auto intro!: unat_of_nat_small)
      have le: "len \<le> unat (mem_avail s)" using fits lenu by (simp add: word_less_nat_alt not_less)
      have av: "unat (mem_avail s') = unat (mem_avail s) - ?n"
        using s'(4) lenu(2) by (auto simp: word_less_nat_alt unat_sub word_le_nat_alt)
      let ?R = "region (mem_current s) (unat (mem_avail s))" and ?R' = "region (mem_current s') (unat (mem_avail s'))"
      have sp: "spare_regions st s = ?R # ?tail" "spare_regions st s' = ?R' # ?tail"
        using False s'(2) pp by (simp_all add: spare_regions_def)
      have R': "?R' \<subseteq> ?R" and pR: "region p len \<subseteq> ?R" "region p len \<inter> ?R' = {}"
        using s'(1,3) av le align_chunk_ge(1) [of len] by (auto simp: region_def)
      have pd: "pairwise_disjoint (?R # ?tail)" using slabs_repD(7) [OF rep] sp by simp
      have pd': "pairwise_disjoint (spare_regions st s')"
        unfolding sp(2) pairwise_disjoint.simps(2) using pd R' by (metis disjoint_iff pairwise_disjoint.simps(2) subsetD)
      have "classes_ok st s'" using ok pp sc pl s' False by (auto simp: classes_ok_def)
      then have rep': "slabs_rep st m s' F C"
        by (rule slabs_rep_pages(1) [OF rep _ pl]) (use sc sp R' pd' in auto)
      have dC: "chunk_region s c \<inter> ?R = {}" if "c \<in> C" for c
        using slabs_repD(8) [OF rep that, of ?R] sp(1) by simp
      have "region p len \<inter> R = {}" if "R \<in> chunk_region s' ` C \<union> set (spare_regions st s')" for R
      proof -
        have dT: "?R \<inter> S = {}" if "S \<in> set ?tail" for S using pd that by (simp only: pairwise_disjoint.simps(2))
        from that consider c where "c \<in> C" "R = chunk_region s c" | "R = ?R'" | "R \<in> set ?tail"
          unfolding sp(2) cr list.set(2) by blast
        then show ?thesis
        proof cases
          case 1
          then show ?thesis using dC [OF 1(1)] pR(1) by blast
        next
          case 2
          then show ?thesis using pR(2) by simp
        next
          case 3
          then show ?thesis using dT [OF 3] pR(1) by blast
        qed
      qed
      then have "free_page st s' C p len" using classes_okD(10) [OF ok] False s'(1) by (simp add: free_page_def)
      moreover have "memory_of st s' C \<subseteq> memory_of st s C"
        by (rule memory_of_mono) (use cr sp R' in auto)
      moreover have "region p len \<subseteq> memory_of st s C"
        using pR(1) unfolding memory_of_def sp(1) list.set(2) by blast
      ultimately show ?thesis using rep' by auto
    qed
  qed
  then show "slabs_rep st m s' F C" "p \<noteq> NULL \<Longrightarrow> free_page st s' C p len"
    "memory_of st s' C \<subseteq> memory_of st s C"
    "p \<noteq> NULL \<Longrightarrow> region p len \<subseteq> memory_of st s C \<union> malloc_region st env" by simp_all
qed

section \<open>Carving a page into chunks\<close>

lemma wipe_apply: "q \<in> region p len \<Longrightarrow> wipe p len m q = zero_item" "q \<notin> region p len \<Longrightarrow> wipe p len m q = m q"
  by (auto simp: wipe_def region_def)

definition page_chunks :: "nat \<Rightarrow> nat \<Rightarrow> ptr \<Rightarrow> ptr list" where
  "page_chunks sz n p = map (\<lambda>k. p + k * sz) [0..<n]"

lemma page_chunks_Suc: "page_chunks sz (Suc n) p = p # page_chunks sz n (p + sz)"
proof -
  have "[0..<Suc n] = 0 # map Suc [0..<n]" by (simp only: map_Suc_upt upt_conv_Cons zero_less_Suc)
  then show ?thesis by (simp add: page_chunks_def del: upt_Suc)
qed

lemma page_chunks_region:
  assumes "q \<in> set (page_chunks sz n p)" shows "region q sz \<subseteq> region p (n * sz)"
proof -
  obtain k where k: "k < n" "q = p + k * sz" using assms by (auto simp: page_chunks_def)
  then have "Suc k * sz \<le> n * sz" by (intro mult_le_mono1) simp
  with k show ?thesis by (intro region_subset) auto
qed

lemma page_chunks_disjoint:
  assumes "q \<in> set (page_chunks sz n p)" "r \<in> set (page_chunks sz n p)" "q \<noteq> r"
  shows "region q sz \<inter> region r sz = {}"
proof -
  have "region (p + j * sz) sz \<inter> region (p + k * sz) sz = {}" if "j < k" for j k
  proof -
    have "Suc j * sz \<le> k * sz" using that by (intro mult_le_mono1) simp
    then show ?thesis by (auto simp: region_def)
  qed
  moreover obtain j k where "q = p + j * sz" "r = p + k * sz" using assms by (auto simp: page_chunks_def)
  ultimately show ?thesis using assms(3) by (metis Int_commute nat_neq_iff)
qed

text \<open>The chunks of a free page become used chunks of the class, before they are freed.\<close>

lemma carve_rep:
  assumes rep: "slabs_rep st m s F C" and fp: "free_page st s C p len" and i: "i \<in> {1..power_largest s}"
    and len: "perslab (cls s i) * sc_size (cls s i) \<le> len"
  defines "N \<equiv> (\<lambda>q. (q, i)) ` set (page_chunks (sc_size (cls s i)) (perslab (cls s i)) p)"
  shows "slabs_rep st (wipe p len m) s F (C \<union> N)" and "used F (C \<union> N) = used F C \<union> N"
    and "c \<in> N \<Longrightarrow> chunk_region s c \<subseteq> region p len"
proof -
  let ?sz = "sc_size (cls s i)" and ?n = "perslab (cls s i)"
  have big: "region p (?n * ?sz) \<subseteq> region p len" using len by (auto simp: region_def)
  have NR: "chunk_region s c \<subseteq> region p len" if "c \<in> N" for c
  proof -
    obtain a where "c = (a, i)" "a \<in> set (page_chunks ?sz ?n p)" using \<open>c \<in> N\<close> by (auto simp: N_def)
    then show ?thesis using page_chunks_region [of a ?sz ?n p] big by (simp add: chunk_region_def)
  qed
  then show "c \<in> N \<Longrightarrow> chunk_region s c \<subseteq> region p len" .
  have sz: "0 < ?sz" using classes_okD(4) [OF slabs_repD(1) [OF rep] i] .
  have st: "fst c \<in> chunk_region s c" if "c \<in> N" for c
    using that sz by (auto simp: N_def chunk_region_def region_def)
  have fpC: "region p len \<inter> chunk_region s c = {}" if "c \<in> C" for c
    using fp imageI [OF that, of "chunk_region s"] by (simp add: free_page_def)
  have fpS: "region p len \<inter> R = {}" if "R \<in> set (spare_regions st s)" for R
    using fp that by (simp add: free_page_def)
  have CN: "chunk_region s c \<inter> chunk_region s d = {}" if "c \<in> C" "d \<in> N" for c d
    using fpC [OF that(1)] NR [OF that(2)] by blast
  have NN: "chunk_region s c \<inter> chunk_region s d = {}" if "c \<in> N" "d \<in> N" "c \<noteq> d" for c d
  proof -
    obtain a b where "c = (a, i)" "d = (b, i)" "a \<in> set (page_chunks ?sz ?n p)" "b \<in> set (page_chunks ?sz ?n p)"
      using \<open>c \<in> N\<close> \<open>d \<in> N\<close> by (auto simp: N_def)
    then show ?thesis using page_chunks_disjoint [of a ?sz ?n p b] \<open>c \<noteq> d\<close> by (simp add: chunk_region_def)
  qed
  have dj: "disjoint_family_on (chunk_region s) (C \<union> N)"
    unfolding disjoint_family_on_def
  proof (intro ballI impI)
    fix c d
    assume "c \<in> C \<union> N" "d \<in> C \<union> N" "c \<noteq> d"
    then show "chunk_region s c \<inter> chunk_region s d = {}"
      using slabs_repD(6) [OF rep] CN [of c d] CN [of d c] NN [of c d]
      by (elim UnE) (simp_all add: disjoint_family_on_def Int_commute)
  qed
  have sp: "chunk_region s c \<inter> R = {}" if "c \<in> C \<union> N" "R \<in> set (spare_regions st s)" for c R
    using that(1)
  proof
    assume "c \<in> C"
    then show ?thesis using slabs_repD(8) [OF rep _ that(2)] by simp
  next
    assume "c \<in> N"
    then show ?thesis using NR [of c] fpS [OF that(2)] by blast
  qed
  have FC: "q \<notin> region p len" if "j \<in> {1..power_largest s}" "q \<in> set (F j)" for j q
  proof -
    have qj: "(q, j) \<in> C" using slabs_repD(3) [OF rep that] .
    show ?thesis using chunk_start [OF rep qj] fpC [OF qj] by auto
  qed
  have rep1: "slabs_rep st (wipe p len m) s F C"
    by (rule slabs_rep_frame [OF rep]) (use FC in \<open>simp add: wipe_apply\<close>)
  have nn: "fst c \<noteq> NULL" "snd c = i" if "c \<in> N" for c
    using fp that by (auto simp: N_def free_page_def page_chunks_def)
  show "slabs_rep st (wipe p len m) s F (C \<union> N)"
  proof -
    have "\<forall>j\<in>{1..power_largest s}. free_ok (wipe p len m) (cls s j) j (F j) \<and> (\<forall>q\<in>set (F j). (q, j) \<in> C \<union> N)"
      using slabs_repD(2,3) [OF rep1] by blast
    moreover have "\<forall>c\<in>C \<union> N. fst c \<noteq> NULL \<and> snd c \<in> {1..power_largest s}"
      using slabs_repD(4,5) [OF rep] nn i by blast
    ultimately show ?thesis unfolding slabs_rep_def using slabs_repD(1,7) [OF rep] dj sp by simp
  qed
  show "used F (C \<union> N) = used F C \<union> N"
  proof -
    have "fst c \<notin> set (F (snd c))" if "c \<in> N" for c
      using FC [of "snd c" "fst c"] i nn(2) [OF that] NR [OF that] st [OF that] by auto
    then show ?thesis by (auto simp: used_def)
  qed
qed

lemma split_slab_page_rep:
  assumes "slabs_rep st m s F C" "\<forall>q\<in>set (page_chunks (sc_size (cls s i)) n p). (q, i) \<in> used F C \<and> \<not> has_flag ITEM_CHUNKED (m q)"
    "0 < sc_size (cls s i)"
  shows "\<exists>m' s'. split_slab_page_loop n p i m s = Some (m', s') \<and>
           slabs_rep st m' s' (F(i := rev (page_chunks (sc_size (cls s i)) n p) @ F i)) C \<and> slab_frame s s' \<and>
           (\<forall>q\<in>unlisted s F - set (page_chunks (sc_size (cls s i)) n p). m' q = m q)"
  using assms
proof (induction n arbitrary: p m s F)
  case 0
  then show ?case by (simp add: page_chunks_def)
next
  case (Suc n)
  let ?sz = "sc_size (cls s i)"
  let ?F = "F(i := p # F i)"
  note rep = Suc.prems(1)
  have u: "(p, i) \<in> used F C" and nc: "\<not> has_flag ITEM_CHUNKED (m p)"
    and rest: "\<And>q. q \<in> set (page_chunks ?sz n (p + ?sz)) \<Longrightarrow> (q, i) \<in> used F C \<and> \<not> has_flag ITEM_CHUNKED (m q)"
    using Suc.prems(2) by (auto simp: page_chunks_Suc)
  obtain m1 s1 where f: "do_slabs_free p i m s = Some (m1, s1)" "slabs_rep st m1 s1 ?F C" "slab_frame s s1"
      "\<forall>q\<in>unlisted s F. q \<noteq> p \<longrightarrow> m1 q = m q"
    using do_slabs_free_plain [OF rep u nc] by blast
  have sz: "sc_size (cls s1 i) = ?sz" and pl: "power_largest s1 = power_largest s" using f(3) by (auto simp: slab_frame_def)
  have np: "p \<notin> set (page_chunks ?sz n (p + ?sz))" using Suc.prems(3) by (auto simp: page_chunks_def)
  have rest1: "\<forall>q\<in>set (page_chunks ?sz n (p + ?sz)). (q, i) \<in> used ?F C \<and> \<not> has_flag ITEM_CHUNKED (m1 q)"
  proof
    fix q
    assume that: "q \<in> set (page_chunks ?sz n (p + ?sz))"
    have "q \<noteq> p" using np that by auto
    moreover have "q \<in> unlisted s F"
      using used_unlisted [OF rep, of "(q, i)" q] rest [OF that] chunk_start [OF rep, of "(q, i)"] by (auto simp: used_def)
    ultimately show "(q, i) \<in> used ?F C \<and> \<not> has_flag ITEM_CHUNKED (m1 q)"
      using rest [OF that] f(4) by (auto simp: used_push)
  qed
  from Suc.IH [where p = "p + ?sz", OF f(2), unfolded sz, OF rest1 Suc.prems(3)] obtain m' s' where
    IH: "split_slab_page_loop n (p + ?sz) i m1 s1 = Some (m', s')"
      "slabs_rep st m' s' (?F(i := rev (page_chunks ?sz n (p + ?sz)) @ ?F i)) C" "slab_frame s1 s'"
      "\<forall>q\<in>unlisted s1 ?F - set (page_chunks ?sz n (p + ?sz)). m' q = m1 q"
    by (elim exE conjE) (rule that)
  have keep: "m' q = m q" if "q \<in> unlisted s F - set (page_chunks ?sz (Suc n) p)" for q
  proof -
    have "q \<in> unlisted s1 ?F - set (page_chunks ?sz n (p + ?sz))" "q \<in> unlisted s F" "q \<noteq> p"
      using that pl by (auto simp: page_chunks_Suc unlisted_def)
    then show ?thesis using IH(4) f(4) by simp
  qed
  have run: "split_slab_page_loop (Suc n) p i m s = Some (m', s')" using IH(1) f(1) sz by simp
  have rep': "slabs_rep st m' s' (F(i := rev (page_chunks ?sz (Suc n) p) @ F i)) C"
    using IH(2) by (simp add: page_chunks_Suc)
  show ?case
    by (intro exI conjI ballI) (rule run, rule rep', rule slab_frame_trans [OF f(3) IH(3)], rule keep)
qed

section \<open>A new page\<close>

lemma slab_page_len_bounds:
  assumes "classes_ok st s" "i \<in> {1..power_largest s}"
  shows "perslab (cls s i) * sc_size (cls s i) \<le> slab_page_len st s i" "slab_page_len st s i \<le> slab_page_size st"
  using classes_okD(5) [OF assms] by (auto simp: slab_page_len_def mult.commute)

lemma add_page_rep:
  assumes rep: "slabs_rep st m s F C" and i: "i \<in> {1..power_largest s}"
    and room: "slabs_n (cls s i) < list_size (cls s i)"
  shows "slabs_rep st m (add_page i p s) F C" and "chunk_region (add_page i p s) = chunk_region s"
    and "power_largest (add_page i p s) = power_largest s"
proof -
  note ok = slabs_repD(1) [OF rep]
  have il: "i < length (slabclass s)" using classes_okD(1,3) [OF ok] i by simp
  have i0: "i \<noteq> 0" using i by simp
  show cr: "chunk_region (add_page i p s) = chunk_region s" unfolding add_page_def
    by (rule chunk_region_upd_cls) simp
  show "power_largest (add_page i p s) = power_largest s" by (simp add: add_page_def)
  have "classes_ok st (add_page i p s)"
    using ok il room by (auto simp: classes_ok_def add_page_def cls_upd_cls pool_pages_upd_cls i0)
  then show "slabs_rep st m (add_page i p s) F C"
    by (rule slabs_rep_pages(1) [OF rep])
      (use slabs_repD(7) [OF rep] i0 il in \<open>auto simp: add_page_def cls_upd_cls\<close>)
qed

text \<open>Addresses the allocator leaves alone while it looks for memory: those of used chunks and those it does not own.\<close>

definition client_area :: "settings \<Rightarrow> slabs \<Rightarrow> (nat \<Rightarrow> ptr list) \<Rightarrow> (ptr \<times> nat) set \<Rightarrow> ptr set \<Rightarrow> ptr set" where
  "client_area st s F C M = {q. \<exists>c\<in>used F C. q \<in> chunk_region s c} \<union> {q. q \<noteq> NULL \<and> q \<notin> memory_of st s C \<union> M}"

lemma client_area_unlisted:
  assumes rep: "slabs_rep st m s F C" and q: "q \<in> client_area st s F C M"
  shows "q \<in> unlisted s F"
proof -
  have "q \<in> unlisted s F" if n: "q \<noteq> NULL" "q \<notin> memory_of st s C"
  proof -
    have "q \<notin> set (F i)" if i: "i \<in> {1..power_largest s}" for i
    proof
      assume "q \<in> set (F i)"
      then have "(q, i) \<in> C" using slabs_repD(3) [OF rep i] by simp
      then show False using chunk_start [OF rep, of "(q, i)"] n(2) by (auto simp: memory_of_def)
    qed
    then show ?thesis using n(1) by (simp add: unlisted_def)
  qed
  then show ?thesis using q used_unlisted [OF rep] by (auto simp: client_area_def)
qed

lemma client_area_mono:
  assumes "used F' C' = used F C" "chunk_region s' = chunk_region s"
    and "memory_of st s' C' \<union> M' \<subseteq> memory_of st s C \<union> M"
  shows "client_area st s F C M \<subseteq> client_area st s' F' C' M'"
  using assms unfolding client_area_def by auto

text \<open>The result of \<open>do_slabs_newslab\<close>: the free list of the class may have grown at the front, nothing in use is touched.\<close>

definition grown_by :: "settings \<Rightarrow> heap \<Rightarrow> slabs \<Rightarrow> (nat \<Rightarrow> ptr list) \<Rightarrow> (ptr \<times> nat) set \<Rightarrow> ptr set \<Rightarrow> nat \<Rightarrow> ptr list \<Rightarrow> heap \<Rightarrow> slabs \<Rightarrow> bool" where
  "grown_by st m s F C M i xs m' s' \<longleftrightarrow>
     (\<exists>C'. slabs_rep st m' s' (F(i := xs @ F i)) C' \<and> used (F(i := xs @ F i)) C' = used F C \<and>
           memory_of st s' C' \<subseteq> memory_of st s C \<union> M) \<and>
     power_largest s' = power_largest s \<and> (\<forall>j. sc_size (cls s' j) = sc_size (cls s j)) \<and>
     (\<forall>q\<in>client_area st s F C M. m' q = m q)"

lemma grown_byI:
  "slabs_rep st m' s' (F(i := xs @ F i)) C' \<Longrightarrow> used (F(i := xs @ F i)) C' = used F C \<Longrightarrow>
   power_largest s' = power_largest s \<Longrightarrow> (\<And>j. sc_size (cls s' j) = sc_size (cls s j)) \<Longrightarrow>
   (\<And>q. q \<in> client_area st s F C M \<Longrightarrow> m' q = m q) \<Longrightarrow>
   memory_of st s' C' \<subseteq> memory_of st s C \<union> M \<Longrightarrow> grown_by st m s F C M i xs m' s'"
  unfolding grown_by_def by blast

lemma memory_of_limit_reached [simp]: "memory_of st (s\<lparr>mem_limit_reached := b\<rparr>) C = memory_of st s C"
  by (simp add: memory_of_def chunk_region_def spare_regions_def pool_pages_def)

lemma grown_by_weaken:
  assumes "grown_by st m s F C M i xs m' s'" and "memory_of st s C \<union> M \<subseteq> memory_of st s0 C \<union> M'"
    and "power_largest s = power_largest s0" and sz: "\<And>j. sc_size (cls s j) = sc_size (cls s0 j)"
  shows "grown_by st m s0 F C M' i xs m' s'"
proof -
  have "chunk_region s = chunk_region s0" by (rule ext) (simp add: chunk_region_def sz)
  from client_area_mono [OF refl this assms(2)] have "client_area st s0 F C M' \<subseteq> client_area st s F C M" .
  moreover from assms(1) obtain C' where C': "slabs_rep st m' s' (F(i := xs @ F i)) C'"
    "used (F(i := xs @ F i)) C' = used F C" "memory_of st s' C' \<subseteq> memory_of st s C \<union> M"
    unfolding grown_by_def by (elim conjE exE)
  ultimately show ?thesis
    using assms(1,3) sz subset_trans [OF C'(3) assms(2)] unfolding grown_by_def
    by (intro grown_byI [OF C'(1,2), unfolded grown_by_def]) (simp_all add: subset_iff)
qed

lemma slabs_rep_limit_reached [simp]:
  "slabs_rep st m (s\<lparr>mem_limit_reached := b\<rparr>) F C = slabs_rep st m s F C"
proof -
  have "spare_regions st (s\<lparr>mem_limit_reached := b\<rparr>) = spare_regions st s"
    "chunk_region (s\<lparr>mem_limit_reached := b\<rparr>) = chunk_region s"
    "classes_ok st (s\<lparr>mem_limit_reached := b\<rparr>) = classes_ok st s"
    by (simp_all add: spare_regions_def pool_pages_def chunk_region_def classes_ok_def fun_eq_iff)
  then show ?thesis by (simp add: slabs_rep_def)
qed

lemma grown_by_none:
  assumes "slabs_rep st m s' F C" "power_largest s' = power_largest s" "\<And>j. sc_size (cls s' j) = sc_size (cls s j)"
    "memory_of st s' C \<subseteq> memory_of st s C"
  shows "grown_by st m s F C M i [] m s'"
  using assms unfolding grown_by_def by auto

lemma split_page_grown:
  assumes rep: "slabs_rep st m s F C" and fp: "free_page st s C p len" and i: "i \<in> {1..power_largest s}"
    and len: "perslab (cls s i) * sc_size (cls s i) \<le> len"
    and room: "slabs_n (cls s i) < list_size (cls s i)"
  shows "\<exists>m' s'. split_slab_page_into_freelist p i (wipe p len m) s = Some (m', s') \<and>
           grown_by st m s F C (region p len) i (rev (page_chunks (sc_size (cls s i)) (perslab (cls s i)) p)) m' (add_page i p s')"
proof -
  let ?xs = "page_chunks (sc_size (cls s i)) (perslab (cls s i)) p"
  let ?N = "(\<lambda>q. (q, i)) ` set ?xs" and ?F = "F(i := rev ?xs @ F i)"
  have sz: "0 < sc_size (cls s i)" using classes_okD(4) [OF slabs_repD(1) [OF rep] i] .
  note cr = carve_rep [OF rep fp i len]
  have inp: "q \<in> region p len" if "q \<in> set ?xs" for q
    using cr(3) [of "(q, i)"] that sz by (auto simp: chunk_region_def region_def)
  have "\<forall>q\<in>set ?xs. (q, i) \<in> used F (C \<union> ?N) \<and> \<not> has_flag ITEM_CHUNKED (wipe p len m q)"
    using cr(2) inp by (auto simp: wipe_apply zero_item_def has_flag_def)
  from split_slab_page_rep [OF cr(1) this sz] obtain m' s' where
    sp: "split_slab_page_into_freelist p i (wipe p len m) s = Some (m', s')"
      "slabs_rep st m' s' ?F (C \<union> ?N)" "slab_frame s s'"
      "\<forall>q\<in>unlisted s F - set ?xs. m' q = wipe p len m q"
    unfolding split_slab_page_into_freelist_def by blast
  have room': "slabs_n (cls s' i) < list_size (cls s' i)" and pl: "power_largest s' = power_largest s"
    and szs: "\<And>j. sc_size (cls s' j) = sc_size (cls s j)"
    using sp(3) room by (auto simp: slab_frame_def)
  have i': "i \<in> {1..power_largest s'}" using i pl by simp
  note ap = add_page_rep [OF sp(2) i' room']
  have us: "used ?F (C \<union> ?N) = used F C"
  proof -
    have "used ?F (C \<union> ?N) = used F (C \<union> ?N) - ?N" by (auto simp: used_def)
    moreover have "used F C \<inter> ?N = {}"
    proof -
      have "c \<notin> ?N" if "c \<in> used F C" for c
      proof
        assume "c \<in> ?N"
        then have "fst c \<in> region p len" using inp by auto
        moreover have cC: "c \<in> C" using that by (simp add: used_def)
        moreover have "fst c \<in> chunk_region s c" using chunk_start [OF rep cC] .
        ultimately show False using fp by (auto simp: free_page_def)
      qed
      then show ?thesis by blast
    qed
    ultimately show ?thesis using cr(2) by blast
  qed
  have keep: "m' q = m q" if q: "q \<in> client_area st s F C (region p len)" for q
  proof -
    have out: "q \<notin> region p len" using fp q by (auto simp: free_page_def client_area_def used_def)
    moreover have "q \<in> unlisted s F" using client_area_unlisted [OF rep q] .
    ultimately have "q \<in> unlisted s F - set ?xs" using inp by blast
    then show ?thesis using sp(4) out by (simp add: wipe_apply)
  qed
  have sza: "sc_size (cls (add_page i p s') j) = sc_size (cls s j)" for j
    unfolding add_page_def by (subst sc_size_upd_cls) (simp_all add: szs)
  have cr': "chunk_region (add_page i p s') = chunk_region s"
    by (rule ext) (simp add: chunk_region_def sza)
  have "spare_regions st (add_page i p s') = spare_regions st s"
    using sp(3) i by (simp add: add_page_def) (simp add: spare_regions_def pool_pages_def slab_frame_def)
  then have mem: "memory_of st (add_page i p s') (C \<union> ?N) \<subseteq> memory_of st s C \<union> region p len"
    using cr(3) unfolding memory_of_def cr' by auto
  have "grown_by st m s F C (region p len) i (rev ?xs) m' (add_page i p s')"
    by (rule grown_byI [OF ap(1) us _ sza keep mem]) (simp add: ap(3) pl)
  then show ?thesis using sp(1) by blast
qed

lemma do_slabs_newslab_rep:
  assumes rep: "slabs_rep st m s F C" and fresh: "malloc_fresh st env s C" and i: "i \<in> {1..power_largest s}"
  shows "\<exists>ok m' s' xs. do_slabs_newslab st env i m s = Some (ok, m', s') \<and> grown_by st m s F C (malloc_region st env) i xs m' s'"
proof -
  let ?len = "slab_page_len st s i"
  note ok = slabs_repD(1) [OF rep]
  obtain grown s1 where g: "grow_slab_list (realloc_ok env) i s = (grown, s1)" by fastforce
  have ile: "i \<le> power_largest s" using i by simp
  note gr = grow_slab_list_rep [OF rep ile g]
  obtain p0 s2 where g2: "get_page_from_global_pool s1 = (p0, s2)" by fastforce
  note gp = get_page_rep [OF gr(1) g2]
  obtain p s3 where g3: "(if p0 \<noteq> NULL then (p0, s2) else memory_allocate (malloc_ret env) ?len s2) = (p, s3)" by fastforce
  have sz1: "sc_size (cls s1 j) = sc_size (cls s j)" for j
    using g by (auto simp: grow_slab_list_def Let_def sc_size_upd_cls split: if_splits)
  have fresh2: "malloc_fresh st env s2 C" if "p0 = NULL"
    using fresh gp(4) [OF that] gr(2,3) by (simp add: malloc_fresh_def memory_of_def)
  have mem1: "memory_of st s1 C = memory_of st s C" using gr(2,3) by (simp add: memory_of_def)
  note lb = slab_page_len_bounds [OF ok i]
  have sc3: "slabclass s3 = slabclass s2"
    using g3 by (auto simp: memory_allocate_def Let_def split: if_splits)
  have page: "slabs_rep st m s3 F C \<and> power_largest s3 = power_largest s2 \<and> (p \<noteq> NULL \<longrightarrow> free_page st s3 C p ?len) \<and>
      memory_of st s3 C \<subseteq> memory_of st s C \<and> (p \<noteq> NULL \<longrightarrow> region p ?len \<subseteq> memory_of st s C \<union> malloc_region st env)"
  proof (cases "p0 = NULL")
    case True
    then have "memory_allocate (malloc_ret env) ?len s2 = (p, s3)" using g3 by simp
    from memory_allocate_rep [OF gp(1) fresh2 [OF True] lb(2) this] show ?thesis using gp(6) mem1 by blast
  next
    case False
    then have "p = p0" "s3 = s2" using g3 by auto
    moreover have "region p0 ?len \<subseteq> region p0 (slab_page_size st)" using lb(2) by (auto simp: region_def)
    ultimately show ?thesis using False gp(1,3,6,7) free_page_mono [OF _ lb(2)] mem1 by blast
  qed
  have cls3: "cls s3 i = cls s1 i" using gp(5) [of i] i sc3 by simp
  have sz3: "sc_size (cls s3 j) = sc_size (cls s j)" for j
    using sc3 g2 sz1 by (auto simp: get_page_from_global_pool_def Let_def sc_size_upd_cls split: if_splits)
  have pl3: "power_largest s3 = power_largest s" using page gp(2) gr(4) by simp
  have full: "grown_by st m s F C (malloc_region st env) i [] m (s\<lparr>mem_limit_reached := True\<rparr>)"
    by (rule grown_by_none) (use rep in \<open>simp_all\<close>)
  show ?thesis
  proof (cases "grown \<and> p \<noteq> NULL")
    case True
    have "\<exists>m' s'. split_slab_page_into_freelist p i (wipe p ?len m) s3 = Some (m', s') \<and>
        grown_by st m s3 F C (region p ?len) i (rev (page_chunks (sc_size (cls s3 i)) (perslab (cls s3 i)) p)) m' (add_page i p s')"
      using split_page_grown [of st m s3 F C p ?len i] page True i pl3 gr(5,7) cls3 lb(1) sz1 by simp
    then obtain m' s' xs where sp: "split_slab_page_into_freelist p i (wipe p ?len m) s3 = Some (m', s')"
      "grown_by st m s3 F C (region p ?len) i xs m' (add_page i p s')" by blast
    have "grown_by st m s F C (malloc_region st env) i xs m' (add_page i p s')"
      by (rule grown_by_weaken [OF sp(2) _ pl3 sz3]) (use page True in blast)
    moreover have "mem_limit s \<noteq> 0 \<and> mem_malloced s + of_nat ?len > mem_limit s \<and> slabs_n (cls s i) > 0 \<and>
        slabs_n (cls s 0) = 0 \<or> do_slabs_newslab st env i m s = Some (True, m', add_page i p s')"
      using g g2 g3 sp(1) True by (auto simp: do_slabs_newslab_def Let_def)
    ultimately show ?thesis using full by (auto simp: do_slabs_newslab_def Let_def)
  next
    case False
    have n1: "grown_by st m s F C (malloc_region st env) i [] m s1" by (rule grown_by_none [OF gr(1) gr(4) sz1]) (simp add: mem1)
    have n3: "grown_by st m s F C (malloc_region st env) i [] m s3" using grown_by_none [of st m s3 F C s] page pl3 sz3 by blast
    have "do_slabs_newslab st env i m s \<in>
        {Some (False, m, s\<lparr>mem_limit_reached := True\<rparr>), Some (False, m, s1), Some (False, m, s3)}"
      using False g g2 g3 by (auto simp: do_slabs_newslab_def Let_def)
    then show ?thesis using full n1 n3 by blast
  qed
qed

end
