(* ===== verification/Slab_Safety.thy ===== *)
theory Slab_Safety
  imports Slab_Laws
begin

text \<open>
  Memory safety of the slab allocator over whole executions: allocations, frees and the
  client's own writes in any order. \<open>slab_reach\<close> collects the states they lead to, with the set
  of chunks handed out and the memory ever returned by \<open>malloc\<close>. The theory also has the
  facts about the class table: what \<open>slabs_init\<close> builds and what \<open>slabs_clsid\<close> picks from it.
\<close>

section \<open>Executions\<close>

inductive slab_reach :: "settings \<Rightarrow> slabs \<Rightarrow> heap \<Rightarrow> slabs \<Rightarrow> (ptr \<times> nat) set \<Rightarrow> ptr set \<Rightarrow> bool"
  for st :: settings and s0 :: slabs where
  init: "slab_reach st s0 m s0 {} {}"
| alloc: "slab_reach st s0 m s U A \<Longrightarrow> malloc_region st env \<inter> A = {} \<Longrightarrow>
    do_slabs_alloc st env sz i fl m s = Some (r, m', s') \<Longrightarrow>
    slab_reach st s0 m' s' (if r = NULL then U else insert (r, i) U) (A \<union> malloc_region st env)"
| free: "slab_reach st s0 m s U A \<Longrightarrow> (p, i) \<in> U \<Longrightarrow> \<not> has_flag ITEM_CHUNKED (m p) \<Longrightarrow>
    do_slabs_free p i m s = Some (m', s') \<Longrightarrow> slab_reach st s0 m' s' (U - {(p, i)}) A"
| free_chunked: "slab_reach st s0 m s U A \<Longrightarrow> chunked_item m s U it i cs \<Longrightarrow>
    do_slabs_free it i m s = Some (m', s') \<Longrightarrow> slab_reach st s0 m' s' (U - chunks_of m it i cs) A"
| client_write: "slab_reach st s0 m s U A \<Longrightarrow>
    (\<And>q. m' q \<noteq> m q \<Longrightarrow> \<exists>c\<in>U. q \<in> chunk_region s c) \<Longrightarrow> slab_reach st s0 m' s U A"

section \<open>Allocation\<close>

definition alloc_outcome :: "settings \<Rightarrow> heap \<Rightarrow> slabs \<Rightarrow> (nat \<Rightarrow> ptr list) \<Rightarrow> (ptr \<times> nat) set \<Rightarrow> ptr set \<Rightarrow>
    nat \<Rightarrow> ptr \<Rightarrow> heap \<Rightarrow> slabs \<Rightarrow> (nat \<Rightarrow> ptr list) \<Rightarrow> (ptr \<times> nat) set \<Rightarrow> bool" where
  "alloc_outcome st m s F C M i r m' s' F' C' \<longleftrightarrow> slabs_rep st m' s' F' C' \<and>
     used F' C' = (if r = NULL then used F C else insert (r, i) (used F C)) \<and>
     (r \<noteq> NULL \<longrightarrow> (r, i) \<notin> used F C \<and> it_flags (m' r) = 0 \<and> refcount (m' r) = 1 \<and> slabs_clsid (m' r) = of_nat i) \<and>
     power_largest s' = power_largest s \<and> (\<forall>j. sc_size (cls s' j) = sc_size (cls s j)) \<and>
     (\<forall>q\<in>client_area st s F C M. m' q = m q) \<and>
     memory_of st s' C' \<subseteq> memory_of st s C \<union> M"

lemma grown_by_refl: "slabs_rep st m s F C \<Longrightarrow> grown_by st m s F C M i [] m s"
  by (rule grown_by_none) simp_all

text \<open>The second half of \<open>do_slabs_alloc\<close>, on the state a possible new page leaves.\<close>

lemma alloc_from_list:
  assumes g: "grown_by st m s F C M i xs m1 s1" and i: "i \<in> {1..power_largest s}"
    and it: "it = slots (cls s1 i)" and n: "n = it_next (m1 it)"
    and m2: "m2 = (if n \<noteq> NULL then hupd n (it_prev_update (\<lambda>_. NULL)) m1 else m1)"
    and m3: "m3 = hupd it (\<lambda>x. (clear_flag ITEM_SLABBED x)\<lparr>refcount := 1\<rparr>) m2"
    and ne: "sl_curr (cls s1 i) \<noteq> 0"
  shows "\<exists>F' C'. alloc_outcome st m s F C M i it m3 (upd_cls i (\<lambda>c. c\<lparr>slots := n, sl_curr := sl_curr c - 1\<rparr>) s1) F' C'
           \<and> it \<noteq> NULL \<and> it = hd (xs @ F i)"
proof -
  let ?F = "F(i := xs @ F i)" and ?s = "upd_cls i (\<lambda>c. c\<lparr>slots := n, sl_curr := sl_curr c - 1\<rparr>) s1"
  from g obtain C' where rep: "slabs_rep st m1 s1 ?F C'" and us: "used ?F C' = used F C"
    and mem: "memory_of st s1 C' \<subseteq> memory_of st s C \<union> M"
    and pl: "power_largest s1 = power_largest s" and sz: "\<And>j. sc_size (cls s1 j) = sc_size (cls s j)"
    and keep: "\<And>q. q \<in> client_area st s F C M \<Longrightarrow> m1 q = m q"
    unfolding grown_by_def by (elim conjE exE) metis
  have i1: "i \<in> {1..power_largest s1}" using i pl by simp
  have fo: "free_ok m1 (cls s1 i) i (?F i)" by (rule slabs_repD(2) [OF rep i1])
  then have "?F i \<noteq> []" using ne by (auto simp: free_ok_def)
  then obtain a ys where F: "?F i = a # ys" by (cases "?F i") auto
  note pop = pop_rep [OF rep i1 F]
  have ait: "a = it" using pop(2) it by simp
  have rep3: "slabs_rep st m3 ?s (?F(i := ys)) C'" using pop(1) unfolding ait m3 m2 n .
  have aF: "it \<in> set (?F i)" unfolding F using ait by simp
  have aC: "(it, i) \<in> C'" by (rule slabs_repD(3) [OF rep i1 aF])
  have an: "it \<noteq> NULL" using slabs_repD(4) [OF rep aC] by simp
  have dist: "it \<notin> set ys" 
  proof -
    obtain t where "item_queue m1 (slots (cls s1 i)) t (?F i)" using fo by (auto simp: free_ok_def)
    from item_queue_distinct [OF this, unfolded F] ait show ?thesis by simp
  qed
  have us3: "used (?F(i := ys)) C' = insert (it, i) (used F C)"
  proof -
    have "used (?F(i := ys)) C' = insert (it, i) (used ?F C')"
    proof -
      have "c \<in> used (?F(i := ys)) C' \<longleftrightarrow> c = (it, i) \<or> c \<in> used ?F C'" for c
        using aC dist arg_cong [OF F, of set] ait by (cases c; cases "snd c = i") (auto simp: used_def)
      then show ?thesis by blast
    qed
    then show ?thesis using us by simp
  qed
  have "(it, i) \<notin> used ?F C'" using aF by (simp add: used_def)
  then have nu: "(it, i) \<notin> used F C" unfolding us .
  have cr: "chunk_region s1 = chunk_region s" by (rule ext) (simp add: chunk_region_def sz)
  have "memory_of st s1 C' \<union> {} \<subseteq> memory_of st s C \<union> M" using mem by simp
  from client_area_mono [OF us cr this] client_area_unlisted [OF rep]
  have un: "q \<in> unlisted s1 ?F" if "q \<in> client_area st s F C M" for q using that by blast
  have p5: "\<forall>q\<in>unlisted s1 ?F. m3 q = m1 q" using pop(5) unfolding ait m3 m2 n .
  have keep3: "m3 q = m q" if "q \<in> client_area st s F C M" for q
    using p5 un [OF that] keep [OF that] by simp
  have sg: "same_geometry (\<lambda>c. c\<lparr>slots := n, sl_curr := sl_curr c - 1\<rparr>)" by (simp add: same_geometry_def)
  have mem3: "memory_of st ?s C' = memory_of st s1 C'"
    using slab_frame_region [OF slab_frame_upd_cls [OF sg]] i by (simp add: memory_of_def)
  have sz3: "sc_size (cls ?s j) = sc_size (cls s j)" for j by (simp add: sc_size_upd_cls sz)
  have fl: "it_flags (m3 it) = 0" "refcount (m3 it) = 1" "slabs_clsid (m3 it) = of_nat i" using pop(3,4,6) unfolding ait m3 m2 n .
  have "alloc_outcome st m s F C M i it m3 ?s (?F(i := ys)) C'"
    unfolding alloc_outcome_def using rep3 us3 nu an fl pl sz3 keep3 mem3 mem by simp
  moreover have "it = hd (xs @ F i)" using F ait by simp
  ultimately show ?thesis using an by blast
qed

lemma do_slabs_alloc_rep:
  assumes rep: "slabs_rep st m s F C" and fresh: "malloc_fresh st env s C"
    and i: "i \<in> {1..power_largest s}" and sz: "sz \<le> sc_size (cls s i)"
  shows "\<exists>r m' s' F' C'. do_slabs_alloc st env sz i fl m s = Some (r, m', s') \<and>
           alloc_outcome st m s F C (malloc_region st env) i r m' s' F' C' \<and> (F i \<noteq> [] \<longrightarrow> r = hd (F i))"
proof -
  let ?M = "malloc_region st env"
  have fo: "free_ok m (cls s i) i (F i)" by (rule slabs_repD(2) [OF rep i])
  have ok: "sl_curr (cls s i) = 0 \<or> has_flag ITEM_SLABBED (m (slots (cls s i)))"
  proof (cases "F i")
    case Nil
    then show ?thesis using fo by (simp add: free_ok_def)
  next
    case (Cons a as)
    then have "slots (cls s i) = a" "it_flags (m a) = ITEM_SLABBED"
      using fo item_queue_head by (fastforce simp: free_ok_def)+
    then show ?thesis by (simp add: has_flag_def)
  qed
  have "\<exists>b m1 s1 xs. (if sl_curr (cls s i) = 0 \<and> fl \<noteq> SLABS_ALLOC_NO_NEWPAGE
            then do_slabs_newslab st env i m s else Some (False, m, s)) = Some (b, m1, s1) \<and>
         grown_by st m s F C ?M i xs m1 s1 \<and> (F i \<noteq> [] \<longrightarrow> xs = [])"
  proof (cases "sl_curr (cls s i) = 0 \<and> fl \<noteq> SLABS_ALLOC_NO_NEWPAGE")
    case True
    then have "F i = []" using fo by (simp add: free_ok_def)
    with True do_slabs_newslab_rep [OF rep fresh i] show ?thesis by auto
  next
    case False
    then show ?thesis using grown_by_refl [OF rep] by auto
  qed
  then obtain b m1 s1 xs where new: "(if sl_curr (cls s i) = 0 \<and> fl \<noteq> SLABS_ALLOC_NO_NEWPAGE
      then do_slabs_newslab st env i m s else Some (False, m, s)) = Some (b, m1, s1)"
    and g: "grown_by st m s F C ?M i xs m1 s1" and xs: "F i \<noteq> [] \<Longrightarrow> xs = []" by blast
  have run: "do_slabs_alloc st env sz i fl m s =
      (if sl_curr (cls s1 i) \<noteq> 0
       then let it = slots (cls s1 i); nxt = it_next (m1 it);
                m2 = (if nxt \<noteq> NULL then hupd nxt (it_prev_update (\<lambda>_. NULL)) m1 else m1);
                m3 = hupd it (\<lambda>x. (clear_flag ITEM_SLABBED x)\<lparr>refcount := 1\<rparr>) m2
            in Some (it, m3, upd_cls i (\<lambda>c. c\<lparr>slots := nxt, sl_curr := sl_curr c - 1\<rparr>) s1)
       else Some (NULL, m1, s1))"
    using ok i sz unfolding do_slabs_alloc_def new by (simp cong: if_cong)
  show ?thesis
  proof (cases "sl_curr (cls s1 i) = 0")
    case False
    define it where "it = slots (cls s1 i)"
    define n where "n = it_next (m1 it)"
    define m2 where "m2 = (if n \<noteq> NULL then hupd n (it_prev_update (\<lambda>_. NULL)) m1 else m1)"
    define m3 where "m3 = hupd it (\<lambda>x. (clear_flag ITEM_SLABBED x)\<lparr>refcount := 1\<rparr>) m2"
    have "do_slabs_alloc st env sz i fl m s = Some (it, m3, upd_cls i (\<lambda>c. c\<lparr>slots := n, sl_curr := sl_curr c - 1\<rparr>) s1)"
      using False unfolding run Let_def it_def [symmetric] n_def [symmetric] m2_def [symmetric] m3_def [symmetric]
      by simp
    with alloc_from_list [OF g i it_def n_def m2_def m3_def False] xs show ?thesis by auto
  next
    case True
    from g obtain C' where rep1: "slabs_rep st m1 s1 (F(i := xs @ F i)) C'"
      and rest: "used (F(i := xs @ F i)) C' = used F C" "memory_of st s1 C' \<subseteq> memory_of st s C \<union> ?M"
        "power_largest s1 = power_largest s" "\<forall>j. sc_size (cls s1 j) = sc_size (cls s j)"
        "\<forall>q\<in>client_area st s F C ?M. m1 q = m q"
      unfolding grown_by_def by (elim conjE exE)
    have "F i = []"
      using slabs_repD(2) [OF rep1, of i] i rest(3) True by (auto simp: free_ok_def)
    moreover have "alloc_outcome st m s F C ?M i NULL m1 s1 (F(i := xs @ F i)) C'"
      using rep1 rest by (simp add: alloc_outcome_def)
    ultimately show ?thesis using run True by auto
  qed
qed

section \<open>The invariant over executions\<close>

definition slab_inv :: "settings \<Rightarrow> heap \<Rightarrow> slabs \<Rightarrow> (ptr \<times> nat) set \<Rightarrow> ptr set \<Rightarrow> bool" where
  "slab_inv st m s U A \<longleftrightarrow> (\<exists>F C. slabs_rep st m s F C \<and> used F C = U \<and> memory_of st s C \<subseteq> A)"

text \<open>A state with no chunk yet: every free list is empty.\<close>

definition slabs_fresh :: "settings \<Rightarrow> slabs \<Rightarrow> bool" where
  "slabs_fresh st s \<longleftrightarrow> classes_ok st s \<and> pool_pages s = [] \<and> mem_base s = NULL \<and>
     (\<forall>i\<in>{1..power_largest s}. slots (cls s i) = NULL \<and> sl_curr (cls s i) = 0)"

lemma slabs_fresh_rep:
  assumes "slabs_fresh st s" shows "slabs_rep st m s (\<lambda>_. []) {}" and "memory_of st s {} = {}"
  using assms by (auto simp: slabs_fresh_def slabs_rep_def free_ok_def disjoint_family_on_def
    spare_regions_def memory_of_def)

lemma slab_inv_init: "slabs_fresh st s \<Longrightarrow> slab_inv st m s {} {}"
  unfolding slab_inv_def using slabs_fresh_rep(1) [of st s m] slabs_fresh_rep(2) [of st s]
  by (intro exI [of _ "\<lambda>_. []"] exI [of _ "{}"]) (simp add: used_def)

lemma slab_inv_used_frame:
  "slab_frame s s' \<Longrightarrow> spare_regions st s' = spare_regions st s \<Longrightarrow> memory_of st s' C = memory_of st s C"
  using slab_frame_region by (simp add: memory_of_def)

lemma used_disjoint:
  assumes "slabs_rep st m s F C" "c \<in> used F C" "d \<in> used F C" "c \<noteq> d"
  shows "chunk_region s c \<inter> chunk_region s d = {}"
  using slabs_repD(6) [OF assms(1)] assms(2-) by (simp add: disjoint_family_on_def used_def)

lemma slab_frame_spare: "slab_frame s s' \<Longrightarrow> spare_regions st s' = spare_regions st s"
  by (simp add: slab_frame_def spare_regions_def pool_pages_def)

lemma slab_inv_alloc:
  assumes inv: "slab_inv st m s U A" and fresh: "malloc_region st env \<inter> A = {}"
    and run: "do_slabs_alloc st env sz i fl m s = Some (r, m', s')"
  shows "slab_inv st m' s' (if r = NULL then U else insert (r, i) U) (A \<union> malloc_region st env)"
    and "r \<noteq> NULL \<Longrightarrow> (r, i) \<notin> U"
proof -
  from inv obtain F C where rep: "slabs_rep st m s F C" and U: "used F C = U" and mem: "memory_of st s C \<subseteq> A"
    unfolding slab_inv_def by blast
  have fr: "malloc_fresh st env s C" using fresh mem unfolding malloc_fresh_def by blast
  show "slab_inv st m' s' (if r = NULL then U else insert (r, i) U) (A \<union> malloc_region st env)"
    "r \<noteq> NULL \<Longrightarrow> (r, i) \<notin> U"
  proof -
    consider "r = NULL" "m' = m" "s' = s" | "i \<in> {1..power_largest s}" "sz \<le> sc_size (cls s i)"
      using run by (auto simp: do_slabs_alloc_def not_less split: if_splits)
    then have *: "slab_inv st m' s' (if r = NULL then U else insert (r, i) U) (A \<union> malloc_region st env) \<and>
        (r \<noteq> NULL \<longrightarrow> (r, i) \<notin> U)"
    proof cases
      case 1
      then show ?thesis using rep U mem unfolding slab_inv_def by auto
    next
      case 2
      from do_slabs_alloc_rep [OF rep fr 2, of fl] run obtain F' C' where
        o: "alloc_outcome st m s F C (malloc_region st env) i r m' s' F' C'" by auto
      then have "slabs_rep st m' s' F' C'" "used F' C' = (if r = NULL then U else insert (r, i) U)"
        "memory_of st s' C' \<subseteq> A \<union> malloc_region st env"
        using mem U unfolding alloc_outcome_def by auto
      then show ?thesis using o U unfolding slab_inv_def alloc_outcome_def by blast
    qed
    show "slab_inv st m' s' (if r = NULL then U else insert (r, i) U) (A \<union> malloc_region st env)" using * by simp
    show "r \<noteq> NULL \<Longrightarrow> (r, i) \<notin> U" using * by simp
  qed
qed

lemma slab_inv_free:
  assumes inv: "slab_inv st m s U A" and u: "(p, i) \<in> U" and nc: "\<not> has_flag ITEM_CHUNKED (m p)"
  shows "\<exists>m' s'. do_slabs_free p i m s = Some (m', s') \<and> slab_inv st m' s' (U - {(p, i)}) A"
proof -
  from inv obtain F C where rep: "slabs_rep st m s F C" and U: "used F C = U" and mem: "memory_of st s C \<subseteq> A"
    unfolding slab_inv_def by blast
  from do_slabs_free_plain [OF rep, of p i] u U nc obtain m' s' where
    f: "do_slabs_free p i m s = Some (m', s')" "slabs_rep st m' s' (F(i := p # F i)) C" "slab_frame s s'" by blast
  have "memory_of st s' C \<subseteq> A" using mem slab_inv_used_frame [OF f(3) slab_frame_spare [OF f(3)]] by simp
  with f(1,2) U used_push [of F i p C] show ?thesis unfolding slab_inv_def by blast
qed

text \<open>What the client of the allocator sees of its calls: the sizes stay, its chunks and foreign memory are not written.\<close>

definition geometry :: "slabs \<Rightarrow> slabs \<Rightarrow> bool" where
  "geometry s s' \<longleftrightarrow> power_largest s' = power_largest s \<and> (\<forall>j. sc_size (cls s' j) = sc_size (cls s j))"

lemma geometry_refl [simp]: "geometry s s" by (simp add: geometry_def)

lemma geometry_trans: "geometry s s' \<Longrightarrow> geometry s' s'' \<Longrightarrow> geometry s s''" by (simp add: geometry_def)

lemma slab_inv_used:
  assumes "slab_inv st m s U A" "(p, i) \<in> U"
  shows "p \<noteq> NULL" "p \<in> A" "i \<in> {1..power_largest s}"
proof -
  from assms obtain F C where rep: "slabs_rep st m s F C" and U: "used F C = U" and mem: "memory_of st s C \<subseteq> A"
    unfolding slab_inv_def by blast
  have c: "(p, i) \<in> C" using U assms(2) by (auto simp: used_def)
  show "p \<noteq> NULL" "i \<in> {1..power_largest s}" using slabs_repD(4,5) [OF rep c] by simp_all
  show "p \<in> A" using chunk_start [OF rep c] mem c by (auto simp: memory_of_def)
qed

text \<open>The allocator looks at its free chunks only, and there at the list pointers, the flags and the class.\<close>

lemma slab_inv_write:
  assumes inv: "slab_inv st m s U A"
    and w: "\<And>q. q \<in> A \<Longrightarrow> q \<notin> fst ` U \<Longrightarrow> it_next (m' q) = it_next (m q) \<and> it_prev (m' q) = it_prev (m q) \<and>
               it_flags (m' q) = it_flags (m q) \<and> slabs_clsid (m' q) = slabs_clsid (m q)"
  shows "slab_inv st m' s U A"
proof -
  from inv obtain F C where rep: "slabs_rep st m s F C" and U: "used F C = U" and mem: "memory_of st s C \<subseteq> A"
    unfolding slab_inv_def by blast
  have fr: "q \<in> A \<and> q \<notin> fst ` U" if i: "i \<in> {1..power_largest s}" and q: "q \<in> set (F i)" for i q
  proof -
    have c: "(q, i) \<in> C" using slabs_repD(3) [OF rep i q] .
    have "q \<in> A" using chunk_start [OF rep c] mem c by (auto simp: memory_of_def)
    moreover have "q \<notin> fst ` U"
    proof
      assume "q \<in> fst ` U"
      then obtain j where "(q, j) \<in> U" by auto
      then have "(q, j) \<in> C" "q \<notin> set (F j)" using U by (auto simp: used_def)
      then show False using chunk_eqI [OF rep c, of j] q by simp
    qed
    ultimately show ?thesis by simp
  qed
  have "free_ok m' (cls s i) i (F i)" if i: "i \<in> {1..power_largest s}" for i
  proof -
    obtain t where q: "item_queue m (slots (cls s i)) t (F i)"
      and r: "sl_curr (cls s i) = length (F i)" "\<forall>p\<in>set (F i). it_flags (m p) = ITEM_SLABBED \<and> slabs_clsid (m p) = of_nat i"
      using slabs_repD(2) [OF rep i] unfolding free_ok_def by blast
    have "item_queue m' (slots (cls s i)) t (F i)" by (rule item_queue_frame [OF q]) (use fr [OF i] w in blast)
    moreover have "it_flags (m' p) = ITEM_SLABBED \<and> slabs_clsid (m' p) = of_nat i" if "p \<in> set (F i)" for p
      using fr [OF i that] w [of p] r(2) that by simp
    ultimately show ?thesis using r(1) unfolding free_ok_def by blast
  qed
  then have "\<forall>i\<in>{1..power_largest s}. free_ok m' (cls s i) i (F i) \<and> (\<forall>p\<in>set (F i). (p, i) \<in> C)"
    using slabs_repD(3) [OF rep] by simp
  then have "slabs_rep st m' s F C" using rep unfolding slabs_rep_def by simp
  then show ?thesis using U mem unfolding slab_inv_def by blast
qed

lemma slab_inv_alloc_run:
  assumes inv: "slab_inv st m s U A" and fresh: "malloc_region st env \<inter> A = {}"
    and i: "i \<in> {1..power_largest s}" and sz: "sz \<le> sc_size (cls s i)"
  shows "\<exists>r m' s'. do_slabs_alloc st env sz i fl m s = Some (r, m', s') \<and>
    slab_inv st m' s' (if r = NULL then U else insert (r, i) U) (A \<union> malloc_region st env) \<and> geometry s s' \<and>
    (r \<noteq> NULL \<longrightarrow> r \<notin> fst ` U \<and> it_flags (m' r) = 0 \<and> refcount (m' r) = 1 \<and> slabs_clsid (m' r) = of_nat i) \<and>
    (\<forall>q. q \<in> fst ` U \<or> (q \<noteq> NULL \<and> q \<notin> A \<union> malloc_region st env) \<longrightarrow> m' q = m q)"
proof -
  from inv obtain F C where rep: "slabs_rep st m s F C" and U: "used F C = U" and mem: "memory_of st s C \<subseteq> A"
    unfolding slab_inv_def by blast
  have fr: "malloc_fresh st env s C" using fresh mem unfolding malloc_fresh_def by blast
  obtain r m' s' F' C' where run: "do_slabs_alloc st env sz i fl m s = Some (r, m', s')"
    and o: "alloc_outcome st m s F C (malloc_region st env) i r m' s' F' C'"
    using do_slabs_alloc_rep [OF rep fr i sz, of fl] by blast
  note oD = o [unfolded alloc_outcome_def]
  have rep': "slabs_rep st m' s' F' C'" and us: "used F' C' = (if r = NULL then U else insert (r, i) U)"
    using oD U by auto
  have "r \<notin> fst ` U" if r: "r \<noteq> NULL"
  proof
    assume "r \<in> fst ` U"
    then obtain j where j: "(r, j) \<in> U" by auto
    have "(r, j) \<in> C'" "(r, i) \<in> C'" using us j r by (auto simp: used_def split: if_splits)
    then have "j = i" using chunk_eqI [OF rep'] by simp
    then show False using j oD r U by simp
  qed
  moreover have "q \<in> client_area st s F C (malloc_region st env)"
    if q: "q \<in> fst ` U \<or> (q \<noteq> NULL \<and> q \<notin> A \<union> malloc_region st env)" for q
    using q
  proof
    assume "q \<in> fst ` U"
    then obtain j where j: "(q, j) \<in> used F C" using U by auto
    then have "q \<in> chunk_region s (q, j)" using chunk_start [OF rep, of "(q, j)"] by (simp add: used_def)
    then show ?thesis using j by (auto simp: client_area_def)
  next
    assume "q \<noteq> NULL \<and> q \<notin> A \<union> malloc_region st env"
    then show ?thesis using mem by (auto simp: client_area_def)
  qed
  then have "\<forall>q. q \<in> fst ` U \<or> (q \<noteq> NULL \<and> q \<notin> A \<union> malloc_region st env) \<longrightarrow> m' q = m q"
    using oD by blast
  moreover have "slab_inv st m' s' (if r = NULL then U else insert (r, i) U) (A \<union> malloc_region st env)"
    using rep' us oD mem unfolding slab_inv_def by blast
  ultimately show ?thesis using run oD by (simp add: geometry_def)
qed

lemma slab_inv_free_run:
  assumes inv: "slab_inv st m s U A" and u: "(p, i) \<in> U" and nc: "\<not> has_flag ITEM_CHUNKED (m p)"
  shows "\<exists>m' s'. do_slabs_free p i m s = Some (m', s') \<and> slab_inv st m' s' (U - {(p, i)}) A \<and> geometry s s' \<and>
    (\<forall>q. q \<noteq> p \<and> (q \<in> fst ` U \<or> (q \<noteq> NULL \<and> q \<notin> A)) \<longrightarrow> m' q = m q)"
proof -
  from inv obtain F C where rep: "slabs_rep st m s F C" and U: "used F C = U" and mem: "memory_of st s C \<subseteq> A"
    unfolding slab_inv_def by blast
  from do_slabs_free_plain [OF rep, of p i] u U nc obtain m' s' where
    f: "do_slabs_free p i m s = Some (m', s')" "slabs_rep st m' s' (F(i := p # F i)) C" "slab_frame s s'"
      "\<forall>q\<in>unlisted s F. q \<noteq> p \<longrightarrow> m' q = m q" by blast
  have "memory_of st s' C \<subseteq> A" using mem slab_inv_used_frame [OF f(3) slab_frame_spare [OF f(3)]] by simp
  then have "slab_inv st m' s' (U - {(p, i)}) A" using f(2) U used_push [of F i p C] unfolding slab_inv_def by blast
  moreover have "q \<in> unlisted s F" if q: "q \<in> fst ` U \<or> (q \<noteq> NULL \<and> q \<notin> A)" for q
    using q
  proof
    assume "q \<in> fst ` U"
    then obtain j where j: "(q, j) \<in> used F C" using U by auto
    then have "q \<in> chunk_region s (q, j)" using chunk_start [OF rep, of "(q, j)"] by (simp add: used_def)
    then show ?thesis using used_unlisted [OF rep j] by simp
  next
    assume "q \<noteq> NULL \<and> q \<notin> A"
    then have "q \<in> client_area st s F C {}" using mem by (auto simp: client_area_def)
    then show ?thesis by (rule client_area_unlisted [OF rep])
  qed
  moreover have "geometry s s'" using f(3) by (simp add: slab_frame_def geometry_def)
  ultimately show ?thesis using f(1,4) by blast
qed

lemma slab_inv_free_chunked:
  assumes inv: "slab_inv st m s U A" and ci: "chunked_item m s U it i cs"
  shows "\<exists>m' s'. do_slabs_free it i m s = Some (m', s') \<and> slab_inv st m' s' (U - chunks_of m it i cs) A"
proof -
  from inv obtain F C where rep: "slabs_rep st m s F C" and U: "used F C = U" and mem: "memory_of st s C \<subseteq> A"
    unfolding slab_inv_def by blast
  from do_slabs_free_chunked_rep [OF rep, of it i cs] ci U obtain m' s' F' where
    f: "do_slabs_free it i m s = Some (m', s')" "slabs_rep st m' s' F' C"
      "used F' C = U - chunks_of m it i cs" "slab_frame s s'" by blast
  have "memory_of st s' C \<subseteq> A" using mem slab_inv_used_frame [OF f(4) slab_frame_spare [OF f(4)]] by simp
  with f(1-3) show ?thesis unfolding slab_inv_def by blast
qed

lemma slab_reach_inv:
  assumes "slab_reach st s0 m s U A" "slabs_fresh st s0"
  shows "slab_inv st m s U A"
  using assms
proof (induction rule: slab_reach.induct)
  case (init m)
  then show ?case by (rule slab_inv_init)
next
  case (alloc m s U A env sz i fl r m' s')
  then show ?case using slab_inv_alloc(1) by blast
next
  case (free m s U A p i m' s')
  then show ?case using slab_inv_free [of st m s U A p i] by auto
next
  case (free_chunked m s U A it i cs m' s')
  then show ?case using slab_inv_free_chunked [of st m s U A it i cs] by auto
next
  case (client_write m s U A m')
  then obtain F C where "slabs_rep st m s F C" "used F C = U" "memory_of st s C \<subseteq> A" unfolding slab_inv_def by blast
  moreover have "slabs_rep st m' s F C"
    by (rule slabs_rep_client_write) (use calculation client_write in auto)
  ultimately show ?case unfolding slab_inv_def by blast
qed

section \<open>Size classes\<close>

lemma slabs_clsid_loop_first_fit:
  assumes "1 \<le> res" "res \<le> power_largest s" "\<forall>j\<in>{1..<res}. sc_size (cls s j) < sz"
  shows "slabs_clsid_loop s sz res \<in> {1..power_largest s} \<and>
    (\<forall>j\<in>{1..<slabs_clsid_loop s sz res}. sc_size (cls s j) < sz) \<and>
    (sz \<le> sc_size (cls s (slabs_clsid_loop s sz res)) \<or> slabs_clsid_loop s sz res = power_largest s)"
  using assms
proof (induction s sz res rule: slabs_clsid_loop.induct)
  case (1 s sz res)
  show ?case
  proof (cases "sz > sc_size (cls s res) \<and> res < power_largest s")
    case True
    have "\<forall>j\<in>{1..<res + 1}. sc_size (cls s j) < sz" using True 1(4) by (auto simp: less_Suc_eq)
    with True 1 have "slabs_clsid_loop s sz (res + 1) \<in> {1..power_largest s} \<and>
      (\<forall>j\<in>{1..<slabs_clsid_loop s sz (res + 1)}. sc_size (cls s j) < sz) \<and>
      (sz \<le> sc_size (cls s (slabs_clsid_loop s sz (res + 1))) \<or> slabs_clsid_loop s sz (res + 1) = power_largest s)"
      by simp
    moreover have "slabs_clsid_loop s sz res = slabs_clsid_loop s sz (res + 1)"
      using True by (subst slabs_clsid_loop.simps) simp
    ultimately show ?thesis by simp
  next
    case False
    then have "slabs_clsid_loop s sz res = res" using 1(3)
      by (subst slabs_clsid_loop.simps) auto
    then show ?thesis using False 1 by auto
  qed
qed

text \<open>What the loop of \<open>slabs_init\<close> produces.\<close>

lemma align_chunk_mod: "align_chunk n mod 8 = 0"
  by (simp add: align_chunk_def) presburger

lemma align_chunk_pos: "0 < n \<Longrightarrow> 0 < align_chunk n"
  using align_chunk_ge(1) [of n] by simp

lemma slabs_init_loop_table:
  assumes "slabs_init_loop grow stop None n i sz = (szs, k)" "\<And>n. n \<le> grow n" "0 < sz"
  shows "length szs \<le> n \<and> k = i + length szs \<and> sorted szs \<and> (\<forall>x\<in>set szs. sz \<le> x \<and> x mod 8 = 0)"
  using assms
proof (induction n arbitrary: i sz szs k)
  case 0
  then show ?case by simp
next
  case (Suc n)
  show ?case
  proof (cases "stop sz")
    case True
    with Suc.prems show ?thesis by simp
  next
    case False
    obtain rest k' where r: "slabs_init_loop grow stop None n (i + 1) (grow (align_chunk sz)) = (rest, k')" by fastforce
    with False Suc.prems have szs: "szs = align_chunk sz # rest" "k = k'" by (auto simp: Let_def)
    have pos: "0 < grow (align_chunk sz)" "align_chunk sz \<le> grow (align_chunk sz)"
      using Suc.prems(2) [of "align_chunk sz"] align_chunk_pos [OF Suc.prems(3)] by auto
    from Suc.IH [OF r Suc.prems(2) pos(1)] szs pos show ?thesis
      using align_chunk_ge(1) [of sz] align_chunk_mod [of sz] by (auto intro: order_trans)
  qed
qed

lemma mk_class_simps [simp]:
  "sc_size (mk_class st n) = n" "perslab (mk_class st n) = slab_page_size st div n"
  "slots (mk_class st n) = NULL" "sl_curr (mk_class st n) = 0" "slabs_n (mk_class st n) = 0"
  "list_size (mk_class st n) = 0" "slab_list (mk_class st n) = []"
  by (simp_all add: mk_class_def zero_slabclass_def)

lemma slabs_init_classes_table:
  assumes c: "slabs_init_classes st grow stop None = (cs, k)" and g: "\<And>n. n \<le> grow n"
  shows "length cs = 64 \<and> 1 \<le> k \<and> k < 64 \<and> cs ! 0 = zero_slabclass \<and> cs ! k = mk_class st (slab_chunk_size_max st) \<and>
    (\<forall>i\<in>{1..<k}. cs ! i = mk_class st (sc_size (cs ! i)) \<and> sizeof_item + chunk_size st \<le> sc_size (cs ! i) \<and>
       sc_size (cs ! i) mod 8 = 0) \<and>
    (\<forall>i\<in>{1..<k}. \<forall>j\<in>{i..<k}. sc_size (cs ! i) \<le> sc_size (cs ! j))"
proof -
  obtain szs k' where l: "slabs_init_loop grow stop None 62 1 (sizeof_item + chunk_size st) = (szs, k')" by fastforce
  let ?cs = "zero_slabclass # map (mk_class st) szs @ [mk_class st (slab_chunk_size_max st)]"
  have ck: "cs = ?cs @ replicate (64 - length ?cs) zero_slabclass" "k = k'"
    using c l by (simp_all add: slabs_init_classes_def)
  have t: "length szs \<le> 62" "k' = 1 + length szs" "sorted szs"
    "\<forall>x\<in>set szs. sizeof_item + chunk_size st \<le> x \<and> x mod 8 = 0"
    using slabs_init_loop_table [OF l g] by (auto simp: sizeof_item_def)
  have nth: "cs ! i = mk_class st (szs ! (i - 1))" if "i \<in> {1..<k}" for i
    using that ck t(2) by (auto simp: nth_append nth_Cons split: nat.splits)
  have last: "cs ! k = mk_class st (slab_chunk_size_max st)" using ck t(2) by (simp add: nth_append)
  have mem: "szs ! (i - 1) \<in> set szs" if "i \<in> {1..<k}" for i using that ck(2) t(2) by auto
  have "sc_size (cs ! i) \<le> sc_size (cs ! j)" if "i \<in> {1..<k}" "j \<in> {i..<k}" for i j
    using that nth [of i] nth [of j] t(2,3) ck(2) by (auto intro!: sorted_nth_mono)
  then show ?thesis using ck t nth mem last by auto
qed

lemma slabs_init_fresh:
  assumes c: "slabs_init_classes st grow stop None = (cs, k)" and g: "\<And>n. n \<le> grow n"
    and st: "0 < slab_chunk_size_max st" "slab_page_size st < 2 ^ 31"
    and s: "slabclass s = cs" "power_largest s = k" "mem_base s = NULL"
  shows "slabs_fresh st s"
proof -
  note tab = slabs_init_classes_table [OF c g]
  have cl: "\<exists>n>0. cls s i = mk_class st n" if "i \<in> {1..k}" for i
  proof (cases "i = k")
    case True
    then show ?thesis using tab st(1) s(1) by auto
  next
    case False
    with that have i: "i \<in> {1..<k}" by auto
    with tab have "cs ! i = mk_class st (sc_size (cs ! i))" "sizeof_item + chunk_size st \<le> sc_size (cs ! i)" by blast+
    then show ?thesis using s(1) by (metis sizeof_item_def add_is_0 gr0I le_zero_eq zero_neq_numeral)
  qed
  have z: "cls s 0 = zero_slabclass" using tab s(1) by simp
  have pp: "pool_pages s = []" by (simp add: pool_pages_def z zero_slabclass_def)
  have "0 < sc_size (cls s i) \<and> sc_size (cls s i) * perslab (cls s i) \<le> slab_page_size st \<and>
      slots (cls s i) = NULL \<and> sl_curr (cls s i) = 0 \<and> slabs_n (cls s i) = 0 \<and> list_size (cls s i) = 0 \<and>
      slab_list (cls s i) = []" if "i \<in> {1..k}" for i
    using cl [OF that] by (auto simp: mult.commute)
  moreover have "slabs_n (cls s i) \<le> list_size (cls s i) \<and> length (slab_list (cls s i)) = list_size (cls s i)"
    if "i \<le> k" for i
    using calculation [of i] z that by (cases "i = 0") (auto simp: zero_slabclass_def)
  ultimately show ?thesis
    using tab s st(2) pp unfolding slabs_fresh_def classes_ok_def by auto
qed

section \<open>The memory limit\<close>

lemma do_slabs_newslab_limit:
  assumes run: "do_slabs_newslab st env i m s = Some (True, m', s')"
    and lim: "mem_limit s \<noteq> 0" and has: "0 < slabs_n (cls s i)" and pool: "slabs_n (cls s 0) = 0"
    and base: "mem_base s = NULL"
  shows "mem_malloced s' \<le> mem_limit s'"
proof -
  let ?len = "slab_page_len st s i"
  obtain grown s1 where g: "grow_slab_list (realloc_ok env) i s = (grown, s1)" by fastforce
  have s1: "mem_malloced s1 = mem_malloced s" "mem_limit s1 = mem_limit s" "mem_base s1 = NULL"
    using g base by (auto simp: grow_slab_list_def Let_def split: if_splits)
  obtain p0 s2 where g2: "get_page_from_global_pool s1 = (p0, s2)" by fastforce
  have s2: "mem_malloced s2 = mem_malloced s" "mem_limit s2 = mem_limit s" "mem_base s2 = NULL"
    using g2 s1 by (auto simp: get_page_from_global_pool_def Let_def split: if_splits)
  have p0: "p0 = NULL"
  proof -
    have "slabs_n (cls s1 0) = 0"
      using g pool by (cases "i < length (slabclass s)")
        (auto simp: grow_slab_list_def Let_def upd_cls_def nth_list_update not_less list_update_beyond split: if_splits)
    then show ?thesis using g2 by (simp add: get_page_from_global_pool_def Let_def)
  qed
  have lim': "\<not> mem_malloced s + of_nat ?len > mem_limit s" using run lim has pool
    by (auto simp: do_slabs_newslab_def Let_def split: if_splits)
  from run g g2 p0 lim' s2(3) obtain s4 m4 where
    sp: "split_slab_page_into_freelist (malloc_ret env) i m4 (s2\<lparr>mem_malloced := mem_malloced s2 + of_nat ?len\<rparr>) = Some (m', s4)"
    and s': "s' = add_page i (malloc_ret env) s4"
    by (auto simp: do_slabs_newslab_def memory_allocate_def Let_def split: if_splits option.splits)
  have "mem_malloced s' = mem_malloced s + of_nat ?len" "mem_limit s' = mem_limit s"
    using split_slab_page_frame [OF sp] s' s2 by (simp_all add: add_page_def slab_frame_def)
  with lim' show ?thesis by simp
qed

lemma memory_release_loop_done:
  assumes "0 < length (slabclass s)" "NULL \<notin> set (pool_pages s)"
    "slabs_n (cls s 0) \<le> length (slab_list (cls s 0))" "slabs_n (cls s 0) < n"
  shows "mem_malloced (memory_release_loop st n s) \<le> mem_limit (memory_release_loop st n s) \<or>
         slabs_n (cls (memory_release_loop st n s) 0) = 0"
  using assms
proof (induction n arbitrary: s)
  case (Suc n)
  show ?case
  proof (cases "mem_malloced s > mem_limit s \<and> slabs_n (cls s 0) \<noteq> 0")
    case True
    then obtain k where k: "slabs_n (cls s 0) = Suc k" by (cases "slabs_n (cls s 0)") auto
    let ?p = "slab_list (cls s 0) ! k"
    let ?s = "upd_cls 0 (\<lambda>c. c\<lparr>slabs_n := slabs_n c - 1\<rparr>) s"
    let ?s' = "?s\<lparr>mem_malloced := mem_malloced ?s - of_nat (slab_page_size st)\<rparr>"
    have pp: "pool_pages s = pool_pages ?s' @ [?p]"
      using k Suc.prems(1,3) by (simp add: pool_pages_def cls_upd_cls take_Suc_conv_app_nth)
    then have "?p \<noteq> NULL" using Suc.prems(2) by auto
    moreover have "get_page_from_global_pool s = (?p, ?s)" using k by (simp add: get_page_from_global_pool_def Let_def)
    ultimately have "memory_release_loop st (Suc n) s = memory_release_loop st n ?s'" using True by simp
    moreover have "mem_malloced (memory_release_loop st n ?s') \<le> mem_limit (memory_release_loop st n ?s') \<or>
         slabs_n (cls (memory_release_loop st n ?s') 0) = 0"
      by (rule Suc.IH) (use Suc.prems pp k in \<open>simp_all add: cls_upd_cls\<close>)
    ultimately show ?thesis by simp
  next
    case False
    then have "memory_release_loop st (Suc n) s = s"
      by (auto simp: get_page_from_global_pool_def Let_def)
    then show ?thesis using False by auto
  qed
qed simp

section \<open>Properties\<close>

definition sample_slab_settings :: settings where
  "sample_slab_settings = sample_settings\<lparr>slab_page_size := 200, slab_chunk_size_max := 96\<rparr>"

definition sample_slabs :: slabs where
  "sample_slabs = \<lparr>slabclass = fst (slabs_init_classes sample_slab_settings (\<lambda>n. 2 * n) (\<lambda>n. 50 \<le> n) None),
     mem_limit = 1024, mem_malloced = 0, mem_limit_reached = False, power_largest = 1,
     mem_base = NULL, mem_current = NULL, mem_avail = 0\<rparr>"

definition sample_env :: alloc_env where
  "sample_env = \<lparr>realloc_ok = True, malloc_ret = 1000\<rparr>"

lemmas sample_slab_defs = sample_slab_settings_def sample_slabs_def sample_env_def sample_settings_def

lemma slabs_init_loop_stop: "stop sz \<Longrightarrow> slabs_init_loop grow stop None n i sz = ([], i)"
  by (cases n) auto

lemma sample_classes:
  "slabs_init_classes sample_slab_settings (\<lambda>n. 2 * n) (\<lambda>n. 50 \<le> n) None =
     (zero_slabclass # mk_class sample_slab_settings 96 # replicate 62 zero_slabclass, 1)"
  by (simp add: slabs_init_classes_def slabs_init_loop_stop sample_slab_defs sizeof_item_def)

lemma sample_slabs_fresh: "slabs_fresh sample_slab_settings sample_slabs"
  by (rule slabs_init_fresh [OF sample_classes]) (simp_all add: sample_slabs_def sample_classes, simp_all add: sample_slab_defs)

lemma sample_slabclass:
  "slabclass sample_slabs = zero_slabclass # mk_class sample_slab_settings 96 # replicate 62 zero_slabclass"
  "power_largest sample_slabs = 1" "mem_base sample_slabs = NULL" "mem_limit sample_slabs = 1024"
  "mem_malloced sample_slabs = 0"
  by (simp_all add: sample_slabs_def sample_classes)

lemmas slab_run_defs = do_slabs_alloc_def do_slabs_newslab_def slab_page_len_def grow_slab_list_def
  get_page_from_global_pool_def memory_allocate_def split_slab_page_into_freelist_def do_slabs_free_def
  push_free_def upd_cls_def add_page_def wipe_def hupd_def Let_def zero_item_def zero_slabclass_def mk_class_def
  has_flag_def clear_flag_def

lemma split_two:
  "split_slab_page_loop 2 p i m s = (case do_slabs_free p i m s of None \<Rightarrow> None
     | Some (m', s') \<Rightarrow> do_slabs_free (p + sc_size (cls s' i)) i m' s')"
  by (simp add: numeral_2_eq_2 split: option.split)

lemma sample_two_allocs:
  "\<exists>m' s' m'' s''. do_slabs_alloc sample_slab_settings sample_env 60 1 0 (\<lambda>_. zero_item) sample_slabs = Some (1096, m', s') \<and>
     do_slabs_alloc sample_slab_settings (sample_env\<lparr>malloc_ret := 5000\<rparr>) 60 1 1 m' s' = Some (1000, m'', s'')"
  by (simp add: slab_run_defs sample_slabclass sample_slab_settings_def sample_env_def sample_settings_def split_two)

text \<open>C13: In every state the allocator can reach, by any sequence of allocations, frees and writes of its clients into
  the chunks they hold, the memory of two chunks in use never overlaps. A further allocation (with \<open>malloc\<close>
  returning memory it has not returned before) runs without a failed assert, hands out a chunk that overlaps no chunk
  in use, and changes nothing in the chunks in use.\<close>

theorem slab_chunks_never_overlap:
  assumes "slab_reach st s0 m s U A" and "slabs_fresh st s0"
  shows "(\<forall>c d. c \<in> U \<and> d \<in> U \<and> c \<noteq> d \<longrightarrow> chunk_region s c \<inter> chunk_region s d = {}) \<and>
    (\<forall>env sz i fl. malloc_region st env \<inter> A = {} \<and> i \<in> {1..power_largest s} \<and> sz \<le> sc_size (cls s i) \<longrightarrow>
       (\<exists>r m' s'. do_slabs_alloc st env sz i fl m s = Some (r, m', s') \<and>
          (r \<noteq> NULL \<longrightarrow> (\<forall>c\<in>U. chunk_region s' (r, i) \<inter> chunk_region s' c = {})) \<and>
          (\<forall>c\<in>U. \<forall>q\<in>chunk_region s c. m' q = m q)))"
proof -
  from slab_reach_inv [OF assms] obtain F C where rep: "slabs_rep st m s F C" and U: "used F C = U"
    and mem: "memory_of st s C \<subseteq> A" unfolding slab_inv_def by blast
  have disj: "chunk_region s c \<inter> chunk_region s d = {}" if "c \<in> U" "d \<in> U" "c \<noteq> d" for c d
    using used_disjoint [OF rep] that unfolding U by blast
  have alloc: "\<exists>r m' s'. do_slabs_alloc st env sz i fl m s = Some (r, m', s') \<and>
      (r \<noteq> NULL \<longrightarrow> (\<forall>c\<in>U. chunk_region s' (r, i) \<inter> chunk_region s' c = {})) \<and>
      (\<forall>c\<in>U. \<forall>q\<in>chunk_region s c. m' q = m q)"
    if fr: "malloc_region st env \<inter> A = {}" and i: "i \<in> {1..power_largest s}" and sz: "sz \<le> sc_size (cls s i)"
    for env sz i fl
  proof -
    have "malloc_fresh st env s C" using fr mem unfolding malloc_fresh_def by blast
    from do_slabs_alloc_rep [OF rep this i sz, of fl] obtain r m' s' F' C' where
      run: "do_slabs_alloc st env sz i fl m s = Some (r, m', s')"
      and o: "alloc_outcome st m s F C (malloc_region st env) i r m' s' F' C'" by blast
    have keep: "\<forall>c\<in>U. \<forall>q\<in>chunk_region s c. m' q = m q"
      using o U unfolding alloc_outcome_def client_area_def by blast
    have "chunk_region s' (r, i) \<inter> chunk_region s' c = {}" if "r \<noteq> NULL" "c \<in> U" for c
    proof -
      have "slabs_rep st m' s' F' C'" "(r, i) \<notin> U" "used F' C' = insert (r, i) U"
        using o that(1) unfolding alloc_outcome_def U by simp_all
      then show ?thesis using used_disjoint [of st m' s' F' C' "(r, i)" c] that(2) by auto
    qed
    with run keep show ?thesis by blast
  qed
  show ?thesis
    by (intro conjI allI impI; elim conjE) (rule disj, assumption+, rule alloc, assumption+)
qed

theorem slab_chunks_never_overlap_witness:
  "\<exists>m s A. slab_reach sample_slab_settings sample_slabs m s {(1096, 1), (1000, 1)} A \<and>
     slabs_fresh sample_slab_settings sample_slabs \<and> chunk_region s (1096, 1) \<inter> chunk_region s (1000, 1) = {}"
proof -
  obtain m' s' m'' s'' where
    a1: "do_slabs_alloc sample_slab_settings sample_env 60 1 0 (\<lambda>_. zero_item) sample_slabs = Some (1096, m', s')"
    and a2: "do_slabs_alloc sample_slab_settings (sample_env\<lparr>malloc_ret := 5000\<rparr>) 60 1 1 m' s' = Some (1000, m'', s'')"
    using sample_two_allocs by blast
  let ?A = "malloc_region sample_slab_settings sample_env"
  have r1: "slab_reach sample_slab_settings sample_slabs m' s' {(1096, 1)} ?A"
    using slab_reach.alloc [OF slab_reach.init _ a1] by simp
  have "slab_reach sample_slab_settings sample_slabs m'' s'' {(1000, 1), (1096, 1)}
      (?A \<union> malloc_region sample_slab_settings (sample_env\<lparr>malloc_ret := 5000\<rparr>))"
    using slab_reach.alloc [OF r1 _ a2] by (simp add: malloc_region_def region_def sample_slab_defs)
  then have "slab_reach sample_slab_settings sample_slabs m'' s'' {(1096, 1), (1000, 1)}
      (?A \<union> malloc_region sample_slab_settings (sample_env\<lparr>malloc_ret := 5000\<rparr>))"
    by (simp add: insert_commute)
  moreover from conjunct1 [OF slab_chunks_never_overlap [OF this sample_slabs_fresh]]
  have "chunk_region s'' (1096, 1) \<inter> chunk_region s'' (1000, 1) = {}" by simp
  ultimately show ?thesis using sample_slabs_fresh by blast
qed

text \<open>C15: Freeing and allocating are inverse: in a reachable state, freeing a chunk in use succeeds, and the next allocation
  of its class returns that same chunk, with a cleared flag word and reference count 1, without a new page.\<close>

theorem slabs_free_alloc_roundtrip:
  assumes "slab_reach st s0 m s U A" and "slabs_fresh st s0" and "(p, i) \<in> U" and "\<not> has_flag ITEM_CHUNKED (m p)"
    and "sz \<le> sc_size (cls s i)" and "malloc_region st env \<inter> A = {}"
  shows "\<exists>m1 s1 m2 s2. do_slabs_free p i m s = Some (m1, s1) \<and> do_slabs_alloc st env sz i fl m1 s1 = Some (p, m2, s2) \<and>
           it_flags (m2 p) = 0 \<and> refcount (m2 p) = 1 \<and> mem_malloced s1 = mem_malloced s"
proof -
  from slab_reach_inv [OF assms(1,2)] obtain F C where rep: "slabs_rep st m s F C" and U: "used F C = U"
    and mem: "memory_of st s C \<subseteq> A" unfolding slab_inv_def by blast
  have u: "(p, i) \<in> used F C" using assms(3) U by simp
  from do_slabs_free_plain [OF rep u assms(4)] obtain m1 s1 where
    f: "do_slabs_free p i m s = Some (m1, s1)" "slabs_rep st m1 s1 (F(i := p # F i)) C" "slab_frame s s1" by blast
  have pC: "(p, i) \<in> C" using u by (simp add: used_def)
  have i: "i \<in> {1..power_largest s1}" using slabs_repD(5) [OF f(2) pC] by simp
  have sz: "sz \<le> sc_size (cls s1 i)" using assms(5) f(3) by (simp add: slab_frame_def)
  have "malloc_fresh st env s1 C"
    using assms(6) mem slab_inv_used_frame [OF f(3) slab_frame_spare [OF f(3)], where C = C]
    unfolding malloc_fresh_def by blast
  from do_slabs_alloc_rep [OF f(2) this i sz, of fl] obtain r m2 s2 F' C' where
    a: "do_slabs_alloc st env sz i fl m1 s1 = Some (r, m2, s2)"
      "alloc_outcome st m1 s1 (F(i := p # F i)) C (malloc_region st env) i r m2 s2 F' C'" "r = p" by auto
  have "p \<noteq> NULL" using slabs_repD(4) [OF rep pC] by simp
  then have "it_flags (m2 p) = 0" "refcount (m2 p) = 1" using a(2,3) unfolding alloc_outcome_def by simp_all
  moreover have "mem_malloced s1 = mem_malloced s" using f(3) by (simp add: slab_frame_def)
  ultimately show ?thesis using f(1) a(1,3) by blast
qed

lemma sample_reach_one:
  "\<exists>m' s'. slab_reach sample_slab_settings sample_slabs m' s' {(1096, 1)} (malloc_region sample_slab_settings sample_env) \<and>
     \<not> has_flag ITEM_CHUNKED (m' 1096) \<and> sc_size (cls s' 1) = 96"
proof -
  obtain m' s' where a: "do_slabs_alloc sample_slab_settings sample_env 60 1 0 (\<lambda>_. zero_item) sample_slabs = Some (1096, m', s')"
    using sample_two_allocs by blast
  have r: "slab_reach sample_slab_settings sample_slabs m' s' {(1096, 1)} (malloc_region sample_slab_settings sample_env)"
    using slab_reach.alloc [OF slab_reach.init _ a] by simp
  have "\<not> has_flag ITEM_CHUNKED (m' 1096) \<and> sc_size (cls s' 1) = 96"
    using a by (simp add: slab_run_defs sample_slabclass sample_slab_settings_def sample_env_def sample_settings_def split_two)
      auto
  with r show ?thesis by blast
qed

theorem slabs_free_alloc_roundtrip_witness:
  "\<exists>m s m1 s1 m2 s2. do_slabs_free 1096 1 m s = Some (m1, s1) \<and>
     do_slabs_alloc sample_slab_settings (sample_env\<lparr>malloc_ret := 5000\<rparr>) 60 1 0 m1 s1 = Some (1096, m2, s2) \<and> refcount (m2 1096) = 1"
proof -
  obtain m s where r: "slab_reach sample_slab_settings sample_slabs m s {(1096, 1)} (malloc_region sample_slab_settings sample_env)"
    "\<not> has_flag ITEM_CHUNKED (m 1096)" "sc_size (cls s 1) = 96" using sample_reach_one by blast
  have "malloc_region sample_slab_settings (sample_env\<lparr>malloc_ret := 5000\<rparr>) \<inter> malloc_region sample_slab_settings sample_env = {}"
    by (simp add: malloc_region_def region_def sample_slab_defs)
  from slabs_free_alloc_roundtrip [OF r(1) sample_slabs_fresh _ r(2) _ this, of 1 60 0] r(3) show ?thesis by fastforce
qed





text \<open>C18: A new page for a class that already has one is only taken from the system while that keeps the allocated memory within
  the limit: when the pool is empty and no block was preallocated, a successful \<open>do_slabs_newslab\<close> ends with at most the limit
  allocated.\<close>

theorem slabs_newslab_within_limit:
  assumes "do_slabs_newslab st env i m s = Some (True, m', s')" and "mem_limit s \<noteq> 0" and "0 < slabs_n (cls s i)"
    and "slabs_n (cls s 0) = 0" and "mem_base s = NULL"
  shows "mem_malloced s' \<le> mem_limit s'"
  using do_slabs_newslab_limit [OF assms] .

definition sample_slabs_one_page :: slabs where
  "sample_slabs_one_page = upd_cls 1 (\<lambda>c. c\<lparr>slabs_n := 1, slab_list := 3000 # replicate 15 NULL, list_size := 16\<rparr>) sample_slabs"

theorem slabs_newslab_within_limit_witness:
  "\<exists>m' s'. do_slabs_newslab sample_slab_settings sample_env 1 (\<lambda>_. zero_item) sample_slabs_one_page = Some (True, m', s') \<and>
     mem_malloced s' \<le> mem_limit s'"
proof -
  have run: "\<exists>m' s'. do_slabs_newslab sample_slab_settings sample_env 1 (\<lambda>_. zero_item) sample_slabs_one_page = Some (True, m', s')"
    by (simp add: slab_run_defs sample_slabs_one_page_def sample_slabclass sample_slab_settings_def sample_env_def
      sample_settings_def split_two)
  have "mem_limit sample_slabs_one_page \<noteq> 0 \<and> 0 < slabs_n (cls sample_slabs_one_page 1) \<and>
      slabs_n (cls sample_slabs_one_page 0) = 0 \<and> mem_base sample_slabs_one_page = NULL"
    by (simp add: sample_slabs_one_page_def sample_slabclass upd_cls_def zero_slabclass_def)
  with run slabs_newslab_within_limit show ?thesis by blast
qed





end
