(* ===== verification/Slab_Rebalance.thy ===== *)
theory Slab_Rebalance
  imports Slab_Laws
begin

text \<open>
  The slab page mover of \<^verbatim>\<open>slabs.c\<close>: the request (\<open>slabs_reassign\<close>), the start of a move, the
  allocation of a replacement chunk, taking a chunk off its free list, and the hand-over of
  the emptied page. The step that moves one chunk needs the item operations and is in
  \<open>Slab_Move\<close>. The lock attempt and \<open>realloc\<close> outcomes are arguments.
\<close>

section \<open>State\<close>

record slab_rebalance =
  slab_start :: ptr
  slab_end :: ptr
  slab_pos :: ptr
  s_clsid :: int
  d_clsid :: int
  busy_items :: u32
  rescues :: u32
  evictions_nomem :: u32
  inline_reclaim :: u32
  chunk_rescues :: u32
  busy_deletes :: u32
  busy_loops :: u32
  rebal_done :: u8
  completed :: "u8 list"
  slab_rebalance_signal :: nat
  pick_cur :: nat

text \<open>
  The last two fields are the variable \<open>slab_rebalance_signal\<close> (0 idle, 1 requested, 2 running)
  and the static variable \<open>cur\<close> of \<open>slabs_reassign_pick_any\<close>.
\<close>

datatype reassign_result_type =
  REASSIGN_OK | REASSIGN_RUNNING | REASSIGN_BADCLASS | REASSIGN_NOSPARE | REASSIGN_SRC_DST_SAME

section \<open>The request\<close>

fun slabs_reassign_pick_loop :: "nat \<Rightarrow> slabs \<Rightarrow> int \<Rightarrow> nat \<Rightarrow> int \<times> nat" where
  "slabs_reassign_pick_loop 0 s dst cur = (- 1, cur)"
| "slabs_reassign_pick_loop (Suc tries) s dst cur =
     (let cur' = (if cur + 1 > power_largest s then POWER_SMALLEST else cur + 1)
      in if int cur' = dst then slabs_reassign_pick_loop tries s dst cur'
         else if slabs_n (cls s cur') > 1 then (int cur', cur')
         else slabs_reassign_pick_loop tries s dst cur')"

definition slabs_reassign_pick_any :: "slabs \<Rightarrow> int \<Rightarrow> nat \<Rightarrow> int \<times> nat" where
  "slabs_reassign_pick_any s dst cur =
     slabs_reassign_pick_loop (power_largest s + 1 - POWER_SMALLEST) s dst cur"

definition do_slabs_reassign :: "int \<Rightarrow> int \<Rightarrow> slabs \<Rightarrow> slab_rebalance \<Rightarrow> reassign_result_type \<times> slab_rebalance" where
  "do_slabs_reassign src dst s r =
     (if slab_rebalance_signal r \<noteq> 0 then (REASSIGN_RUNNING, r)
      else if src = dst then (REASSIGN_SRC_DST_SAME, r)
      else let (src', cur) = (if src = - 1 then slabs_reassign_pick_any s dst (pick_cur r) else (src, pick_cur r));
               r1 = r\<lparr>pick_cur := cur\<rparr>
           in if src' < int SLAB_GLOBAL_PAGE_POOL \<or> src' > int (power_largest s) \<or>
                 dst < int SLAB_GLOBAL_PAGE_POOL \<or> dst > int (power_largest s)
              then (REASSIGN_BADCLASS, r1)
              else if slabs_n (cls s (nat src')) < 2 then (REASSIGN_NOSPARE, r1)
              else (REASSIGN_OK, r1\<lparr>s_clsid := src', d_clsid := dst, slab_rebalance_signal := 1\<rparr>))"

definition slabs_reassign :: "bool \<Rightarrow> int \<Rightarrow> int \<Rightarrow> slabs \<Rightarrow> slab_rebalance \<Rightarrow> reassign_result_type \<times> slab_rebalance" where
  "slabs_reassign trylock_ok src dst s r =
     (if \<not> trylock_ok then (REASSIGN_RUNNING, r) else do_slabs_reassign src dst s r)"

section \<open>Starting a move\<close>

text \<open>
  The result is the return code. A class id out of range is an access outside \<open>slabclass\<close>
  (\<open>None\<close>): the code computes \<open>no_go\<close> but still grows the list of \<open>d_clsid\<close> and reads the
  source class.
\<close>

definition slab_rebalance_start :: "bool \<Rightarrow> slabs \<Rightarrow> slab_rebalance \<Rightarrow> (int \<times> slabs \<times> slab_rebalance) option" where
  "slab_rebalance_start realloc_succeeds s r =
     (if s_clsid r < 0 \<or> s_clsid r \<ge> int MAX_NUMBER_OF_SLAB_CLASSES \<or>
         d_clsid r < 0 \<or> d_clsid r \<ge> int MAX_NUMBER_OF_SLAB_CLASSES then None
      else let no_go0 = (if s_clsid r < int SLAB_GLOBAL_PAGE_POOL \<or> s_clsid r > int (power_largest s) \<or>
                            d_clsid r < int SLAB_GLOBAL_PAGE_POOL \<or> d_clsid r > int (power_largest s) \<or>
                            s_clsid r = d_clsid r then - 2 else 0);
               (grown, s1) = grow_slab_list realloc_succeeds (nat (d_clsid r)) s;
               no_go1 = (if \<not> grown then - 1 else no_go0);
               sc = cls s1 (nat (s_clsid r));
               no_go = (if slabs_n sc < 2 then - 3 else no_go1)
           in if no_go \<noteq> 0 then Some (no_go, s1, r)
              else let start = slab_list sc ! 0
                   in Some (0, s1, r\<lparr>slab_start := start, slab_end := start + sc_size sc * perslab sc,
                        slab_pos := start,
                        rebal_done := (if s_clsid r = int SLAB_GLOBAL_PAGE_POOL then 1 else 0),
                        completed := replicate (perslab sc) 0, slab_rebalance_signal := 2\<rparr>))"

section \<open>Chunks\<close>

text \<open>The loop takes at most \<open>perslab\<close> chunks off the free list; chunks of the page itself are marked free and dropped.\<close>

fun slab_rebalance_alloc_loop :: "settings \<Rightarrow> alloc_env \<Rightarrow> nat \<Rightarrow> nat \<Rightarrow> nat \<Rightarrow> heap \<Rightarrow> slabs \<Rightarrow> slab_rebalance \<Rightarrow>
    (ptr \<times> heap \<times> slabs \<times> slab_rebalance) option" where
  "slab_rebalance_alloc_loop st env 0 sz i m s r = Some (NULL, m, s, r)"
| "slab_rebalance_alloc_loop st env (Suc n) sz i m s r =
     (case do_slabs_alloc st env sz i SLABS_ALLOC_NO_NEWPAGE m s of
        None \<Rightarrow> None
      | Some (it, m1, s1) \<Rightarrow>
          if it = NULL then Some (NULL, m1, s1, r)
          else if it \<ge> slab_start r \<and> it < slab_end r
          then slab_rebalance_alloc_loop st env n sz i
                 (hupd it (\<lambda>x. x\<lparr>refcount := 0, it_flags := ITEM_SLABBED OR ITEM_FETCHED\<rparr>) m1) s1
                 (r\<lparr>inline_reclaim := inline_reclaim r + 1\<rparr>)
          else Some (it, m1, s1, r))"

definition slab_rebalance_alloc :: "settings \<Rightarrow> alloc_env \<Rightarrow> nat \<Rightarrow> nat \<Rightarrow> heap \<Rightarrow> slabs \<Rightarrow> slab_rebalance \<Rightarrow>
    (ptr \<times> heap \<times> slabs \<times> slab_rebalance) option" where
  "slab_rebalance_alloc st env sz i m s r =
     slab_rebalance_alloc_loop st env (perslab (cls s (nat (s_clsid r)))) sz i m s r"

definition slab_rebalance_cut_free :: "nat \<Rightarrow> ptr \<Rightarrow> heap \<Rightarrow> slabs \<Rightarrow> (heap \<times> slabs) option" where
  "slab_rebalance_cut_free i it m s =
     (if it_flags (m it) \<noteq> ITEM_SLABBED then None
      else let nxt = it_next (m it); prv = it_prev (m it);
               s1 = (if slots (cls s i) = it then upd_cls i (\<lambda>c. c\<lparr>slots := nxt\<rparr>) s else s);
               m1 = (if nxt \<noteq> NULL then hupd nxt (it_prev_update (\<lambda>_. prv)) m else m);
               m2 = (if prv \<noteq> NULL then hupd prv (it_next_update (\<lambda>_. nxt)) m1 else m1)
           in Some (m2, upd_cls i (\<lambda>c. c\<lparr>sl_curr := sl_curr c - 1\<rparr>) s1))"

section \<open>The end of a move\<close>

text \<open>
  The emptied page leaves the front of the source's page list and joins the destination's,
  which is either a class (the page is carved) or the global pool (memory may be released).
  Room in the destination's list was made when the move started; a list that has filled up
  since is written out of bounds (\<open>None\<close>).
\<close>

definition slab_rebalance_finish :: "settings \<Rightarrow> heap \<Rightarrow> slabs \<Rightarrow> slab_rebalance \<Rightarrow>
    (heap \<times> slabs \<times> slab_rebalance) option" where
  "slab_rebalance_finish st m s r =
     (let sc = nat (s_clsid r); dc = nat (d_clsid r); page = slab_start r;
          s1 = upd_cls sc (\<lambda>c. c\<lparr>slabs_n := slabs_n c - 1,
                  slab_list := take (slabs_n c - 1) (tl (slab_list c)) @ drop (slabs_n c - 1) (slab_list c)\<rparr>) s;
          s2 = add_page dc page s1;
          r' = r\<lparr>busy_loops := 0, rebal_done := 0, s_clsid := 0, d_clsid := 0, slab_start := NULL,
                 slab_end := NULL, slab_pos := NULL, evictions_nomem := 0, inline_reclaim := 0,
                 rescues := 0, chunk_rescues := 0, busy_deletes := 0, slab_rebalance_signal := 0,
                 completed := []\<rparr>
      in if slabs_n (cls s1 dc) \<ge> list_size (cls s1 dc) then None
         else if dc > SLAB_GLOBAL_PAGE_POOL
         then (case split_slab_page_into_freelist page dc (wipe page (slab_page_size st) m) s2 of
                 None \<Rightarrow> None
               | Some (m', s3) \<Rightarrow> Some (m', s3, r'))
         else Some (wipe page sizeof_item m, memory_release st (s2\<lparr>mem_limit_reached := False\<rparr>), r'))"

section \<open>Laws\<close>

text \<open>A source is picked at most once around the classes: it is never the destination and has a page to spare.\<close>

lemma slabs_reassign_pick_loop_ok:
  "slabs_reassign_pick_loop n s dst cur = (src, cur') \<Longrightarrow> src \<noteq> - 1 \<Longrightarrow> 1 \<le> power_largest s \<Longrightarrow>
   src \<noteq> dst \<and> 1 \<le> src \<and> src \<le> int (power_largest s) \<and> slabs_n (cls s (nat src)) > 1"
  by (induction n s dst cur rule: slabs_reassign_pick_loop.induct) (auto simp: Let_def nat_add_distrib split: if_splits)

lemma pick_next: "1 \<le> k \<Longrightarrow> c \<le> k \<Longrightarrow> (if c + 1 > k then 1 else c + 1) = c mod k + (1 :: nat)"
  by (cases "c = k") auto

lemma slabs_reassign_pick_loop_none:
  assumes "slabs_reassign_pick_loop n s dst cur = (- 1, cur')" "1 \<le> power_largest s" "cur \<le> power_largest s" "j < n"
    "int ((cur + j) mod power_largest s + 1) \<noteq> dst"
  shows "slabs_n (cls s ((cur + j) mod power_largest s + 1)) \<le> 1"
  using assms
proof (induction n arbitrary: cur j)
  case (Suc n)
  let ?k = "power_largest s"
  let ?c = "cur mod ?k + 1"
  have run: "(if int ?c = dst then slabs_reassign_pick_loop n s dst ?c
      else if slabs_n (cls s ?c) > 1 then (int ?c, ?c) else slabs_reassign_pick_loop n s dst ?c) = (- 1, cur')"
    using Suc.prems(1) pick_next [OF Suc.prems(2,3)] by (simp add: Let_def del: One_nat_def)
  show ?case
  proof (cases j)
    case 0
    then show ?thesis using run Suc.prems(5) by (auto split: if_splits)
  next
    case (Suc i)
    have step: "slabs_reassign_pick_loop n s dst ?c = (- 1, cur')" using run by (auto split: if_splits)
    have le: "?c \<le> ?k" using Suc.prems(2) by (simp add: Suc_leI)
    have eq: "(?c + i) mod ?k = (cur + j) mod ?k" using Suc by (simp add: mod_Suc_eq_mod_add3 [symmetric] del: mod_add_left_eq) (metis mod_Suc_eq mod_add_left_eq)
    show ?thesis using Suc.IH [OF step Suc.prems(2) le, of i] Suc.prems(4,5) Suc eq by simp
  qed
qed simp

lemma pick_covers:
  assumes "1 \<le> k" "i \<in> {1..k}"
  shows "\<exists>j<k. (cur + j) mod k + 1 = (i :: nat)"
proof -
  let ?j = "(i - 1 + (k - cur mod k)) mod k"
  have "(cur + ?j) mod k = (cur mod k + (i - 1 + (k - cur mod k))) mod k" by (simp add: mod_simps)
  also have "cur mod k + (i - 1 + (k - cur mod k)) = i - 1 + k"
    using mod_less_divisor [of k cur] assms(1) by linarith
  also have "(i - 1 + k) mod k = i - 1" unfolding mod_add_self2 by (rule mod_less) (use assms in auto)
  finally show ?thesis using assms by (intro exI [of _ ?j]) auto
qed

lemma slabs_reassign_pick_any_none:
  assumes "slabs_reassign_pick_any s dst cur = (- 1, cur')" "1 \<le> power_largest s" "cur \<le> power_largest s"
    "i \<in> {1..power_largest s}" "int i \<noteq> dst"
  shows "slabs_n (cls s i) \<le> 1"
proof -
  obtain j where j: "j < power_largest s" "(cur + j) mod power_largest s + 1 = i" using pick_covers [OF assms(2,4)] by blast
  show ?thesis
    using slabs_reassign_pick_loop_none [of "power_largest s" s dst cur cur' j] assms j
    by (simp add: slabs_reassign_pick_any_def)
qed

text \<open>Cutting a chunk out of the middle of its free list.\<close>

lemma slab_rebalance_cut_free_rep:
  assumes rep: "slabs_rep st m s F C" and i: "i \<in> {1..power_largest s}" and F: "F i = ys @ it # zs"
  shows "\<exists>m' s'. slab_rebalance_cut_free i it m s = Some (m', s') \<and> slabs_rep st m' s' (F(i := ys @ zs)) C"
proof -
  from slabs_repD(2) [OF rep i] F obtain t where
      q: "item_queue m (slots (cls s i)) t (ys @ it # zs)" and len: "sl_curr (cls s i) = length (ys @ it # zs)"
      and all: "\<forall>p\<in>set (ys @ it # zs). it_flags (m p) = ITEM_SLABBED \<and> slabs_clsid (m p) = of_nat i"
    by (auto simp: free_ok_def)
  define n where "n = it_next (m it)"
  define b where "b = it_prev (m it)"
  define m1 where "m1 = (if n \<noteq> NULL then hupd n (it_prev_update (\<lambda>_. b)) m else m)"
  define m2 where "m2 = (if b \<noteq> NULL then hupd b (it_next_update (\<lambda>_. n)) m1 else m1)"
  let ?f = "\<lambda>c. c\<lparr>slots := (if slots c = it then n else slots c), sl_curr := sl_curr c - 1\<rparr>"
  have d: "distinct (ys @ it # zs)" and nn: "NULL \<notin> set (ys @ zs)"
    using item_queue_distinct [OF q] item_queue_nonnull [OF q] by auto
  have nb: "n = (if zs = [] then NULL else hd zs)" "b = (if ys = [] then NULL else last ys)"
    using item_queue_neighbours [OF q] by (simp_all add: n_def b_def)
  have ns: "n \<noteq> NULL \<Longrightarrow> n \<in> set zs" and bs: "b \<noteq> NULL \<Longrightarrow> b \<in> set ys" using nb by (auto split: if_splits)
  have il: "i < length (slabclass s)" using classes_okD(1,3) [OF slabs_repD(1) [OF rep]] i by simp
  have "item_queue m2 (if slots (cls s i) = it then it_next (m it) else slots (cls s i))
      (if t = it then it_prev (m it) else t) (ys @ zs)"
    by (rule item_queue_remove [OF q])
      (use nn ns bs d in \<open>auto simp: m2_def m1_def hupd_apply n_def [symmetric] b_def [symmetric]\<close>)
  moreover have "it_flags (m2 p) = it_flags (m p)" "slabs_clsid (m2 p) = slabs_clsid (m p)" for p
    by (simp_all add: m2_def m1_def hupd_apply)
  ultimately have fo: "free_ok m2 (?f (cls s i)) i (ys @ zs)"
    using all len by (auto simp: free_ok_def n_def)
  have other: "m2 p = m p" if "j \<in> {1..power_largest s}" "j \<noteq> i" "p \<in> set (F j)" for j p
  proof -
    have "p \<notin> set (F i)" using free_lists_disjoint [OF rep i that(1) _ that(3)] that(2) by auto
    then show ?thesis using F ns bs by (auto simp: m2_def m1_def hupd_apply)
  qed
  have "slabs_rep st m2 (upd_cls i ?f s) (F(i := ys @ zs)) C"
    by (rule slabs_rep_set_free [OF rep i, where f = ?f and m' = m2 and xs = "ys @ zs", OF _ fo])
      (use slabs_repD(3) [OF rep i] F other in \<open>auto simp: same_geometry_def\<close>)
  moreover have "slab_rebalance_cut_free i it m s = Some (m2, upd_cls i ?f s)"
    using all il unfolding slab_rebalance_cut_free_def Let_def n_def [symmetric] b_def [symmetric]
      m1_def [symmetric] m2_def [symmetric] by (simp add: upd_cls_def)
  ultimately show ?thesis by blast
qed

section \<open>Properties\<close>

definition idle_rebal :: slab_rebalance where
  "idle_rebal = \<lparr>slab_start = NULL, slab_end = NULL, slab_pos = NULL, s_clsid = 0, d_clsid = 0, busy_items = 0,
     rescues = 0, evictions_nomem = 0, inline_reclaim = 0, chunk_rescues = 0, busy_deletes = 0, busy_loops = 0,
     rebal_done = 0, completed = [], slab_rebalance_signal = 0, pick_cur = 0\<rparr>"

definition sample_two_classes :: slabs where
  "sample_two_classes =
     \<lparr>slabclass = [zero_slabclass,
        zero_slabclass\<lparr>sc_size := 96, perslab := 2, slabs_n := 2, slab_list := 1000 # 2000 # replicate 14 NULL, list_size := 16\<rparr>,
        zero_slabclass\<lparr>sc_size := 200, perslab := 1, slabs_n := 15, slab_list := replicate 15 9000 @ [NULL], list_size := 16\<rparr>],
      mem_limit = 0, mem_malloced = 0, mem_limit_reached = False, power_largest = 2, mem_base = NULL,
      mem_current = NULL, mem_avail = 0\<rparr>"



text \<open>C22: Room for the moved page is only made when the move starts. If the destination's page list has one free entry then, and
  the destination takes a page of its own before the move ends, the end of the move writes behind the end of the list.\<close>

theorem slab_rebalance_finish_overflow:
  assumes "slab_rebalance_start ok s r = Some (0, s1, r1)"
    and "slabs_n (cls s (nat (d_clsid r))) + 1 = list_size (cls s (nat (d_clsid r)))"
    and "nat (d_clsid r) < length (slabclass s)" and "nat (d_clsid r) \<noteq> 0"
    and "do_slabs_newslab st env (nat (d_clsid r)) m1 s1 = Some (True, m2, s2)"
  shows "slab_rebalance_finish st m s2 r1 = None"
proof -
  let ?d = "nat (d_clsid r)"
  have g: "grow_slab_list b ?d s = (True, s)" for b using assms(2) by (simp add: grow_slab_list_def Let_def)
  have s1: "s1 = s" "d_clsid r1 = d_clsid r" "s_clsid r1 = s_clsid r" "s_clsid r \<noteq> d_clsid r" "0 \<le> s_clsid r" "0 \<le> d_clsid r"
    using assms(1) g by (auto simp: slab_rebalance_start_def Let_def split: if_splits)
  have ne: "nat (s_clsid r) \<noteq> ?d" using s1(4-6) by auto
  obtain p s3 m3 s4 where sp: "split_slab_page_into_freelist p ?d m3 s3 = Some (m2, s4)" "s2 = add_page ?d p s4"
    and s3: "cls s3 ?d = cls s ?d" "length (slabclass s3) = length (slabclass s)"
  proof -
    obtain p0 s' where gp: "get_page_from_global_pool s = (p0, s')" by fastforce
    obtain p s3 where pg: "(if p0 \<noteq> NULL then (p0, s') else memory_allocate (malloc_ret env) (slab_page_len st s ?d) s') = (p, s3)"
      by fastforce
    have "cls s3 ?d = cls s ?d \<and> length (slabclass s3) = length (slabclass s)"
      using gp pg assms(4) by (auto simp: get_page_from_global_pool_def memory_allocate_def Let_def upd_cls_def split: if_splits)
    moreover have "\<exists>m3 s4. split_slab_page_into_freelist p ?d m3 s3 = Some (m2, s4) \<and> s2 = add_page ?d p s4"
      using assms(5) gp pg g unfolding s1(1)
      by (auto simp: do_slabs_newslab_def Let_def split: if_splits option.splits)
    ultimately show thesis using that by blast
  qed
  have fr: "slab_frame s3 s4" using split_slab_page_frame [OF sp(1)] .
  have l4: "?d < length (slabclass s4)" using fr s3(2) assms(3) by (simp add: slab_frame_def)
  have "slabs_n (cls s2 ?d) = list_size (cls s2 ?d)"
    using fr s3(1) l4 assms(2) sp(2) by (simp add: slab_frame_def add_page_def cls_upd_cls)
  then have "slabs_n (cls (upd_cls (nat (s_clsid r1)) f s2) ?d) \<ge> list_size (cls (upd_cls (nat (s_clsid r1)) f s2) ?d)" for f
    using ne s1(3) by (simp add: upd_cls_def)
  then show ?thesis using s1(2,3) by (simp add: slab_rebalance_finish_def Let_def)
qed

definition sample_request :: slab_rebalance where
  "sample_request = idle_rebal\<lparr>s_clsid := 1, d_clsid := 2, slab_rebalance_signal := 1\<rparr>"

definition sample_rebal_settings :: settings where
  "sample_rebal_settings = sample_settings\<lparr>slab_page_size := 200, slab_chunk_size_max := 200\<rparr>"

theorem slab_rebalance_finish_overflow_witness:
  "\<exists>s1 r1 m2 s2. slab_rebalance_start True sample_two_classes sample_request = Some (0, s1, r1) \<and>
     do_slabs_newslab sample_rebal_settings \<lparr>realloc_ok = True, malloc_ret = 5000\<rparr> 2 (\<lambda>_. zero_item) s1 = Some (True, m2, s2) \<and>
     slab_rebalance_finish sample_rebal_settings m2 s2 r1 = None"
proof -
  obtain r1 where st: "slab_rebalance_start True sample_two_classes sample_request = Some (0, sample_two_classes, r1)"
    by (simp add: slab_rebalance_start_def sample_two_classes_def sample_request_def idle_rebal_def zero_slabclass_def
      grow_slab_list_def Let_def)
  obtain m2 s2 where nw: "do_slabs_newslab sample_rebal_settings \<lparr>realloc_ok = True, malloc_ret = 5000\<rparr> 2 (\<lambda>_. zero_item) sample_two_classes =
      Some (True, m2, s2)"
    by (simp add: do_slabs_newslab_def slab_page_len_def grow_slab_list_def get_page_from_global_pool_def memory_allocate_def
      split_slab_page_into_freelist_def do_slabs_free_def push_free_def upd_cls_def add_page_def wipe_def hupd_def Let_def
      zero_item_def zero_slabclass_def has_flag_def sample_two_classes_def sample_rebal_settings_def sample_settings_def)
  have "slab_rebalance_finish sample_rebal_settings m2 s2 r1 = None"
    by (rule slab_rebalance_finish_overflow [OF st _ _ _, of _ "\<lparr>realloc_ok = True, malloc_ret = 5000\<rparr>" "\<lambda>_. zero_item"])
      (use nw in \<open>simp_all add: sample_request_def idle_rebal_def sample_two_classes_def zero_slabclass_def\<close>)
  with st nw show ?thesis by blast
qed

end
