(* ===== verification/Items.thy ===== *)
theory Items
  imports Assoc Slab_Rebalance "HOL-Library.Monad_Syntax"
begin

text \<open>
  The item layer of \<^verbatim>\<open>items.c\<close>: allocation with eviction, linking into the hash table and the LRU
  queues, reference counts, lookup with lazy expiration, the segmented LRU and its maintenance,
  and the crawler's moves within a queue. The state \<open>mc\<close> gathers the globals of the item, hash and slab layers.
  Locks are atomicity; what a lock attempt, \<open>malloc\<close> or the bump buffer answers is an argument. A failed
  \<open>assert\<close> and a loop that does not end are \<open>None\<close>. Objects of external storage are not part of the state,
  so \<open>STORAGE_delete\<close> has no effect here.
\<close>

section \<open>State\<close>

record itemstats_t =
  evicted :: u64
  evicted_nonzero :: u64
  reclaimed :: u64
  outofmemory :: u64
  tailrepairs :: u64
  expired_unfetched :: u64
  evicted_unfetched :: u64
  evicted_active :: u64
  crawler_reclaimed :: u64
  crawler_items_checked :: u64
  lrutail_reflocked :: u64
  moves_to_cold :: u64
  moves_to_warm :: u64
  moves_within_lru :: u64
  direct_reclaims :: u64
  evicted_time :: u32

text \<open>
  The arrays indexed by \<open>slabs_clsid\<close> have 256 entries, one for every value of the byte: slab class
  and LRU segment together. \<open>bump_bufs\<close> are the linked buffers of asynchronous LRU bumps, one per worker thread.
\<close>

record lru_bump_buf =
  bump_entries :: "(ptr \<times> u32) list"
  dropped :: u64

record mc =
  mem :: heap
  ht :: assoc
  sl :: slabs
  rebal :: slab_rebalance
  cfg :: settings
  current_time :: u32
  heads :: "u8 \<Rightarrow> ptr"
  tails :: "u8 \<Rightarrow> ptr"
  lru_sizes :: "u8 \<Rightarrow> u32"
  sizes_bytes :: "u8 \<Rightarrow> u64"
  itemstats :: "u8 \<Rightarrow> itemstats_t"
  stats_sizes_hist :: "u32 list option"
  stats_sizes_cas_min :: u64
  cas_id :: u64
  curr_bytes :: u64
  curr_items :: u64
  total_items :: u64
  get_flushed :: u64
  get_expired :: u64
  bump_bufs :: "lru_bump_buf list"

abbreviation (input) HOT_LRU :: u8 where "HOT_LRU \<equiv> 0"
abbreviation (input) WARM_LRU :: u8 where "WARM_LRU \<equiv> 64"
abbreviation (input) COLD_LRU :: u8 where "COLD_LRU \<equiv> 128"
abbreviation (input) TEMP_LRU :: u8 where "TEMP_LRU \<equiv> 192"

abbreviation (input) LRU_PULL_EVICT :: u8 where "LRU_PULL_EVICT \<equiv> 1"
abbreviation (input) LRU_PULL_CRAWL_BLOCKS :: u8 where "LRU_PULL_CRAWL_BLOCKS \<equiv> 2"
abbreviation (input) LRU_PULL_RETURN_ITEM :: u8 where "LRU_PULL_RETURN_ITEM \<equiv> 4"

abbreviation (input) ITEM_UPDATE_INTERVAL :: u32 where "ITEM_UPDATE_INTERVAL \<equiv> 60"

text \<open>The item at an address, an update of one item, an update of one statistics entry.\<close>

abbreviation item_at :: "mc \<Rightarrow> ptr \<Rightarrow> item" where "item_at c p \<equiv> mem c p"

definition upd_item :: "ptr \<Rightarrow> (item \<Rightarrow> item) \<Rightarrow> mc \<Rightarrow> mc" where
  "upd_item p f c = c\<lparr>mem := hupd p f (mem c)\<rparr>"

definition upd_stats :: "u8 \<Rightarrow> (itemstats_t \<Rightarrow> itemstats_t) \<Rightarrow> mc \<Rightarrow> mc" where
  "upd_stats i f c = c\<lparr>itemstats := (itemstats c)(i := f (itemstats c i))\<rparr>"

section \<open>CAS ids, expiry\<close>

definition get_cas_id :: "mc \<Rightarrow> u64 \<times> mc" where
  "get_cas_id c = (cas_id c + 1, c\<lparr>cas_id := cas_id c + 1\<rparr>)"

definition set_cas_id :: "u64 \<Rightarrow> mc \<Rightarrow> mc" where
  "set_cas_id v c = c\<lparr>cas_id := v\<rparr>"

definition item_is_flushed :: "settings \<Rightarrow> u32 \<Rightarrow> item \<Rightarrow> bool" where
  "item_is_flushed st now it =
     (if oldest_live st = 0 \<or> oldest_live st > now then False
      else it_time it \<le> oldest_live st \<or>
           (oldest_cas st \<noteq> 0 \<and> ITEM_get_cas it \<noteq> 0 \<and> ITEM_get_cas it < oldest_cas st))"

definition do_get_lru_size :: "u8 \<Rightarrow> mc \<Rightarrow> u32" where
  "do_get_lru_size i c = lru_sizes c i"

definition do_item_stats_add_crawl :: "u8 \<Rightarrow> u64 \<Rightarrow> u64 \<Rightarrow> u64 \<Rightarrow> mc \<Rightarrow> mc" where
  "do_item_stats_add_crawl i recl unfetched checked c =
     upd_stats i (\<lambda>s. s\<lparr>crawler_reclaimed := crawler_reclaimed s + recl,
       expired_unfetched := expired_unfetched s + unfetched,
       crawler_items_checked := crawler_items_checked s + checked\<rparr>) c"

section \<open>Size histogram\<close>

definition sizes_bucket :: "item \<Rightarrow> nat" where
  "sizes_bucket it = (let n = unat (ucast (ITEM_ntotal it) :: u32)
                      in if n mod 32 \<noteq> 0 then n div 32 + 1 else n div 32)"

definition item_stats_sizes_init :: "bool \<Rightarrow> mc \<Rightarrow> mc" where
  "item_stats_sizes_init calloc_ok c =
     (if stats_sizes_hist c \<noteq> None then c
      else let buckets = item_size_max (cfg c) div 32 + 1;
               (v, c1) = (if use_cas (cfg c) then get_cas_id c else (0, c))
           in c1\<lparr>stats_sizes_hist := (if calloc_ok then Some (replicate buckets 0) else None),
                 stats_sizes_cas_min := v\<rparr>)"

definition item_stats_sizes_change :: "(u32 \<Rightarrow> u32) \<Rightarrow> ptr \<Rightarrow> mc \<Rightarrow> mc" where
  "item_stats_sizes_change f p c =
     (case stats_sizes_hist c of
        None \<Rightarrow> c
      | Some h \<Rightarrow>
          if stats_sizes_cas_min c > ITEM_get_cas (item_at c p) then c
          else let b = sizes_bucket (item_at c p)
               in if b < length h then c\<lparr>stats_sizes_hist := Some (h[b := f (h ! b)])\<rparr> else c)"

definition item_stats_sizes_add :: "ptr \<Rightarrow> mc \<Rightarrow> mc" where
  "item_stats_sizes_add p c = item_stats_sizes_change (\<lambda>x. x + 1) p c"

definition item_stats_sizes_remove :: "ptr \<Rightarrow> mc \<Rightarrow> mc" where
  "item_stats_sizes_remove p c = item_stats_sizes_change (\<lambda>x. x - 1) p c"

section \<open>LRU queues\<close>

definition lru_bytes :: "item \<Rightarrow> u64" where
  "lru_bytes it = (if has_flag ITEM_HDR it
                   then (ITEM_ntotal it - of_int (nbytes it)) + of_nat sizeof_item_hdr
                   else ITEM_ntotal it)"

definition do_item_link_q :: "ptr \<Rightarrow> mc \<Rightarrow> mc option" where
  "do_item_link_q it c =
     (let i = slabs_clsid (item_at c it); h = heads c i; t = tails c i
      in if has_flag ITEM_SLABBED (item_at c it) \<or> it = h \<or>
            \<not> ((h \<noteq> NULL \<and> t \<noteq> NULL) \<or> (h = NULL \<and> t = NULL)) then None
         else let m1 = hupd it (\<lambda>x. x\<lparr>it_prev := NULL, it_next := h\<rparr>) (mem c);
                  m2 = (if h \<noteq> NULL then hupd h (it_prev_update (\<lambda>_. it)) m1 else m1)
              in Some (c\<lparr>mem := m2, heads := (heads c)(i := it),
                         tails := (tails c)(i := (if t = NULL then it else t)),
                         lru_sizes := (lru_sizes c)(i := lru_sizes c i + 1),
                         sizes_bytes := (sizes_bytes c)(i := sizes_bytes c i + lru_bytes (item_at c it))\<rparr>))"

definition item_link_q :: "ptr \<Rightarrow> mc \<Rightarrow> mc option" where
  "item_link_q it c = do_item_link_q it c"

definition item_link_q_warm :: "ptr \<Rightarrow> mc \<Rightarrow> mc option" where
  "item_link_q_warm it c = do {
     c1 \<leftarrow> do_item_link_q it c;
     Some (upd_stats (slabs_clsid (item_at c it)) (\<lambda>s. s\<lparr>moves_to_warm := moves_to_warm s + 1\<rparr>) c1) }"

text \<open>Taking an item off its queue, without the counters: shared by \<open>do_item_unlink_q\<close> and the crawler's \<open>do_item_unlinktail_q\<close>.\<close>

definition unlink_pointers :: "ptr \<Rightarrow> mc \<Rightarrow> mc option" where
  "unlink_pointers it c =
     (let i = slabs_clsid (item_at c it); n = it_next (item_at c it); b = it_prev (item_at c it)
      in if (heads c i = it \<and> b \<noteq> NULL) \<or> (tails c i = it \<and> n \<noteq> NULL) \<or> n = it \<or> b = it then None
         else let m1 = (if n \<noteq> NULL then hupd n (it_prev_update (\<lambda>_. b)) (mem c) else mem c);
                  m2 = (if b \<noteq> NULL then hupd b (it_next_update (\<lambda>_. n)) m1 else m1)
              in Some (c\<lparr>mem := m2,
                         heads := (if heads c i = it then (heads c)(i := n) else heads c),
                         tails := (if tails c i = it then (tails c)(i := b) else tails c)\<rparr>))"

definition do_item_unlink_q :: "ptr \<Rightarrow> mc \<Rightarrow> mc option" where
  "do_item_unlink_q it c = do {
     c1 \<leftarrow> unlink_pointers it c;
     let i = slabs_clsid (item_at c it);
     Some (c1\<lparr>lru_sizes := (lru_sizes c1)(i := lru_sizes c1 i - 1),
              sizes_bytes := (sizes_bytes c1)(i := sizes_bytes c1 i - lru_bytes (item_at c it))\<rparr>) }"

definition item_unlink_q :: "ptr \<Rightarrow> mc \<Rightarrow> mc option" where
  "item_unlink_q it c = do_item_unlink_q it c"

section \<open>Freeing and reference counts\<close>

definition item_free :: "ptr \<Rightarrow> mc \<Rightarrow> mc option" where
  "item_free it c =
     (let x = item_at c it
      in if has_flag ITEM_LINKED x \<or> it = heads c (slabs_clsid x) \<or> it = tails c (slabs_clsid x) \<or> refcount x \<noteq> 0 then None
         else do {
           (m', s') \<leftarrow> do_slabs_free it (unat (ITEM_clsid x)) (mem c) (sl c);
           Some (c\<lparr>mem := m', sl := s'\<rparr>) })"

definition do_item_remove :: "ptr \<Rightarrow> mc \<Rightarrow> mc option" where
  "do_item_remove it c =
     (if has_flag ITEM_SLABBED (item_at c it) \<or> refcount (item_at c it) = 0 then None
      else let c1 = upd_item it (\<lambda>x. x\<lparr>refcount := refcount x - 1\<rparr>) c
           in if refcount (item_at c1 it) = 0 then item_free it c1 else Some c1)"

section \<open>Linking\<close>

definition do_item_link :: "ptr \<Rightarrow> u32 \<Rightarrow> mc \<Rightarrow> mc option" where
  "do_item_link it hv c =
     (if it_flags (item_at c it) AND (ITEM_LINKED OR ITEM_SLABBED) \<noteq> 0 then None
      else let c1 = upd_item it (\<lambda>x. (set_flag ITEM_LINKED x)\<lparr>it_time := current_time c\<rparr>) c;
               c2 = c1\<lparr>curr_bytes := curr_bytes c1 + ITEM_ntotal (item_at c1 it),
                       curr_items := curr_items c1 + 1, total_items := total_items c1 + 1\<rparr>;
               (v, c3) = (if use_cas (cfg c2) then get_cas_id c2 else (0, c2));
               c4 = upd_item it (ITEM_set_cas v) c3;
               (m5, a5) = assoc_insert it hv (mem c4) (ht c4)
           in do {
                c6 \<leftarrow> item_link_q it (c4\<lparr>mem := m5, ht := a5\<rparr>);
                let c7 = upd_item it (\<lambda>x. x\<lparr>refcount := refcount x + 1\<rparr>) c6;
                Some (item_stats_sizes_add it c7) })"

text \<open>\<open>do_item_unlink\<close> and \<open>do_item_unlink_nolock\<close> differ in who takes the LRU lock.\<close>

definition do_item_unlink :: "ptr \<Rightarrow> u32 \<Rightarrow> mc \<Rightarrow> mc option" where
  "do_item_unlink it hv c =
     (if has_flag ITEM_LINKED (item_at c it)
      then let c1 = upd_item it (clear_flag ITEM_LINKED) c;
               c2 = c1\<lparr>curr_bytes := curr_bytes c1 - ITEM_ntotal (item_at c1 it),
                       curr_items := curr_items c1 - 1\<rparr>;
               c3 = item_stats_sizes_remove it c2
           in do {
                (m4, a4) \<leftarrow> assoc_delete (ITEM_key (item_at c3 it)) (unat (nkey (item_at c3 it))) hv (mem c3) (ht c3);
                c5 \<leftarrow> item_unlink_q it (c3\<lparr>mem := m4, ht := a4\<rparr>);
                do_item_remove it c5 }
      else Some c)"

definition do_item_unlink_nolock :: "ptr \<Rightarrow> u32 \<Rightarrow> mc \<Rightarrow> mc option" where
  "do_item_unlink_nolock it hv c =
     (if has_flag ITEM_LINKED (item_at c it)
      then let c1 = upd_item it (clear_flag ITEM_LINKED) c;
               c2 = c1\<lparr>curr_bytes := curr_bytes c1 - ITEM_ntotal (item_at c1 it),
                       curr_items := curr_items c1 - 1\<rparr>;
               c3 = item_stats_sizes_remove it c2
           in do {
                (m4, a4) \<leftarrow> assoc_delete (ITEM_key (item_at c3 it)) (unat (nkey (item_at c3 it))) hv (mem c3) (ht c3);
                c5 \<leftarrow> do_item_unlink_q it (c3\<lparr>mem := m4, ht := a4\<rparr>);
                do_item_remove it c5 }
      else Some c)"

definition do_item_replace :: "ptr \<Rightarrow> ptr \<Rightarrow> u32 \<Rightarrow> mc \<Rightarrow> mc option" where
  "do_item_replace it new_it hv c =
     (if has_flag ITEM_SLABBED (item_at c it) then None
      else do { c1 \<leftarrow> do_item_unlink it hv c; do_item_link new_it hv c1 })"

definition do_item_update :: "ptr \<Rightarrow> mc \<Rightarrow> mc option" where
  "do_item_update it c =
     (if lru_segmented (cfg c)
      then (if has_flag ITEM_SLABBED (item_at c it) then None
            else if has_flag ITEM_LINKED (item_at c it)
            then (if ITEM_lruid (item_at c it) = COLD_LRU \<and> has_flag ITEM_ACTIVE (item_at c it)
                  then do {
                    c1 \<leftarrow> item_unlink_q it (upd_item it (it_time_update (\<lambda>_. current_time c)) c);
                    item_link_q_warm it (upd_item it (\<lambda>x. clear_flag ITEM_ACTIVE
                      (x\<lparr>slabs_clsid := ITEM_clsid x OR WARM_LRU\<rparr>)) c1) }
                  else Some (upd_item it (it_time_update (\<lambda>_. current_time c)) c))
            else Some c)
      else if it_time (item_at c it) < current_time c - ITEM_UPDATE_INTERVAL
      then (if has_flag ITEM_SLABBED (item_at c it) then None
            else if has_flag ITEM_LINKED (item_at c it)
            then do {
              c1 \<leftarrow> item_unlink_q it (upd_item it (it_time_update (\<lambda>_. current_time c)) c);
              item_link_q it c1 }
            else Some c)
      else Some c)"

text \<open>The fix-up of one item at a warm restart: its queue pointers are already right.\<close>

definition do_item_link_fixup :: "hash_fn \<Rightarrow> ptr \<Rightarrow> mc \<Rightarrow> mc" where
  "do_item_link_fixup hash it c =
     (let x = item_at c it; i = slabs_clsid x; n = ITEM_ntotal x;
          (m1, a1) = assoc_insert it (hash (ITEM_key x) (unat (nkey x))) (mem c) (ht c)
      in item_stats_sizes_add it
           (c\<lparr>mem := m1, ht := a1,
              heads := (if it_prev x = NULL \<and> heads c i = NULL then (heads c)(i := it) else heads c),
              tails := (if it_next x = NULL \<and> tails c i = NULL then (tails c)(i := it) else tails c),
              lru_sizes := (lru_sizes c)(i := lru_sizes c i + 1),
              sizes_bytes := (sizes_bytes c)(i := sizes_bytes c i + scast (ucast n :: u32)),
              curr_bytes := curr_bytes c + scast (ucast n :: u32), curr_items := curr_items c + 1,
              total_items := total_items c + 1\<rparr>))"

section \<open>Lookup\<close>

text \<open>
  The connection's thread gives the buffer: its number, and whether \<open>bipbuf_request\<close> and \<open>bipbuf_push\<close> find room for one more
  entry. There is no buffer with a number out of range (\<open>None\<close>).
\<close>

definition upd_bump :: "nat \<Rightarrow> (lru_bump_buf \<Rightarrow> lru_bump_buf) \<Rightarrow> mc \<Rightarrow> mc" where
  "upd_bump j f c = c\<lparr>bump_bufs := (bump_bufs c)[j := f (bump_bufs c ! j)]\<rparr>"

definition lru_bump_async :: "nat \<times> bool \<Rightarrow> ptr \<Rightarrow> u32 \<Rightarrow> mc \<Rightarrow> (bool \<times> mc) option" where
  "lru_bump_async b it hv c =
     (if length (bump_bufs c) \<le> fst b then None
      else let c1 = upd_item it (\<lambda>x. x\<lparr>refcount := refcount x + 1\<rparr>) c
           in if snd b then Some (True, upd_bump (fst b) (\<lambda>y. y\<lparr>bump_entries := bump_entries y @ [(it, hv)]\<rparr>) c1)
              else Some (False, upd_item it (\<lambda>x. x\<lparr>refcount := refcount x - 1\<rparr>)
                                  (upd_bump (fst b) (\<lambda>y. y\<lparr>dropped := dropped y + 1\<rparr>) c1)))"

definition do_item_bump :: "nat \<times> bool \<Rightarrow> ptr \<Rightarrow> u32 \<Rightarrow> mc \<Rightarrow> mc option" where
  "do_item_bump bump_ok it hv c =
     (if lru_segmented (cfg c)
      then (if \<not> has_flag ITEM_ACTIVE (item_at c it)
            then (if \<not> has_flag ITEM_FETCHED (item_at c it) then Some (upd_item it (set_flag ITEM_FETCHED) c)
                  else let c1 = upd_item it (set_flag ITEM_ACTIVE) c
                       in if ITEM_lruid (item_at c1 it) \<noteq> COLD_LRU
                          then Some (upd_item it (it_time_update (\<lambda>_. current_time c1)) c1)
                          else do { (queued, c2) \<leftarrow> lru_bump_async bump_ok it hv c1;
                                    Some (if queued then c2 else upd_item it (clear_flag ITEM_ACTIVE) c2) })
            else Some c)
      else do_item_update it (upd_item it (set_flag ITEM_FETCHED) c))"

definition do_item_get :: "nat \<times> bool \<Rightarrow> byte list \<Rightarrow> nat \<Rightarrow> u32 \<Rightarrow> bool \<Rightarrow> mc \<Rightarrow> (ptr \<times> mc) option" where
  "do_item_get bump_ok key nk hv do_update c = do {
     it \<leftarrow> assoc_find key nk hv (mem c) (ht c);
     if it = NULL then Some (NULL, c)
     else do {
       let c1 = upd_item it (\<lambda>x. x\<lparr>refcount := refcount x + 1\<rparr>) c;
       let x = item_at c1 it;
       if item_is_flushed (cfg c1) (current_time c1) x
       then do {
         c2 \<leftarrow> do_item_unlink it hv c1;
         c3 \<leftarrow> do_item_remove it c2;
         Some (NULL, c3\<lparr>get_flushed := get_flushed c3 + 1\<rparr>) }
       else if exptime x \<noteq> 0 \<and> exptime x \<le> current_time c1
       then do {
         c2 \<leftarrow> do_item_unlink it hv c1;
         c3 \<leftarrow> do_item_remove it c2;
         Some (NULL, c3\<lparr>get_expired := get_expired c3 + 1\<rparr>) }
       else do {
         c2 \<leftarrow> (if do_update then do_item_bump bump_ok it hv c1 else Some c1);
         Some (it, c2) } } }"

definition do_item_touch :: "nat \<times> bool \<Rightarrow> byte list \<Rightarrow> nat \<Rightarrow> u32 \<Rightarrow> u32 \<Rightarrow> mc \<Rightarrow> (ptr \<times> mc) option" where
  "do_item_touch bump_ok key nk exp hv c = do {
     (it, c1) \<leftarrow> do_item_get bump_ok key nk hv True c;
     Some (it, if it \<noteq> NULL then upd_item it (exptime_update (\<lambda>_. exp)) c1 else c1) }"

section \<open>Pulling from the tail of an LRU\<close>

definition is_crawler :: "item \<Rightarrow> bool" where
  "is_crawler x \<longleftrightarrow> nbytes x = 0 \<and> nkey x = 0 \<and> it_flags x = 1"

text \<open>
  What one turn of the search decides: go on to the next item, or stop with an item to finish
  with (and the segment to move it to, 0 for none) and possibly an item handed to the caller.
\<close>

datatype pull_turn = Pull_on nat mc | Pull_stop ptr u8 nat "(ptr \<times> u32) option" mc

definition pull_limit :: "u8 \<Rightarrow> u64 \<Rightarrow> settings \<Rightarrow> u64" where
  "pull_limit cur_lru total_bytes st =
     (let hot = (if cur_lru = HOT_LRU then total_bytes * ucast (hot_lru_pct st) div 100 else 0)
      in if hot = 0 then total_bytes * ucast (warm_lru_pct st) div 100 else hot)"

text \<open>One turn on an item whose lock was obtained; \<open>reassign_lock\<close> answers the rebalancer's lock attempt.\<close>

definition lru_pull_turn :: "bool \<Rightarrow> u8 \<Rightarrow> u8 \<Rightarrow> u64 \<Rightarrow> u8 \<Rightarrow> u32 \<Rightarrow> ptr \<Rightarrow> u32 \<Rightarrow> nat \<Rightarrow> mc \<Rightarrow> pull_turn option" where
  "lru_pull_turn reassign_lock orig_id cur_lru total_bytes flags max_age search hv removed c0 =
     (let i = orig_id OR cur_lru;
          c1 = upd_item search (\<lambda>x. x\<lparr>refcount := refcount x + 1\<rparr>) c0;
          busy = refcount (item_at c1 search) \<noteq> 2;
          c = (if busy then upd_stats i (\<lambda>s. s\<lparr>lrutail_reflocked := lrutail_reflocked s + 1\<rparr>) c1 else c1);
          x = item_at c search
      in if busy \<and> tail_repair_time (cfg c) \<noteq> 0 \<and> it_time x + tail_repair_time (cfg c) < current_time c
         then do {
           c2 \<leftarrow> do_item_unlink_nolock search hv
                  (upd_item search (\<lambda>x. x\<lparr>refcount := 1\<rparr>)
                    (upd_stats i (\<lambda>s. s\<lparr>tailrepairs := tailrepairs s + 1\<rparr>) c));
           Some (Pull_on removed c2) }
         else if (exptime x \<noteq> 0 \<and> exptime x < current_time c) \<or> item_is_flushed (cfg c) (current_time c) x
         then do {
           c2 \<leftarrow> do_item_unlink_nolock search hv
                  (upd_stats i (\<lambda>s. s\<lparr>reclaimed := reclaimed s + 1,
                     expired_unfetched := expired_unfetched s + (if has_flag ITEM_FETCHED x then 0 else 1)\<rparr>) c);
           c3 \<leftarrow> do_item_remove search c2;
           Some (Pull_on (removed + 1) c3) }
         else if cur_lru = HOT_LRU \<or> cur_lru = WARM_LRU
         then (if has_flag ITEM_ACTIVE x
               then let c2 = upd_item search (clear_flag ITEM_ACTIVE) c
                    in if cur_lru = WARM_LRU
                       then do {
                         c3 \<leftarrow> do_item_unlink_q search (upd_stats i (\<lambda>s. s\<lparr>moves_within_lru := moves_within_lru s + 1\<rparr>) c2);
                         c4 \<leftarrow> do_item_link_q search c3;
                         c5 \<leftarrow> do_item_remove search c4;
                         Some (Pull_on (removed + 1) c5) }
                       else do {
                         c3 \<leftarrow> do_item_unlink_q search (upd_stats i (\<lambda>s. s\<lparr>moves_to_warm := moves_to_warm s + 1\<rparr>) c2);
                         Some (Pull_stop search WARM_LRU (removed + 1) None c3) }
               else if sizes_bytes c i > pull_limit cur_lru total_bytes (cfg c) \<or> current_time c - it_time x > max_age
               then do {
                 c3 \<leftarrow> do_item_unlink_q search (upd_stats i (\<lambda>s. s\<lparr>moves_to_cold := moves_to_cold s + 1\<rparr>) c);
                 Some (Pull_stop search COLD_LRU (removed + 1) None c3) }
               else Some (Pull_stop search 0 removed None c))
         else if cur_lru = COLD_LRU
         then (if flags AND LRU_PULL_EVICT \<noteq> 0
               then (if \<not> evict_to_free (cfg c) then Some (Pull_stop search 0 removed None c)
                     else let c2 = upd_stats i (\<lambda>s. s\<lparr>evicted := evicted s + 1,
                                evicted_time := current_time c - it_time x,
                                evicted_nonzero := evicted_nonzero s + (if exptime x \<noteq> 0 then 1 else 0),
                                evicted_unfetched := evicted_unfetched s + (if has_flag ITEM_FETCHED x then 0 else 1),
                                evicted_active := evicted_active s + (if has_flag ITEM_ACTIVE x then 1 else 0)\<rparr>) c
                          in do {
                            c3 \<leftarrow> do_item_unlink_nolock search hv c2;
                            let c4 = (if slab_automove (cfg c3) = 2
                                      then c3\<lparr>rebal := snd (slabs_reassign reassign_lock (- 1) (int (unat orig_id)) (sl c3) (rebal c3))\<rparr>
                                      else c3);
                            Some (Pull_stop search 0 (removed + 1) None c4) })
               else if flags AND LRU_PULL_RETURN_ITEM \<noteq> 0 then Some (Pull_stop search 0 removed (Some (search, hv)) c)
               else if has_flag ITEM_ACTIVE x \<and> lru_segmented (cfg c)
               then do {
                 c3 \<leftarrow> do_item_unlink_q search
                        (upd_item search (clear_flag ITEM_ACTIVE)
                          (upd_stats i (\<lambda>s. s\<lparr>moves_to_warm := moves_to_warm s + 1\<rparr>) c));
                 Some (Pull_stop search WARM_LRU (removed + 1) None c3) }
               else Some (Pull_stop search 0 removed None c))
         else Some (Pull_stop search 0 removed None c))"

text \<open>
  The search. Crawler items do not use up a try (so the number of turns is bounded by the
  queue, not by the five tries); \<open>lk n hv\<close> answers the \<open>n\<close>-th item lock attempt, for the hash value \<open>hv\<close>.
  The result is \<open>Inl c\<close> when a crawler blocks the pull.
\<close>

partial_function (option) lru_pull_loop :: "hash_fn \<Rightarrow> (nat \<Rightarrow> u32 \<Rightarrow> bool) \<Rightarrow> bool \<Rightarrow> u8 \<Rightarrow> u8 \<Rightarrow> u64 \<Rightarrow> u8 \<Rightarrow> u32 \<Rightarrow>
    nat \<Rightarrow> ptr \<Rightarrow> nat \<Rightarrow> nat \<Rightarrow> mc \<Rightarrow> (mc + ptr \<times> u8 \<times> nat \<times> (ptr \<times> u32) option \<times> mc) option" where
  "lru_pull_loop hash lk rl orig_id cur_lru total_bytes flags max_age tries search n removed c =
     (if tries = 0 \<or> search = NULL then Some (Inr (NULL, 0, removed, None, c))
      else let next_it = it_prev (item_at c search)
           in if is_crawler (item_at c search)
              then (if flags AND LRU_PULL_CRAWL_BLOCKS \<noteq> 0 then Some (Inl c)
                    else lru_pull_loop hash lk rl orig_id cur_lru total_bytes flags max_age tries next_it n removed c)
              else let hv = hash (ITEM_key (item_at c search)) (unat (nkey (item_at c search)))
                   in if \<not> lk n hv
                      then lru_pull_loop hash lk rl orig_id cur_lru total_bytes flags max_age (tries - 1) next_it (n + 1) removed c
                      else (case lru_pull_turn rl orig_id cur_lru total_bytes flags max_age search hv removed c of
                              None \<Rightarrow> None
                            | Some (Pull_on removed' c') \<Rightarrow>
                                lru_pull_loop hash lk rl orig_id cur_lru total_bytes flags max_age (tries - 1) next_it (n + 1) removed' c'
                            | Some (Pull_stop it mv removed' ret c') \<Rightarrow> Some (Inr (it, mv, removed', ret, c'))))"

definition lru_pull_finish :: "u8 \<Rightarrow> ptr \<Rightarrow> u8 \<Rightarrow> mc \<Rightarrow> mc option" where
  "lru_pull_finish flags it mv c =
     (if it = NULL then Some c
      else do {
        c1 \<leftarrow> (if mv \<noteq> 0
               then item_link_q it (upd_item it (\<lambda>x. x\<lparr>slabs_clsid := ITEM_clsid x OR mv\<rparr>) c)
               else Some c);
        if flags AND LRU_PULL_RETURN_ITEM = 0 then do_item_remove it c1 else Some c1 })"

definition lru_pull_tail :: "hash_fn \<Rightarrow> (nat \<Rightarrow> u32 \<Rightarrow> bool) \<Rightarrow> bool \<Rightarrow> u8 \<Rightarrow> u8 \<Rightarrow> u64 \<Rightarrow> u8 \<Rightarrow> u32 \<Rightarrow> mc \<Rightarrow>
    (nat \<times> (ptr \<times> u32) option \<times> mc) option" where
  "lru_pull_tail hash lk rl orig_id cur_lru total_bytes flags max_age c =
     (if orig_id = 0 then Some (0, None, c)
      else case lru_pull_loop hash lk rl orig_id cur_lru total_bytes flags max_age 5 (tails c (orig_id OR cur_lru)) 0 0 c of
             None \<Rightarrow> None
           | Some (Inl c') \<Rightarrow> Some (0, None, c')
           | Some (Inr (it, mv, removed, ret, c')) \<Rightarrow>
               do { c2 \<leftarrow> lru_pull_finish flags it mv c'; Some (removed, ret, c2) })"

section \<open>Allocation\<close>

text \<open>
  The header size of \<open>item_make_header\<close> and the length of the client flags; the key length
  parameter is a byte.
\<close>

definition item_make_header :: "u8 \<Rightarrow> u32 \<Rightarrow> int \<Rightarrow> nat \<times> nat" where
  "item_make_header nk flags nb =
     (let nsuffix = (if flags = 0 then 0 else 4)
      in (nat (int sizeof_item + int (unat nk) + int nsuffix + nb), nsuffix))"

text \<open>What the environment answers during one turn of the allocation loop.\<close>

record pull_env =
  pe_lock :: "nat \<Rightarrow> nat \<Rightarrow> u32 \<Rightarrow> bool"
  pe_reassign :: "nat \<Rightarrow> bool"
  pe_alloc :: alloc_env

fun do_item_alloc_pull_loop :: "hash_fn \<Rightarrow> (nat \<Rightarrow> pull_env) \<Rightarrow> nat \<Rightarrow> nat \<Rightarrow> u8 \<Rightarrow> nat \<Rightarrow> mc \<Rightarrow> (ptr \<times> nat \<times> mc) option" where
  "do_item_alloc_pull_loop hash env 0 ntotal i turn c = Some (NULL, turn, c)"
| "do_item_alloc_pull_loop hash env (Suc k) ntotal i turn c = do {
     let e = env turn;
     c1 \<leftarrow> (if \<not> lru_segmented (cfg c)
            then map_option (\<lambda>(_, _, c'). c') (lru_pull_tail hash (pe_lock e 0) (pe_reassign e 0) i COLD_LRU 0 0 0 c)
            else Some c);
     (it, m2, s2) \<leftarrow> do_slabs_alloc (cfg c1) (pe_alloc e) ntotal (unat i) 0 (mem c1) (sl c1);
     let c2 = c1\<lparr>mem := m2, sl := s2\<rparr>;
     if it \<noteq> NULL then Some (it, turn, c2)
     else do {
       (removed, _, c3) \<leftarrow> lru_pull_tail hash (pe_lock e 1) (pe_reassign e 1) i COLD_LRU 0 LRU_PULL_EVICT 0 c2;
       if removed > 0 then do_item_alloc_pull_loop hash env k ntotal i (turn + 1) c3
       else if lru_segmented (cfg c3)
       then do {
         (_, _, c4) \<leftarrow> lru_pull_tail hash (pe_lock e 2) (pe_reassign e 2) i HOT_LRU 0 0 0 c3;
         do_item_alloc_pull_loop hash env k ntotal i (turn + 1) c4 }
       else Some (NULL, turn, c3) } }"

definition do_item_alloc_pull :: "hash_fn \<Rightarrow> (nat \<Rightarrow> pull_env) \<Rightarrow> nat \<Rightarrow> u8 \<Rightarrow> mc \<Rightarrow> (ptr \<times> mc) option" where
  "do_item_alloc_pull hash env ntotal i c = do {
     (it, turns, c1) \<leftarrow> do_item_alloc_pull_loop hash env 10 ntotal i 0 c;
     Some (it, if turns > 0
               then upd_stats i (\<lambda>s. s\<lparr>direct_reclaims := direct_reclaims s + of_nat turns\<rparr>) c1 else c1) }"

text \<open>Chunk headers share the item layout: \<open>head\<close> is \<open>h_next\<close>, \<open>size\<close> is \<open>time\<close>, \<open>used\<close> is \<open>exptime\<close>, \<open>orig_clsid\<close> is \<open>nkey\<close>.\<close>

definition do_item_alloc_chunk :: "hash_fn \<Rightarrow> (nat \<Rightarrow> pull_env) \<Rightarrow> (nat \<Rightarrow> pull_env) \<Rightarrow> ptr \<Rightarrow> nat \<Rightarrow> mc \<Rightarrow> (ptr \<times> mc) option" where
  "do_item_alloc_chunk hash env env' ch bytes_remain c = do {
     let big = slab_chunk_size_max (cfg c);
     let sz0 = (if bytes_remain + sizeof_item_chunk > big then big else bytes_remain + sizeof_item_chunk);
     let id0 = slabs_clsid_for (cfg c) (sl c) sz0;
     (nch0, c1) \<leftarrow> do_item_alloc_pull hash env sz0 (of_nat id0) c;
     (nch, sz, i, c2) \<leftarrow>
       (if nch0 \<noteq> NULL then Some (nch0, sz0, id0, c1)
        else if sz0 = big then Some (NULL, sz0, id0, c1)
        else do {
          let id1 = slabs_clsid_for (cfg c1) (sl c1) big;
          (nch1, c2) \<leftarrow> do_item_alloc_pull hash env' big (of_nat id1) c1;
          Some (nch1, big, id1, c2) });
     if nch = NULL then Some (NULL, c2)
     else Some (nch,
       upd_item nch (\<lambda>x. set_flag ITEM_CHUNK (x\<lparr>h_next := h_next (item_at c2 ch), it_prev := ch, it_next := NULL, exptime := 0,
           slabs_clsid := of_nat i, it_time := of_nat (sz - sizeof_item_chunk)\<rparr>))
         (upd_item ch (it_next_update (\<lambda>_. nch)) c2)) }"

definition lru_segment_for :: "settings \<Rightarrow> u32 \<Rightarrow> u32 \<Rightarrow> u8" where
  "lru_segment_for st now exp =
     (if temp_lru st \<and> exp - now \<le> temporary_ttl st then TEMP_LRU
      else if lru_segmented st then HOT_LRU else COLD_LRU)"

definition item_total_size :: "settings \<Rightarrow> nat \<Rightarrow> u32 \<Rightarrow> int \<Rightarrow> nat" where
  "item_total_size st nk flags nb =
     fst (item_make_header (of_nat (nk + 1)) flags nb) + (if use_cas st then 8 else 0)"

text \<open>The initialisation of the fresh item at \<open>it\<close>; \<open>i\<close> is the slab class with the LRU segment.\<close>

definition item_setup :: "settings \<Rightarrow> byte list \<Rightarrow> nat \<Rightarrow> u32 \<Rightarrow> u32 \<Rightarrow> int \<Rightarrow> u8 \<Rightarrow> item \<Rightarrow> item" where
  "item_setup st key nk flags exp nb i x =
     x\<lparr>it_next := NULL, it_prev := NULL, slabs_clsid := i,
       it_flags := it_flags x OR (if use_cas st then ITEM_CAS else 0) OR (if flags \<noteq> 0 then ITEM_CFLAGS else 0),
       nkey := of_nat nk, nbytes := nb, data_key := take nk key, exptime := exp,
       data_suffix := (if flags \<noteq> 0 then flags else data_suffix x), h_next := NULL\<rparr>"

definition do_item_alloc :: "hash_fn \<Rightarrow> (nat \<Rightarrow> pull_env) \<Rightarrow> byte list \<Rightarrow> nat \<Rightarrow> u32 \<Rightarrow> u32 \<Rightarrow> int \<Rightarrow> mc \<Rightarrow> (ptr \<times> mc) option" where
  "do_item_alloc hash env key nk flags exp nb c =
     (if nb < 2 then Some (NULL, c)
      else let ntotal = item_total_size (cfg c) nk flags nb;
               i = slabs_clsid_for (cfg c) (sl c) ntotal
           in if i = 0 then Some (NULL, c)
              else do {
                let large = ntotal > slab_chunk_size_max (cfg c);
                let htotal = nk + 1 + (if flags = 0 then 0 else 4) + sizeof_item + sizeof_item_chunk + (if use_cas (cfg c) then 8 else 0);
                let hdr_id = (if large then slabs_clsid_for (cfg c) (sl c) htotal else 0);
                (it, c1) \<leftarrow> (if large
                             then do { (p, c1) \<leftarrow> do_item_alloc_pull hash env htotal (of_nat hdr_id) c;
                                       Some (p, if p \<noteq> NULL then upd_item p (set_flag ITEM_CHUNKED) c1 else c1) }
                             else do_item_alloc_pull hash env ntotal (of_nat i) c);
                if it = NULL
                then Some (NULL, upd_stats (of_nat i) (\<lambda>s. s\<lparr>outofmemory := outofmemory s + 1\<rparr>) c1)
                else if it_flags (item_at c1 it) \<noteq> 0 \<and> it_flags (item_at c1 it) \<noteq> ITEM_CHUNKED then None
                else do {
                  let c2 = upd_item it (item_setup (cfg c1) key nk flags exp nb
                             (of_nat i OR lru_segment_for (cfg c1) (current_time c1) exp)) c1;
                  let c3 = (if has_flag ITEM_CHUNKED (item_at c2 it)
                            then upd_item (ITEM_schunk it (item_at c2 it))
                                   (\<lambda>x. x\<lparr>it_next := NULL, it_prev := NULL, exptime := 0, it_time := 0, h_next := it,
                                          nkey := of_nat hdr_id\<rparr>) c2
                            else c2);
                  Some (it, c3) } })"

definition item_size_ok :: "settings \<Rightarrow> slabs \<Rightarrow> nat \<Rightarrow> u32 \<Rightarrow> int \<Rightarrow> bool" where
  "item_size_ok st s nk flags nb = (if nb < 2 then False else slabs_clsid_for st s (item_total_size st nk flags nb) \<noteq> 0)"

section \<open>LRU maintenance\<close>

text \<open>
  The pending bumps of one buffer, oldest first. \<open>peek j\<close> is how many entries \<open>bipbuf_peek_all\<close> shows of buffer \<open>j\<close>: its
  contiguous part.
\<close>

fun lru_bump_entries :: "(ptr \<times> u32) list \<Rightarrow> mc \<Rightarrow> mc option" where
  "lru_bump_entries [] c = Some c"
| "lru_bump_entries ((it, hv) # es) c = do {
     c1 \<leftarrow> do_item_update it c;
     c2 \<leftarrow> do_item_remove it c1;
     lru_bump_entries es c2 }"

fun lru_bump_buffers :: "(nat \<Rightarrow> nat) \<Rightarrow> nat list \<Rightarrow> bool \<Rightarrow> mc \<Rightarrow> (bool \<times> mc) option" where
  "lru_bump_buffers peek [] bumped c = Some (bumped, c)"
| "lru_bump_buffers peek (j # js) bumped c =
     (let es = take (peek j) (bump_entries (bump_bufs c ! j))
      in if es = [] then lru_bump_buffers peek js bumped c
         else do {
           c1 \<leftarrow> lru_bump_entries es c;
           lru_bump_buffers peek js True (upd_bump j (\<lambda>y. y\<lparr>bump_entries := drop (length es) (bump_entries y)\<rparr>) c1) })"

definition lru_maintainer_bumps :: "(nat \<Rightarrow> nat) \<Rightarrow> mc \<Rightarrow> (bool \<times> mc) option" where
  "lru_maintainer_bumps peek c = lru_bump_buffers peek [0 ..< length (bump_bufs c)] False c"

text \<open>
  \<open>hot_scale\<close> and \<open>warm_scale\<close> are the products with the C doubles \<open>hot_max_factor\<close> and
  \<open>warm_max_factor\<close>, truncated; \<open>lk n j\<close> and \<open>rl n\<close> answer the lock attempts of the \<open>n\<close>-th pull.
\<close>

fun juggle_temp :: "hash_fn \<Rightarrow> (nat \<Rightarrow> nat \<Rightarrow> u32 \<Rightarrow> bool) \<Rightarrow> (nat \<Rightarrow> bool) \<Rightarrow> u8 \<Rightarrow> nat \<Rightarrow> nat \<Rightarrow> mc \<Rightarrow> (nat \<times> mc) option" where
  "juggle_temp hash lk rl i 0 did c = Some (did, c)"
| "juggle_temp hash lk rl i (Suc k) did c = do {
     (removed, _, c1) \<leftarrow> lru_pull_tail hash (lk k) (rl k) i TEMP_LRU 0 0 0 c;
     if removed = 0 then Some (did, c1) else juggle_temp hash lk rl i k (did + 1) c1 }"

fun juggle_hot_warm :: "hash_fn \<Rightarrow> (nat \<Rightarrow> nat \<Rightarrow> u32 \<Rightarrow> bool) \<Rightarrow> (nat \<Rightarrow> bool) \<Rightarrow> u8 \<Rightarrow> u64 \<Rightarrow> u32 \<Rightarrow> u32 \<Rightarrow> nat \<Rightarrow> nat \<Rightarrow> mc \<Rightarrow>
    (nat \<times> mc) option" where
  "juggle_hot_warm hash lk rl i total_b hot_age warm_age 0 did c = Some (did, c)"
| "juggle_hot_warm hash lk rl i total_b hot_age warm_age (Suc k) did c = do {
     (r1, _, c1) \<leftarrow> lru_pull_tail hash (lk (3 * k)) (rl (3 * k)) i HOT_LRU total_b LRU_PULL_CRAWL_BLOCKS hot_age c;
     (r2, c2) \<leftarrow> (if r1 \<noteq> 0 then Some (0, c1)
                  else map_option (\<lambda>(r, _, c'). (r, c'))
                         (lru_pull_tail hash (lk (3 * k + 1)) (rl (3 * k + 1)) i WARM_LRU total_b LRU_PULL_CRAWL_BLOCKS warm_age c1));
     let more1 = (if r1 \<noteq> 0 \<or> r2 \<noteq> 0 then 1 else 0);
     (r3, c3) \<leftarrow> (if lru_segmented (cfg c2)
                  then map_option (\<lambda>(r, _, c'). (r, c'))
                         (lru_pull_tail hash (lk (3 * k + 2)) (rl (3 * k + 2)) i COLD_LRU total_b LRU_PULL_CRAWL_BLOCKS 0 c2)
                  else Some (0, c2));
     if more1 + r3 = 0 then Some (did, c3)
     else juggle_hot_warm hash lk rl i total_b hot_age warm_age k (did + 1) c3 }"

definition lru_maintainer_juggle :: "hash_fn \<Rightarrow> (nat \<Rightarrow> nat \<Rightarrow> u32 \<Rightarrow> bool) \<Rightarrow> (nat \<Rightarrow> bool) \<Rightarrow> (nat \<Rightarrow> nat \<Rightarrow> u32 \<Rightarrow> bool) \<Rightarrow> (nat \<Rightarrow> bool) \<Rightarrow>
    (u32 \<Rightarrow> u32) \<Rightarrow> (u32 \<Rightarrow> u32) \<Rightarrow> u8 \<Rightarrow> mc \<Rightarrow> (nat \<times> mc) option" where
  "lru_maintainer_juggle hash lkt rlt lk rl hot_scale warm_scale i c = do {
     (did, c1) \<leftarrow> (if temp_lru (cfg c) then juggle_temp hash lkt rlt i 500 0 c else Some (0, c));
     let seg = lru_segmented (cfg c1);
     let tail = tails c1 (i OR COLD_LRU);
     let cold_age = (if seg \<and> tail \<noteq> NULL then current_time c1 - it_time (item_at c1 tail) else 0);
     let total_b = (if seg then sizes_bytes c1 (i OR COLD_LRU) + sizes_bytes c1 (i OR HOT_LRU) + sizes_bytes c1 (i OR WARM_LRU) else 0);
     juggle_hot_warm hash lk rl i total_b (if seg then hot_scale cold_age else 0) (if seg then warm_scale cold_age else 0) 500 did c1 }"

record item_stats_automove =
  am_evicted :: u64
  am_outofmemory :: u64
  am_age :: u32

definition fill_item_stats_automove :: "mc \<Rightarrow> item_stats_automove list" where
  "fill_item_stats_automove c =
     map (\<lambda>n. let hot = of_nat n OR HOT_LRU; cold = of_nat n OR COLD_LRU; t = tails c cold; x = item_at c t
              in \<lparr>am_evicted = evicted (itemstats c cold), am_outofmemory = outofmemory (itemstats c hot),
                  am_age = (if t = NULL then 0
                            else if is_crawler x
                                 then (if it_prev x \<noteq> NULL then current_time c - it_time (item_at c (it_prev x)) else 0)
                                 else current_time c - it_time x)\<rparr>)
       [0 ..< MAX_NUMBER_OF_SLAB_CLASSES]"

section \<open>Crawler items\<close>

definition do_item_linktail_q :: "ptr \<Rightarrow> mc \<Rightarrow> mc option" where
  "do_item_linktail_q it c =
     (let i = slabs_clsid (item_at c it); h = heads c i; t = tails c i
      in if it_flags (item_at c it) \<noteq> 1 \<or> nbytes (item_at c it) \<noteq> 0 \<or> it = t \<or>
            \<not> ((h \<noteq> NULL \<and> t \<noteq> NULL) \<or> (h = NULL \<and> t = NULL)) \<or>
            (t \<noteq> NULL \<and> it_next (item_at c t) \<noteq> NULL) then None
         else let m1 = hupd it (\<lambda>x. x\<lparr>it_prev := t, it_next := NULL\<rparr>) (mem c);
                  m2 = (if t \<noteq> NULL then hupd t (it_next_update (\<lambda>_. it)) m1 else m1)
              in Some (c\<lparr>mem := m2, tails := (tails c)(i := it), heads := (heads c)(i := (if h = NULL then it else h))\<rparr>))"

definition do_item_unlinktail_q :: "ptr \<Rightarrow> mc \<Rightarrow> mc option" where
  "do_item_unlinktail_q it c = unlink_pointers it c"

text \<open>
  The crawler moves one place towards the head. The result is the item it has passed, or
  \<open>NULL\<close> when it was at the head and has left the queue (unless it was alone in it).
\<close>

definition do_item_crawl_q :: "ptr \<Rightarrow> mc \<Rightarrow> (ptr \<times> mc) option" where
  "do_item_crawl_q it c =
     (let x = item_at c it; i = slabs_clsid x; n = it_next x; b = it_prev x
      in if it_flags x \<noteq> 1 \<or> nbytes x \<noteq> 0 then None
         else if b = NULL
         then (if heads c i \<noteq> it then None
               else if n = NULL then Some (NULL, c)
               else if it_prev (item_at c n) \<noteq> it then None
               else Some (NULL, c\<lparr>heads := (heads c)(i := n), mem := hupd n (it_prev_update (\<lambda>_. NULL)) (mem c)\<rparr>))
         else if b = it \<or> n = it \<or> (n \<noteq> NULL \<and> it_next (item_at c b) \<noteq> it) then None
         else let hs = (if heads c i = b then (heads c)(i := it) else heads c);
                  ts = (if tails c i = it then (tails c)(i := b) else tails c);
                  m1 = (if n \<noteq> NULL then hupd n (it_prev_update (\<lambda>_. b)) (hupd b (it_next_update (\<lambda>_. n)) (mem c))
                        else hupd b (it_next_update (\<lambda>_. NULL)) (mem c));
                  bb = it_prev (m1 b);
                  m2 = hupd it (\<lambda>y. y\<lparr>it_next := b, it_prev := bb\<rparr>) m1;
                  m3 = hupd b (it_prev_update (\<lambda>_. it)) m2;
                  m4 = (if bb \<noteq> NULL then hupd bb (it_next_update (\<lambda>_. it)) m3 else m3)
              in if b = it \<or> bb = it then None
                 else Some (b, c\<lparr>mem := m4, heads := hs, tails := ts\<rparr>))"

end
