(* ===== verification/Item_Laws.thy ===== *)
theory Item_Laws
  imports Items Slab_Safety
begin

text \<open>
  The invariant of the item layer and what every operation keeps of it. \<open>L\<close> is the set of linked
  items, \<open>K\<close> the crawler items, \<open>Q i\<close> the contents of LRU queue \<open>i\<close> from head to tail, \<open>R p\<close> the number of
  references held on \<open>p\<close> outside the table, \<open>U\<close> the chunks in use and \<open>A\<close> the memory ever obtained. Items of
  more than one chunk are outside the invariant: every live item is a single chunk.
\<close>

section \<open>Core of an item\<close>

text \<open>An item without its links: what the pointer operations leave alone.\<close>

definition core :: "item \<Rightarrow> item" where
  "core x = x\<lparr>it_next := NULL, it_prev := NULL, h_next := NULL\<rparr>"

lemma core_field:
  assumes "core x = core y" and "\<And>z a b h. g (z\<lparr>it_next := a, it_prev := b, h_next := h\<rparr>) = g z"
  shows "g x = g y"
proof -
  have "g (core x) = g (core y)" using assms(1) by simp
  then show ?thesis by (simp only: core_def assms(2))
qed

lemma core_fields:
  assumes "core x = core y"
  shows "it_time x = it_time y" "exptime x = exptime y" "nbytes x = nbytes y" "refcount x = refcount y"
    "it_flags x = it_flags y" "slabs_clsid x = slabs_clsid y" "nkey x = nkey y" "data_cas x = data_cas y"
    "data_key x = data_key y" "data_suffix x = data_suffix y" "data_value x = data_value y"
    "has_flag f x = has_flag f y" "ITEM_key x = ITEM_key y" "ITEM_clsid x = ITEM_clsid y" "ITEM_lruid x = ITEM_lruid y"
    "ITEM_ntotal x = ITEM_ntotal y" "lru_bytes x = lru_bytes y" "is_crawler x = is_crawler y"
    "key_ok x = key_ok y" "item_hash hash x = item_hash hash y" "ITEM_get_cas x = ITEM_get_cas y"
    "item_is_flushed st now x = item_is_flushed st now y"
  by (rule core_field [OF assms];
      simp add: has_flag_def ITEM_key_def ITEM_clsid_def ITEM_lruid_def ITEM_ntotal_def lru_bytes_def is_crawler_def
        key_ok_def item_hash_def ITEM_get_cas_def item_is_flushed_def)+

lemma core_links [simp]:
  "core (x\<lparr>it_next := a\<rparr>) = core x" "core (x\<lparr>it_prev := a\<rparr>) = core x" "core (x\<lparr>h_next := a\<rparr>) = core x"
  "core (x\<lparr>it_prev := b, it_next := a\<rparr>) = core x"
  by (simp_all add: core_def)

lemma core_hupd_links:
  "(\<And>x. core (f x) = core x) \<Longrightarrow> core (hupd p f m q) = core (m q)"
  by (simp add: hupd_def)

section \<open>LRU queues\<close>

definition lru_ok :: "mc \<Rightarrow> ptr set \<Rightarrow> ptr set \<Rightarrow> (u8 \<Rightarrow> ptr list) \<Rightarrow> bool" where
  "lru_ok c L K Q \<longleftrightarrow>
     (\<forall>i. item_queue (mem c) (heads c i) (tails c i) (Q i)) \<and>
     (\<forall>i. \<forall>p\<in>set (Q i). slabs_clsid (mem c p) = i) \<and>
     (\<Union>i. set (Q i)) = L \<union> K \<and> L \<inter> K = {} \<and> (\<forall>p\<in>K. is_crawler (mem c p)) \<and>
     (\<forall>i. lru_sizes c i = of_nat (length (filter (\<lambda>p. p \<in> L) (Q i)))) \<and>
     (\<forall>i. sizes_bytes c i = sum_list (map (\<lambda>p. lru_bytes (mem c p)) (filter (\<lambda>p. p \<in> L) (Q i))))"

lemma lru_okD:
  assumes "lru_ok c L K Q"
  shows "item_queue (mem c) (heads c i) (tails c i) (Q i)"
    and "p \<in> set (Q i) \<Longrightarrow> slabs_clsid (mem c p) = i"
    and "p \<in> set (Q i) \<Longrightarrow> p \<in> L \<union> K" and "p \<in> L \<union> K \<Longrightarrow> \<exists>i. p \<in> set (Q i)"
    and "L \<inter> K = {}" and "p \<in> K \<Longrightarrow> is_crawler (mem c p)"
    and "lru_sizes c i = of_nat (length (filter (\<lambda>p. p \<in> L) (Q i)))"
    and "sizes_bytes c i = sum_list (map (\<lambda>p. lru_bytes (mem c p)) (filter (\<lambda>p. p \<in> L) (Q i)))"
  using assms unfolding lru_ok_def by (simp_all, blast+)

lemma lru_ok_in: "lru_ok c L K Q \<Longrightarrow> p \<in> L \<union> K \<Longrightarrow> p \<in> set (Q (slabs_clsid (mem c p)))"
  using lru_okD(2,4) by blast

lemma lru_ok_nonnull: "lru_ok c L K Q \<Longrightarrow> p \<in> L \<union> K \<Longrightarrow> p \<noteq> NULL"
  using lru_okD(1,4) item_queue_nonnull by metis

text \<open>Changes that keep the links, the class and the size of the queued items keep the queues.\<close>

lemma lru_ok_frame:
  assumes ok: "lru_ok c L K Q"
    and f: "heads c' = heads c" "tails c' = tails c" "lru_sizes c' = lru_sizes c" "sizes_bytes c' = sizes_bytes c"
    and m: "\<And>q. q \<in> L \<union> K \<Longrightarrow> it_next (mem c' q) = it_next (mem c q) \<and> it_prev (mem c' q) = it_prev (mem c q) \<and>
              slabs_clsid (mem c' q) = slabs_clsid (mem c q)"
    and b: "\<And>q. q \<in> L \<Longrightarrow> lru_bytes (mem c' q) = lru_bytes (mem c q)"
    and k: "\<And>q. q \<in> K \<Longrightarrow> is_crawler (mem c' q)"
  shows "lru_ok c' L K Q"
proof -
  have "item_queue (mem c') (heads c' i) (tails c' i) (Q i)" for i
    unfolding f by (rule item_queue_frame [OF lru_okD(1) [OF ok]]) (use m lru_okD(3) [OF ok] in blast)
  moreover have "slabs_clsid (mem c' p) = i" if "p \<in> set (Q i)" for i p
    using m lru_okD(2,3) [OF ok] that by metis
  moreover have "sum_list (map (\<lambda>p. lru_bytes (mem c p)) (filter (\<lambda>p. p \<in> L) (Q i))) =
      sum_list (map (\<lambda>p. lru_bytes (mem c' p)) (filter (\<lambda>p. p \<in> L) (Q i)))" for i
    by (intro arg_cong [where f = sum_list] map_cong refl) (simp add: b)
  ultimately show ?thesis using ok k unfolding lru_ok_def f by simp
qed

section \<open>Linking into a queue\<close>

lemma head_tail_null: "item_queue m h t xs \<Longrightarrow> (h \<noteq> NULL \<and> t \<noteq> NULL) \<or> (h = NULL \<and> t = NULL)"
  using item_queue_head [of m h t xs] item_queue_tail [of m h t xs] item_queue_nonnull [of m h t xs]
  by (metis hd_in_set last_in_set)

text \<open>What a queue operation on \<open>p\<close> leaves alone: everything but the queue fields, the cores, and all items outside \<open>S\<close>.\<close>

definition lru_frame :: "ptr set \<Rightarrow> mc \<Rightarrow> mc \<Rightarrow> bool" where
  "lru_frame S c c' \<longleftrightarrow>
     c' = c\<lparr>mem := mem c', heads := heads c', tails := tails c', lru_sizes := lru_sizes c', sizes_bytes := sizes_bytes c'\<rparr> \<and>
     (\<forall>q. core (mem c' q) = core (mem c q) \<and> h_next (mem c' q) = h_next (mem c q)) \<and>
     (\<forall>q. q \<notin> S \<longrightarrow> mem c' q = mem c q)"

lemma lru_frameD:
  assumes "lru_frame S c c'"
  shows "core (mem c' q) = core (mem c q)" "h_next (mem c' q) = h_next (mem c q)" "q \<notin> S \<Longrightarrow> mem c' q = mem c q"
    "ht c' = ht c" "sl c' = sl c" "rebal c' = rebal c" "cfg c' = cfg c" "current_time c' = current_time c"
    "itemstats c' = itemstats c" "stats_sizes_hist c' = stats_sizes_hist c" "cas_id c' = cas_id c"
    "curr_bytes c' = curr_bytes c" "curr_items c' = curr_items c" "total_items c' = total_items c"
    "bump_bufs c' = bump_bufs c"
proof -
  have e: "c' = c\<lparr>mem := mem c', heads := heads c', tails := tails c', lru_sizes := lru_sizes c', sizes_bytes := sizes_bytes c'\<rparr>"
    and a: "\<forall>q. core (mem c' q) = core (mem c q) \<and> h_next (mem c' q) = h_next (mem c q)"
    and b: "\<forall>q. q \<notin> S \<longrightarrow> mem c' q = mem c q"
    using assms by (auto simp: lru_frame_def)
  show "core (mem c' q) = core (mem c q)" "h_next (mem c' q) = h_next (mem c q)" "q \<notin> S \<Longrightarrow> mem c' q = mem c q"
    using a b by auto
  show "ht c' = ht c" "sl c' = sl c" "rebal c' = rebal c" "cfg c' = cfg c" "current_time c' = current_time c"
    "itemstats c' = itemstats c" "stats_sizes_hist c' = stats_sizes_hist c" "cas_id c' = cas_id c"
    "curr_bytes c' = curr_bytes c" "curr_items c' = curr_items c" "total_items c' = total_items c"
    "bump_bufs c' = bump_bufs c"
    using arg_cong [OF e, of ht] arg_cong [OF e, of sl] arg_cong [OF e, of rebal] arg_cong [OF e, of cfg]
      arg_cong [OF e, of current_time] arg_cong [OF e, of itemstats] arg_cong [OF e, of stats_sizes_hist]
      arg_cong [OF e, of cas_id] arg_cong [OF e, of curr_bytes] arg_cong [OF e, of curr_items]
      arg_cong [OF e, of total_items] arg_cong [OF e, of bump_bufs]
    by simp_all
qed

lemma UN_push: "(\<Union>j. set ((Q(i := p # Q i)) j)) = insert p (\<Union>j. set (Q j))"
proof (intro equalityI subsetI)
  fix x assume "x \<in> insert p (\<Union>j. set (Q j))"
  then obtain j where "x = p \<or> x \<in> set (Q j)" by blast
  then have "x \<in> set ((Q(i := p # Q i)) i) \<or> x \<in> set ((Q(i := p # Q i)) j)" by auto
  then show "x \<in> (\<Union>j. set ((Q(i := p # Q i)) j))" by blast
qed (auto split: if_splits)

lemma UN_remove:
  assumes "\<And>j. p \<in> set (Q j) \<Longrightarrow> j = i" "Q i = ys @ p # zs" "distinct (Q i)"
  shows "(\<Union>j. set ((Q(i := ys @ zs)) j)) = (\<Union>j. set (Q j)) - {p}"
proof (intro equalityI subsetI)
  fix x assume "x \<in> (\<Union>j. set (Q j)) - {p}"
  then obtain j where "x \<in> set (Q j)" "x \<noteq> p" by blast
  then have "x \<in> set ((Q(i := ys @ zs)) j)" using assms(2) by auto
  then show "x \<in> (\<Union>j. set ((Q(i := ys @ zs)) j))" by blast
next
  fix x assume "x \<in> (\<Union>j. set ((Q(i := ys @ zs)) j))"
  then obtain j where j: "x \<in> set ((Q(i := ys @ zs)) j)" by blast
  then have "x \<in> set (Q j) \<and> x \<noteq> p" using assms by (cases "j = i") auto
  then show "x \<in> (\<Union>j. set (Q j)) - {p}" by blast
qed

lemma do_item_link_q_ok:
  assumes ok: "lru_ok c L K Q" and p: "p \<noteq> NULL" "p \<notin> L \<union> K" "\<not> has_flag ITEM_SLABBED (mem c p)"
  defines "i \<equiv> slabs_clsid (mem c p)"
  shows "\<exists>c'. do_item_link_q p c = Some c' \<and> lru_ok c' (insert p L) K (Q(i := p # Q i)) \<and>
           lru_frame (insert p (L \<union> K)) c c'"
proof -
  let ?h = "heads c i" and ?t = "tails c i"
  define m1 where "m1 = hupd p (\<lambda>x. x\<lparr>it_prev := NULL, it_next := ?h\<rparr>) (mem c)"
  define m2 where "m2 = (if ?h \<noteq> NULL then hupd ?h (it_prev_update (\<lambda>_. p)) m1 else m1)"
  define c' where "c' = c\<lparr>mem := m2, heads := (heads c)(i := p), tails := (tails c)(i := (if ?t = NULL then p else ?t)),
     lru_sizes := (lru_sizes c)(i := lru_sizes c i + 1),
     sizes_bytes := (sizes_bytes c)(i := sizes_bytes c i + lru_bytes (mem c p))\<rparr>"
  note q = lru_okD(1) [OF ok, of i]
  have hin: "?h \<in> L \<union> K" if "?h \<noteq> NULL" using item_queue_head_in [OF q that] lru_okD(3) [OF ok] by blast
  have hp: "?h \<noteq> p" using hin p(1,2) by auto
  have pQ: "p \<notin> set (Q j)" for j using lru_okD(3) [OF ok] p(2) by blast
  have run: "do_item_link_q p c = Some c'"
    using p(3) hp head_tail_null [OF q]
    unfolding do_item_link_q_def Let_def i_def [symmetric] m1_def [symmetric] m2_def [symmetric] c'_def by auto
  have core: "core (m2 q) = core (mem c q)" "h_next (m2 q) = h_next (mem c q)" for q
    by (simp_all add: m2_def m1_def hupd_apply)
  have outside: "m2 q = mem c q" if "q \<noteq> p" "q \<noteq> ?h" for q
    using that by (simp add: m2_def m1_def hupd_apply)
  have fr: "lru_frame (insert p (L \<union> K)) c c'"
    unfolding lru_frame_def using core outside hin p(1) by (auto simp: c'_def m2_def m1_def hupd_apply)
  have qi: "item_queue m2 p (if ?t = NULL then p else ?t) (p # Q i)"
    by (rule item_queue_push [OF q p(1) pQ])
      (use hp pQ [of i] in \<open>auto simp: m2_def m1_def hupd_apply\<close>)
  have qj: "item_queue m2 (heads c j) (tails c j) (Q j)" if "j \<noteq> i" for j
  proof (rule item_queue_frame [OF lru_okD(1) [OF ok]])
    fix r assume r: "r \<in> set (Q j)"
    have "r \<noteq> ?h"
    proof
      assume "r = ?h"
      moreover have "r \<noteq> NULL" using item_queue_nonnull [OF lru_okD(1) [OF ok, of j]] r by metis
      ultimately have "r \<in> set (Q i)" using item_queue_head_in [OF q] by simp
      then show False using lru_okD(2) [OF ok] r that by metis
    qed
    moreover have "r \<noteq> p" using pQ r by auto
    ultimately show "it_next (m2 r) = it_next (mem c r) \<and> it_prev (m2 r) = it_prev (mem c r)" using outside by simp
  qed
  have cl: "slabs_clsid (m2 q) = slabs_clsid (mem c q)" "lru_bytes (m2 q) = lru_bytes (mem c q)"
    "is_crawler (m2 q) = is_crawler (mem c q)" for q
    using core_fields(6,17,18) [OF core(1)] by blast+
  have fl: "filter (\<lambda>q. q = p \<or> q \<in> L) (Q j) = filter (\<lambda>q. q \<in> L) (Q j)" for j
    by (rule filter_cong) (use pQ in auto)
  have "lru_ok c' (insert p L) K (Q(i := p # Q i))"
    unfolding lru_ok_def
  proof (intro conjI allI ballI)
    fix j
    show "item_queue (mem c') (heads c' j) (tails c' j) ((Q(i := p # Q i)) j)" using qi qj by (simp add: c'_def)
    show "slabs_clsid (mem c' q) = j" if "q \<in> set ((Q(i := p # Q i)) j)" for q
      using that lru_okD(2) [OF ok] by (auto simp: c'_def cl i_def split: if_splits)
    show "lru_sizes c' j = of_nat (length (filter (\<lambda>q. q \<in> insert p L) ((Q(i := p # Q i)) j)))"
      using lru_okD(7) [OF ok] by (simp add: c'_def fl)
    show "sizes_bytes c' j = sum_list (map (\<lambda>q. lru_bytes (mem c' q)) (filter (\<lambda>q. q \<in> insert p L) ((Q(i := p # Q i)) j)))"
      using lru_okD(8) [OF ok] by (simp add: c'_def fl cl)
  next
    show "(\<Union>j. set ((Q(i := p # Q i)) j)) = insert p L \<union> K"
      using ok unfolding UN_push lru_ok_def by blast
    show "insert p L \<inter> K = {}" using lru_okD(5) [OF ok] p(2) by auto
    show "is_crawler (mem c' q)" if "q \<in> K" for q using lru_okD(6) [OF ok that] by (simp add: c'_def cl)
  qed
  with run fr show ?thesis by blast
qed

section \<open>Unlinking from a queue\<close>

lemma unlink_pointers_ok:
  assumes ok: "lru_ok c L K Q" and p: "p \<in> L \<union> K"
  defines "i \<equiv> slabs_clsid (mem c p)"
  shows "\<exists>c' ys zs. unlink_pointers p c = Some c' \<and> Q i = ys @ p # zs \<and>
      (\<forall>j. item_queue (mem c') (heads c' j) (tails c' j) ((Q(i := ys @ zs)) j)) \<and>
      c' = c\<lparr>mem := mem c', heads := heads c', tails := tails c'\<rparr> \<and> lru_frame (L \<union> K) c c'"
proof -
  have pQ: "p \<in> set (Q i)" using lru_ok_in [OF ok p] by (simp add: i_def)
  then obtain ys zs where Q: "Q i = ys @ p # zs" by (meson split_list)
  note q = lru_okD(1) [OF ok, of i, unfolded Q]
  define n where "n = it_next (mem c p)"
  define b where "b = it_prev (mem c p)"
  define m1 where "m1 = (if n \<noteq> NULL then hupd n (it_prev_update (\<lambda>_. b)) (mem c) else mem c)"
  define m2 where "m2 = (if b \<noteq> NULL then hupd b (it_next_update (\<lambda>_. n)) m1 else m1)"
  define c' where "c' = c\<lparr>mem := m2, heads := (if heads c i = p then (heads c)(i := n) else heads c),
                         tails := (if tails c i = p then (tails c)(i := b) else tails c)\<rparr>"
  have d: "distinct (ys @ p # zs)" and nn: "NULL \<notin> set (ys @ p # zs)"
    using item_queue_distinct [OF q] item_queue_nonnull [OF q] by auto
  have nb: "n = (if zs = [] then NULL else hd zs)" "b = (if ys = [] then NULL else last ys)"
    using item_queue_neighbours [OF q] by (simp_all add: n_def b_def)
  have ns: "n \<noteq> NULL \<Longrightarrow> n \<in> set zs" and bs: "b \<noteq> NULL \<Longrightarrow> b \<in> set ys" using nb by (auto split: if_splits)
  have pn: "p \<noteq> NULL" using nn by auto
  have np: "n \<noteq> p" "b \<noteq> p" using ns bs d pn by auto
  have hd: "heads c i = p \<longleftrightarrow> ys = []" using item_queue_head [OF q] d by (cases ys) auto
  have tl: "tails c i = p \<longleftrightarrow> zs = []" using item_queue_tail [OF q] d by (cases zs rule: rev_cases) auto
  have run: "unlink_pointers p c = Some c'"
    using hd tl nb np unfolding unlink_pointers_def Let_def i_def [symmetric] n_def [symmetric] b_def [symmetric]
      m1_def [symmetric] m2_def [symmetric] c'_def by auto
  have qi: "item_queue m2 (if heads c i = p then it_next (mem c p) else heads c i)
      (if tails c i = p then it_prev (mem c p) else tails c i) (ys @ zs)"
    by (rule item_queue_remove [OF q])
      (use nn ns bs d in \<open>auto simp: m2_def m1_def hupd_apply n_def [symmetric] b_def [symmetric]\<close>)
  have outside: "m2 r = mem c r" if "r \<notin> set (Q i)" for r
    using that ns bs Q by (auto simp: m2_def m1_def hupd_apply)
  have qj: "item_queue m2 (heads c j) (tails c j) (Q j)" if "j \<noteq> i" for j
  proof (rule item_queue_frame [OF lru_okD(1) [OF ok]])
    fix r assume "r \<in> set (Q j)"
    then have "r \<notin> set (Q i)" using lru_okD(2) [OF ok] that by metis
    then show "it_next (m2 r) = it_next (mem c r) \<and> it_prev (m2 r) = it_prev (mem c r)" by (simp add: outside)
  qed
  have core: "core (m2 r) = core (mem c r)" "h_next (m2 r) = h_next (mem c r)" for r
    by (simp_all add: m2_def m1_def hupd_apply)
  have eqc: "c' = c\<lparr>mem := mem c', heads := heads c', tails := tails c'\<rparr>" by (simp add: c'_def)
  have "lru_frame (L \<union> K) c c'"
    unfolding lru_frame_def
  proof (intro conjI allI impI)
    show "c' = c\<lparr>mem := mem c', heads := heads c', tails := tails c', lru_sizes := lru_sizes c', sizes_bytes := sizes_bytes c'\<rparr>"
      by (simp add: c'_def)
    show "mem c' r = mem c r" if "r \<notin> L \<union> K" for r
      using outside [of r] lru_okD(3) [OF ok, of r i] that by (auto simp: c'_def)
  qed (simp_all add: c'_def core)
  moreover have "item_queue (mem c') (heads c' j) (tails c' j) ((Q(i := ys @ zs)) j)" for j
    using qi qj [of j] by (cases "j = i") (auto simp: c'_def n_def b_def)
  ultimately show ?thesis using run Q eqc by blast
qed

lemma filter_remove: "p \<notin> set ys \<Longrightarrow> filter (\<lambda>q. q \<in> L - {p}) ys = filter (\<lambda>q. q \<in> L) ys"
  by (rule filter_cong) auto

lemma do_item_unlink_q_ok:
  assumes ok: "lru_ok c L K Q" and p: "p \<in> L"
  shows "\<exists>c' Q'. do_item_unlink_q p c = Some c' \<and> lru_ok c' (L - {p}) K Q' \<and> lru_frame (L \<union> K) c c' \<and>
    Q' = Q(slabs_clsid (mem c p) := remove1 p (Q (slabs_clsid (mem c p))))"
proof -
  let ?i = "slabs_clsid (mem c p)"
  obtain c1 ys zs where u: "unlink_pointers p c = Some c1" "Q ?i = ys @ p # zs"
      "\<And>j. item_queue (mem c1) (heads c1 j) (tails c1 j) ((Q(?i := ys @ zs)) j)"
      "c1 = c\<lparr>mem := mem c1, heads := heads c1, tails := tails c1\<rparr>" "lru_frame (L \<union> K) c c1"
    using unlink_pointers_ok [OF ok, of p] p by blast
  have d: "distinct (ys @ p # zs)" using item_queue_distinct [OF lru_okD(1) [OF ok, of ?i]] u(2) by simp
  have r1: "remove1 p (Q ?i) = ys @ zs" using u(2) d by (simp add: remove1_append)
  define c' where "c' = c1\<lparr>lru_sizes := (lru_sizes c1)(?i := lru_sizes c1 ?i - 1),
     sizes_bytes := (sizes_bytes c1)(?i := sizes_bytes c1 ?i - lru_bytes (mem c p))\<rparr>"
  have sz: "lru_sizes c1 = lru_sizes c" "sizes_bytes c1 = sizes_bytes c"
    using arg_cong [OF u(4), of lru_sizes] arg_cong [OF u(4), of sizes_bytes] by simp_all
  have run: "do_item_unlink_q p c = Some c'" using u(1) by (simp add: do_item_unlink_q_def c'_def Let_def)
  note core = lru_frameD(1) [OF u(5)]
  have cl: "slabs_clsid (mem c1 q) = slabs_clsid (mem c q)" "lru_bytes (mem c1 q) = lru_bytes (mem c q)"
    "is_crawler (mem c1 q) = is_crawler (mem c q)" for q
    using core_fields(6,17,18) [OF core] by blast+
  have fd: "filter (\<lambda>q. q \<in> L - {p}) ys = filter (\<lambda>q. q \<in> L) ys" "filter (\<lambda>q. q \<in> L - {p}) zs = filter (\<lambda>q. q \<in> L) zs"
    by (rule filter_remove, use d in simp)+
  have only: "p \<in> set (Q j) \<Longrightarrow> j = ?i" for j using lru_okD(2) [OF ok] by simp
  have fr: "lru_frame (L \<union> K) c c'"
    unfolding lru_frame_def
  proof (intro conjI allI impI)
    show "c' = c\<lparr>mem := mem c', heads := heads c', tails := tails c', lru_sizes := lru_sizes c', sizes_bytes := sizes_bytes c'\<rparr>"
      by (subst c'_def, subst u(4)) (simp add: c'_def)
  qed (simp_all add: c'_def lru_frameD(1-3) [OF u(5)])
  have fi: "filter (\<lambda>q. q \<in> L - {p}) (Q j) = filter (\<lambda>q. q \<in> L) (Q j)" if "j \<noteq> ?i" for j
    by (rule filter_cong) (use only that in auto)
  have "lru_ok c' (L - {p}) K (Q(?i := ys @ zs))"
    unfolding lru_ok_def
  proof (intro conjI allI ballI)
    fix j
    show "item_queue (mem c') (heads c' j) (tails c' j) ((Q(?i := ys @ zs)) j)" using u(3) by (simp add: c'_def)
    show "slabs_clsid (mem c' q) = j" if "q \<in> set ((Q(?i := ys @ zs)) j)" for q
      using that lru_okD(2) [OF ok, of q j] u(2) by (cases "j = ?i") (auto simp: c'_def cl)
    show "lru_sizes c' j = of_nat (length (filter (\<lambda>q. q \<in> L - {p}) ((Q(?i := ys @ zs)) j)))"
      using lru_okD(7) [OF ok, of j] u(2) p fi [of j]
      by (cases "j = ?i") (simp_all add: c'_def sz fd del: Diff_iff)
    show "sizes_bytes c' j = sum_list (map (\<lambda>q. lru_bytes (mem c' q)) (filter (\<lambda>q. q \<in> L - {p}) ((Q(?i := ys @ zs)) j)))"
      using lru_okD(8) [OF ok, of j] u(2) p fi [of j]
      by (cases "j = ?i") (simp_all add: c'_def sz cl fd del: Diff_iff)
  next
    have "(\<Union>j. set ((Q(?i := ys @ zs)) j)) = (\<Union>j. set (Q j)) - {p}"
      by (rule UN_remove) (use only u(2) d in auto)
    also have "\<dots> = (L - {p}) \<union> K" using ok p lru_okD(5) [OF ok] unfolding lru_ok_def by blast
    finally show "(\<Union>j. set ((Q(?i := ys @ zs)) j)) = (L - {p}) \<union> K" .
    show "(L - {p}) \<inter> K = {}" using lru_okD(5) [OF ok] by auto
    show "is_crawler (mem c' q)" if "q \<in> K" for q using lru_okD(6) [OF ok that] by (simp add: c'_def cl)
  qed
  with run fr r1 show ?thesis by auto
qed

end
