(* ===== verification/Item_Inv.thy ===== *)
theory Item_Inv
  imports Item_Laws
begin

text \<open>
  The representation invariant of the whole item layer and the elementary steps the operations of
  \<^verbatim>\<open>items.c\<close> are made of. In \<open>mc_rep hash c Lq K Lh L R A\<close> the items \<open>Lq\<close> and the crawlers \<open>K\<close> are in the LRU
  queues, \<open>Lh\<close> in the hash table, \<open>L\<close> carry the linked flag and are counted in the statistics; \<open>R p\<close> is the
  reference count of the item at \<open>p\<close>, and the chunks in use are exactly those of the items with a positive
  count. Between operations the three sets are the same.
\<close>

section \<open>The invariant\<close>

definition live :: "heap \<Rightarrow> (ptr \<Rightarrow> nat) \<Rightarrow> (ptr \<times> nat) set" where
  "live m R = (\<lambda>p. (p, unat (ITEM_clsid (m p)))) ` {p. 0 < R p}"

definition refs_ok :: "heap \<Rightarrow> ptr set \<Rightarrow> (ptr \<Rightarrow> nat) \<Rightarrow> bool" where
  "refs_ok m L R \<longleftrightarrow> (\<forall>p. 0 < R p \<longrightarrow> unat (refcount (m p)) = R p \<and> \<not> has_flag ITEM_CHUNKED (m p) \<and>
     \<not> has_flag ITEM_SLABBED (m p) \<and> (has_flag ITEM_LINKED (m p) \<longleftrightarrow> p \<in> L))"

definition counted :: "mc \<Rightarrow> ptr set \<Rightarrow> bool" where
  "counted c L \<longleftrightarrow> finite L \<and> curr_items c = of_nat (card L) \<and> curr_bytes c = (\<Sum>p\<in>L. ITEM_ntotal (mem c p)) \<and>
     (\<forall>p\<in>L. 2 \<le> nbytes (mem c p))"

definition mc_rep :: "hash_fn \<Rightarrow> mc \<Rightarrow> ptr set \<Rightarrow> ptr set \<Rightarrow> ptr set \<Rightarrow> ptr set \<Rightarrow> (ptr \<Rightarrow> nat) \<Rightarrow> ptr set \<Rightarrow> bool" where
  "mc_rep hash c Lq K Lh L R A \<longleftrightarrow> (\<exists>Q. lru_ok c Lq K Q) \<and> assoc_rep hash (mem c) (ht c) Lh \<and>
     slab_inv (cfg c) (mem c) (sl c) (live (mem c) R) A \<and> refs_ok (mem c) L R \<and> counted c L \<and>
     K \<inter> A = {} \<and> Lq \<union> Lh \<union> L \<subseteq> {p. 0 < R p}"

text \<open>Between operations: \<open>L\<close> are the linked items and \<open>G p\<close> the references held outside the table.\<close>

definition mc_inv :: "hash_fn \<Rightarrow> mc \<Rightarrow> ptr set \<Rightarrow> ptr set \<Rightarrow> (ptr \<Rightarrow> nat) \<Rightarrow> ptr set \<Rightarrow> bool" where
  "mc_inv hash c L K G A \<longleftrightarrow> mc_rep hash c L K L L (\<lambda>p. G p + (if p \<in> L then 1 else 0)) A"

lemma mc_repD:
  assumes "mc_rep hash c Lq K Lh L R A"
  shows "\<exists>Q. lru_ok c Lq K Q" "assoc_rep hash (mem c) (ht c) Lh"
    "slab_inv (cfg c) (mem c) (sl c) (live (mem c) R) A" "refs_ok (mem c) L R" "counted c L" "K \<inter> A = {}"
    "p \<in> Lq \<Longrightarrow> 0 < R p" "p \<in> Lh \<Longrightarrow> 0 < R p" "p \<in> L \<Longrightarrow> 0 < R p"
  using assms unfolding mc_rep_def by blast+

lemma fst_live [simp]: "fst ` live m R = {p. 0 < R p}" by (force simp: live_def)

lemma mc_rep_item:
  assumes rep: "mc_rep hash c Lq K Lh L R A" and p: "0 < R p"
  shows "p \<noteq> NULL" "p \<in> A" "p \<notin> K" "unat (refcount (mem c p)) = R p"
    "\<not> has_flag ITEM_CHUNKED (mem c p)" "\<not> has_flag ITEM_SLABBED (mem c p)" "has_flag ITEM_LINKED (mem c p) \<longleftrightarrow> p \<in> L"
    "unat (ITEM_clsid (mem c p)) \<in> {1..power_largest (sl c)}"
proof -
  have u: "(p, unat (ITEM_clsid (mem c p))) \<in> live (mem c) R" using p by (auto simp: live_def)
  note s = slab_inv_used [OF mc_repD(3) [OF rep] u]
  show "p \<noteq> NULL" "p \<in> A" "p \<notin> K" "unat (ITEM_clsid (mem c p)) \<in> {1..power_largest (sl c)}"
    using s mc_repD(6) [OF rep] by auto
  show "unat (refcount (mem c p)) = R p" "\<not> has_flag ITEM_CHUNKED (mem c p)" "\<not> has_flag ITEM_SLABBED (mem c p)"
    "has_flag ITEM_LINKED (mem c p) \<longleftrightarrow> p \<in> L"
    using mc_repD(4) [OF rep] p by (simp_all add: refs_ok_def)
qed

text \<open>The bookkeeping fields are no part of it.\<close>

lemma lru_ok_cong:
  assumes "mem c' = mem c" "heads c' = heads c" "tails c' = tails c" "lru_sizes c' = lru_sizes c" "sizes_bytes c' = sizes_bytes c"
  shows "lru_ok c' L K Q \<longleftrightarrow> lru_ok c L K Q"
  by (simp add: lru_ok_def assms)

lemma mc_rep_cong:
  assumes "mem c' = mem c" "heads c' = heads c" "tails c' = tails c" "lru_sizes c' = lru_sizes c" "sizes_bytes c' = sizes_bytes c"
    "ht c' = ht c" "sl c' = sl c" "cfg c' = cfg c" "curr_items c' = curr_items c" "curr_bytes c' = curr_bytes c"
  shows "mc_rep hash c' Lq K Lh L R A \<longleftrightarrow> mc_rep hash c Lq K Lh L R A"
proof -
  have "(\<exists>Q. lru_ok c' Lq K Q) = (\<exists>Q. lru_ok c Lq K Q)" by (simp only: lru_ok_cong [OF assms(1-5)])
  then show ?thesis unfolding mc_rep_def counted_def by (simp only: assms)
qed

lemma mc_rep_bookkeeping [simp]:
  "mc_rep hash (c\<lparr>itemstats := a\<rparr>) Lq K Lh L R A = mc_rep hash c Lq K Lh L R A"
  "mc_rep hash (c\<lparr>stats_sizes_hist := b\<rparr>) Lq K Lh L R A = mc_rep hash c Lq K Lh L R A"
  "mc_rep hash (c\<lparr>cas_id := d\<rparr>) Lq K Lh L R A = mc_rep hash c Lq K Lh L R A"
  "mc_rep hash (c\<lparr>get_flushed := e\<rparr>) Lq K Lh L R A = mc_rep hash c Lq K Lh L R A"
  "mc_rep hash (c\<lparr>get_expired := f\<rparr>) Lq K Lh L R A = mc_rep hash c Lq K Lh L R A"
  "mc_rep hash (c\<lparr>bump_bufs := g\<rparr>) Lq K Lh L R A = mc_rep hash c Lq K Lh L R A"
  "mc_rep hash (c\<lparr>rebal := i\<rparr>) Lq K Lh L R A = mc_rep hash c Lq K Lh L R A"
  "mc_rep hash (c\<lparr>total_items := j\<rparr>) Lq K Lh L R A = mc_rep hash c Lq K Lh L R A"
  "mc_rep hash (upd_stats k fs c) Lq K Lh L R A = mc_rep hash c Lq K Lh L R A"
  by (rule mc_rep_cong; simp add: upd_stats_def)+

lemma mc_rep_sizes [simp]:
  "mc_rep hash (item_stats_sizes_add p c) Lq K Lh L R A = mc_rep hash c Lq K Lh L R A"
  "mc_rep hash (item_stats_sizes_remove p c) Lq K Lh L R A = mc_rep hash c Lq K Lh L R A"
  by (rule mc_rep_cong; simp add: item_stats_sizes_add_def item_stats_sizes_remove_def item_stats_sizes_change_def Let_def
      split: option.split)+

section \<open>What an operation leaves alone\<close>

text \<open>The configuration, the clock, the class sizes and the bump buffer stay, and so do the items of \<open>S\<close> apart from their links.\<close>

definition kept :: "ptr set \<Rightarrow> mc \<Rightarrow> mc \<Rightarrow> bool" where
  "kept S c c' \<longleftrightarrow> cfg c' = cfg c \<and> current_time c' = current_time c \<and> geometry (sl c) (sl c') \<and>
     bump_bufs c' = bump_bufs c \<and> (\<forall>q\<in>S. core (mem c' q) = core (mem c q))"

lemma kept_refl [simp]: "kept S c c" by (simp add: kept_def)

lemma kept_trans: "kept S c c' \<Longrightarrow> kept T c' c'' \<Longrightarrow> X \<subseteq> S \<Longrightarrow> X \<subseteq> T \<Longrightarrow> kept X c c''"
  unfolding kept_def by (simp add: subset_iff) (blast intro: geometry_trans)

lemma keptD:
  assumes "kept S c c'"
  shows "cfg c' = cfg c" "current_time c' = current_time c" "geometry (sl c) (sl c')"
    "q \<in> S \<Longrightarrow> core (mem c' q) = core (mem c q)" "bump_bufs c' = bump_bufs c"
  using assms by (simp_all add: kept_def)

lemma kept_mono: "kept S c c' \<Longrightarrow> X \<subseteq> S \<Longrightarrow> kept X c c'" by (auto simp: kept_def)

lemma kept_upd_item: "p \<notin> S \<Longrightarrow> kept S c (upd_item p f c)"
  by (auto simp: kept_def upd_item_def hupd_apply)

lemma kept_lru_frame: "lru_frame X c c' \<Longrightarrow> kept S c c'"
  using lru_frameD [of X c c'] by (simp add: kept_def)

lemma kept_fields:
  assumes "cfg c' = cfg c" "current_time c' = current_time c" "sl c' = sl c" "mem c' = mem c" "bump_bufs c' = bump_bufs c"
  shows "kept S c c'"
  using assms by (simp add: kept_def)

section \<open>Writing to a live item\<close>

text \<open>What the invariant reads of a live item, apart from its reference count.\<close>

definition shape :: "item \<Rightarrow> ptr \<times> ptr \<times> ptr \<times> u8 \<times> u8 \<times> byte list \<times> int \<times> u64 \<times> u64 \<times> bool \<times> bool \<times> bool" where
  "shape x = (it_next x, it_prev x, h_next x, slabs_clsid x, nkey x, data_key x, nbytes x, lru_bytes x, ITEM_ntotal x,
     has_flag ITEM_LINKED x, has_flag ITEM_SLABBED x, has_flag ITEM_CHUNKED x)"

lemma shape_clsid: "shape x = shape y \<Longrightarrow> ITEM_clsid x = ITEM_clsid y"
  by (simp add: shape_def ITEM_clsid_def)

lemma mc_rep_write:
  assumes rep: "mc_rep hash c Lq K Lh L R A" and p: "0 < R p"
    and sh: "shape (f (mem c p)) = shape (mem c p)" and n: "unat (refcount (f (mem c p))) = n" "0 < n"
  shows "mc_rep hash (upd_item p f c) Lq K Lh L (R(p := n)) A"
proof -
  let ?c = "upd_item p f c"
  have m: "mem ?c q = (if q = p then f (mem c p) else mem c q)" for q by (simp add: upd_item_def hupd_apply)
  have all: "shape (mem ?c q) = shape (mem c q)" for q using sh by (simp add: m)
  have pK: "p \<notin> K" using mc_rep_item(3) [OF rep p] .
  have lv: "live (mem ?c) (R(p := n)) = live (mem c) R"
    unfolding live_def using p n(2) shape_clsid [OF all] by (intro image_cong) auto
  obtain Q where Q: "lru_ok c Lq K Q" using mc_repD(1) [OF rep] by blast
  have "lru_ok ?c Lq K Q"
  proof (rule lru_ok_frame [OF Q])
    show "is_crawler (mem ?c q)" if "q \<in> K" for q using lru_okD(6) [OF Q that] that pK by (auto simp: m)
  qed (use all in \<open>auto simp: upd_item_def shape_def\<close>)
  moreover have "assoc_rep hash (mem ?c) (ht ?c) Lh"
    using assoc_rep_frame [OF mc_repD(2) [OF rep], of "mem ?c"] all by (simp add: upd_item_def shape_def)
  moreover have "slab_inv (cfg ?c) (mem ?c) (sl ?c) (live (mem ?c) (R(p := n))) A"
  proof -
    have "slab_inv (cfg c) (mem ?c) (sl c) (live (mem c) R) A"
      by (rule slab_inv_write [OF mc_repD(3) [OF rep]]) (use p in \<open>auto simp: m\<close>)
    then show ?thesis unfolding lv by (simp add: upd_item_def)
  qed
  moreover have "refs_ok (mem ?c) L (R(p := n))"
    using mc_repD(4) [OF rep] n p sh unfolding refs_ok_def by (auto simp: m shape_def)
  moreover have "counted ?c L"
    using mc_repD(5) [OF rep] all unfolding counted_def by (simp add: upd_item_def shape_def)
  moreover have "Lq \<union> Lh \<union> L \<subseteq> {q. 0 < (R(p := n)) q}" using n(2) rep unfolding mc_rep_def by auto
  ultimately show ?thesis using mc_repD(6) [OF rep] unfolding mc_rep_def by blast
qed

section \<open>Queue steps\<close>

lemma live_core:
  assumes "\<And>q. 0 < R q \<Longrightarrow> core (m' q) = core (m q)" shows "live m' R = live m R"
  unfolding live_def using core_fields(14) [OF assms] by (intro image_cong) auto

text \<open>A change of the queues: everything else of the invariant survives a change of links of queued items.\<close>

lemma mc_rep_requeue:
  assumes rep: "mc_rep hash c Lq K Lh L R A" and fr: "lru_frame S c c'" and S: "S \<inter> A \<subseteq> {p. 0 < R p}"
    and q: "lru_ok c' Lq' K' Q'" and Lq': "Lq' \<subseteq> {p. 0 < R p}" and K': "K' \<inter> A = {}"
  shows "mc_rep hash c' Lq' K' Lh L R A" and "kept X c c'"
proof -
  note fD = lru_frameD [OF fr]
  note cf = core_fields [OF fD(1)]
  have lv: "live (mem c') R = live (mem c) R" by (rule live_core) (rule fD(1))
  have "assoc_rep hash (mem c') (ht c') Lh"
    using assoc_rep_frame [OF mc_repD(2) [OF rep], of "mem c'"] fD(2,4) cf(7,9) by simp
  moreover have "slab_inv (cfg c') (mem c') (sl c') (live (mem c') R) A"
  proof -
    have "mem c' q = mem c q" if "q \<in> A" "q \<notin> fst ` live (mem c) R" for q
    proof -
      have "q \<notin> {p. 0 < R p}" using that by simp
      then show ?thesis using S that(1) by (intro fD(3)) blast
    qed
    then have "slab_inv (cfg c) (mem c') (sl c) (live (mem c) R) A"
      by (intro slab_inv_write [OF mc_repD(3) [OF rep]]) simp
    then show ?thesis using fD(5,7) lv by simp
  qed
  moreover have "refs_ok (mem c') L R"
    using mc_repD(4) [OF rep] cf(4,12) unfolding refs_ok_def by simp
  moreover have "counted c' L"
    using mc_repD(5) [OF rep] cf(3,16) fD(12,13) unfolding counted_def by simp
  ultimately show "mc_rep hash c' Lq' K' Lh L R A"
    using mc_repD(8,9) [OF rep] q Lq' K' unfolding mc_rep_def by blast
  show "kept X c c'" by (rule kept_lru_frame [OF fr])
qed

lemma link_q_step:
  assumes rep: "mc_rep hash c Lq K Lh L R A" and p: "0 < R p" "p \<notin> Lq"
  shows "\<exists>c'. do_item_link_q p c = Some c' \<and> mc_rep hash c' (insert p Lq) K Lh L R A \<and> kept UNIV c c'"
proof -
  obtain Q where Q: "lru_ok c Lq K Q" using mc_repD(1) [OF rep] by blast
  have "p \<notin> Lq \<union> K" using p(2) mc_rep_item(3) [OF rep p(1)] by simp
  from do_item_link_q_ok [OF Q mc_rep_item(1) [OF rep p(1)] this mc_rep_item(6) [OF rep p(1)]] obtain c' where
    c': "do_item_link_q p c = Some c'" "lru_frame (insert p (Lq \<union> K)) c c'"
      "lru_ok c' (insert p Lq) K (Q(slabs_clsid (mem c p) := p # Q (slabs_clsid (mem c p))))" by blast
  have "insert p (Lq \<union> K) \<inter> A \<subseteq> {p. 0 < R p}" "insert p Lq \<subseteq> {p. 0 < R p}"
    using p(1) mc_repD(6,7) [OF rep] by auto
  from mc_rep_requeue [OF rep c'(2) this(1) c'(3) this(2) mc_repD(6) [OF rep]] c'(1) show ?thesis by blast
qed

lemma unlink_q_step:
  assumes rep: "mc_rep hash c Lq K Lh L R A" and p: "p \<in> Lq"
  shows "\<exists>c'. do_item_unlink_q p c = Some c' \<and> mc_rep hash c' (Lq - {p}) K Lh L R A \<and> kept UNIV c c'"
proof -
  obtain Q where Q: "lru_ok c Lq K Q" using mc_repD(1) [OF rep] by blast
  from do_item_unlink_q_ok [OF Q p] obtain c' Q' where
    c': "do_item_unlink_q p c = Some c'" "lru_ok c' (Lq - {p}) K Q'" "lru_frame (Lq \<union> K) c c'" by blast
  have "(Lq \<union> K) \<inter> A \<subseteq> {p. 0 < R p}" "Lq - {p} \<subseteq> {p. 0 < R p}" using mc_repD(6,7) [OF rep] by auto
  from mc_rep_requeue [OF rep c'(3) this(1) c'(2) this(2) mc_repD(6) [OF rep]] c'(1) show ?thesis by blast
qed

section \<open>Hash table steps\<close>

text \<open>A change of the chain pointers and the table.\<close>

lemma mc_rep_rehash:
  assumes rep: "mc_rep hash c Lq K Lh L R A" and g: "\<And>q. (m' q)\<lparr>h_next := NULL\<rparr> = (mem c q)\<lparr>h_next := NULL\<rparr>"
    and h: "assoc_rep hash m' a' Lh'" and Lh': "Lh' \<subseteq> {p. 0 < R p}"
  shows "mc_rep hash (c\<lparr>mem := m', ht := a'\<rparr>) Lq K Lh' L R A" and "kept X c (c\<lparr>mem := m', ht := a'\<rparr>)"
proof -
  let ?c = "c\<lparr>mem := m', ht := a'\<rparr>"
  have core: "core (m' q) = core (mem c q)" for q
    using arg_cong [OF g, of core] by simp
  have nx: "it_next (m' q) = it_next (mem c q)" "it_prev (m' q) = it_prev (mem c q)" for q
    using arg_cong [OF g, of it_next] arg_cong [OF g, of it_prev] by simp_all
  note cf = core_fields [OF core]
  have lv: "live m' R = live (mem c) R" by (rule live_core) (rule core)
  obtain Q where Q: "lru_ok c Lq K Q" using mc_repD(1) [OF rep] by blast
  have "lru_ok ?c Lq K Q"
    by (rule lru_ok_frame [OF Q]) (use nx cf(6,17,18) lru_okD(6) [OF Q] in simp_all)
  moreover have "slab_inv (cfg ?c) (mem ?c) (sl ?c) (live (mem ?c) R) A"
    using slab_inv_write [OF mc_repD(3) [OF rep], of m'] nx cf(5,6) lv by simp
  moreover have "refs_ok (mem ?c) L R"
    using mc_repD(4) [OF rep] cf(4,12) unfolding refs_ok_def by simp
  moreover have "counted ?c L" using mc_repD(5) [OF rep] cf(3,16) unfolding counted_def by simp
  moreover have "assoc_rep hash (mem ?c) (ht ?c) Lh'" using h by simp
  ultimately show "mc_rep hash ?c Lq K Lh' L R A"
    using mc_repD(6,7,9) [OF rep] Lh' unfolding mc_rep_def by blast
  show "kept X c ?c" by (simp add: kept_def core)
qed

lemma hash_insert_step:
  assumes rep: "mc_rep hash c Lq K Lh L R A" and p: "0 < R p" "p \<notin> Lh" "key_ok (mem c p)"
    and new: "assoc_abs (mem c) Lh (ITEM_key (mem c p)) = None" and hv: "hv = item_hash hash (mem c p)"
    and ins: "assoc_insert p hv (mem c) (ht c) = (m', a')"
  shows "mc_rep hash (c\<lparr>mem := m', ht := a'\<rparr>) Lq K (insert p Lh) L R A" and "kept X c (c\<lparr>mem := m', ht := a'\<rparr>)"
proof -
  have g: "(m' q)\<lparr>h_next := NULL\<rparr> = (mem c q)\<lparr>h_next := NULL\<rparr>" for q by (rule assoc_insert_fields [OF ins]) simp
  have h: "assoc_rep hash m' a' (insert p Lh)"
    by (rule assoc_insert_correct(1) [OF mc_repD(2) [OF rep] mc_rep_item(1) [OF rep p(1)] p(2,3) new hv ins])
  have l: "insert p Lh \<subseteq> {p. 0 < R p}" using p(1) mc_repD(8) [OF rep] by auto
  show "mc_rep hash (c\<lparr>mem := m', ht := a'\<rparr>) Lq K (insert p Lh) L R A" "kept X c (c\<lparr>mem := m', ht := a'\<rparr>)"
    by (rule mc_rep_rehash [OF rep g h l])+
qed

lemma hash_delete_step:
  assumes rep: "mc_rep hash c Lq K Lh L R A" and p: "p \<in> Lh" and hv: "hv = item_hash hash (mem c p)"
  shows "\<exists>m' a'. assoc_delete (ITEM_key (mem c p)) (unat (nkey (mem c p))) hv (mem c) (ht c) = Some (m', a') \<and>
     mc_rep hash (c\<lparr>mem := m', ht := a'\<rparr>) Lq K (Lh - {p}) L R A \<and> kept UNIV c (c\<lparr>mem := m', ht := a'\<rparr>)"
proof -
  note h = mc_repD(2) [OF rep]
  have "assoc_abs (mem c) Lh (ITEM_key (mem c p)) = Some p" using p by (simp add: assoc_abs_eq_Some [OF assoc_rep_inj [OF h]])
  from assoc_delete_correct [OF h key_ok_length [OF assoc_rep_key_ok [OF h p]] this] obtain m' a' where
    d: "assoc_delete (ITEM_key (mem c p)) (unat (nkey (mem c p))) hv (mem c) (ht c) = Some (m', a')"
      "assoc_rep hash m' a' (Lh - {p})" by (metis hv item_hash_def)
  have g: "(m' q)\<lparr>h_next := NULL\<rparr> = (mem c q)\<lparr>h_next := NULL\<rparr>" for q by (rule assoc_delete_fields [OF d(1)]) simp
  have l: "Lh - {p} \<subseteq> {p. 0 < R p}" using mc_repD(8) [OF rep] by auto
  from mc_rep_rehash [OF rep g d(2) l] d(1) show ?thesis by blast
qed

section \<open>The linked flag and the statistics\<close>

lemma set_flag_fields [simp]:
  "it_next (set_flag g x) = it_next x" "it_prev (set_flag g x) = it_prev x" "h_next (set_flag g x) = h_next x"
  "slabs_clsid (set_flag g x) = slabs_clsid x" "nkey (set_flag g x) = nkey x" "data_key (set_flag g x) = data_key x"
  "nbytes (set_flag g x) = nbytes x" "refcount (set_flag g x) = refcount x" "exptime (set_flag g x) = exptime x"
  "data_value (set_flag g x) = data_value x" "data_suffix (set_flag g x) = data_suffix x" "data_cas (set_flag g x) = data_cas x"
  "it_time (set_flag g x) = it_time x"
  by (simp_all add: set_flag_def)

lemma clear_flag_fields [simp]:
  "it_next (clear_flag g x) = it_next x" "it_prev (clear_flag g x) = it_prev x" "h_next (clear_flag g x) = h_next x"
  "slabs_clsid (clear_flag g x) = slabs_clsid x" "nkey (clear_flag g x) = nkey x" "data_key (clear_flag g x) = data_key x"
  "nbytes (clear_flag g x) = nbytes x" "refcount (clear_flag g x) = refcount x" "exptime (clear_flag g x) = exptime x"
  "data_value (clear_flag g x) = data_value x" "data_suffix (clear_flag g x) = data_suffix x" "data_cas (clear_flag g x) = data_cas x"
  "it_time (clear_flag g x) = it_time x"
  by (simp_all add: clear_flag_def)

lemma has_flag_update [simp]:
  "has_flag g (x\<lparr>it_time := a\<rparr>) = has_flag g x" "has_flag g (x\<lparr>refcount := b\<rparr>) = has_flag g x"
  "has_flag g (x\<lparr>data_cas := d\<rparr>) = has_flag g x" "has_flag g (x\<lparr>exptime := b'\<rparr>) = has_flag g x"
  "has_flag g (x\<lparr>slabs_clsid := e\<rparr>) = has_flag g x"
  by (simp_all add: has_flag_def)

text \<open>An update of the flags that a change of the linked set comes with.\<close>

definition same_place :: "item \<Rightarrow> item \<Rightarrow> bool" where
  "same_place x y \<longleftrightarrow> it_next x = it_next y \<and> it_prev x = it_prev y \<and> h_next x = h_next y \<and> slabs_clsid x = slabs_clsid y \<and>
     nkey x = nkey y \<and> data_key x = data_key y \<and> nbytes x = nbytes y \<and> lru_bytes x = lru_bytes y \<and>
     ITEM_ntotal x = ITEM_ntotal y \<and> refcount x = refcount y \<and>
     has_flag ITEM_SLABBED x = has_flag ITEM_SLABBED y \<and> has_flag ITEM_CHUNKED x = has_flag ITEM_CHUNKED y"

lemma mc_rep_relink:
  assumes rep: "mc_rep hash c Lq K Lh L R A" and p: "0 < R p"
    and sp: "same_place (f (mem c p)) (mem c p)"
    and fl: "has_flag ITEM_LINKED (f (mem c p)) \<longleftrightarrow> p \<in> L'" and L': "L' - {p} = L - {p}"
    and cnt: "counted (upd_item p f c\<lparr>curr_items := n, curr_bytes := b\<rparr>) L'"
  shows "mc_rep hash (upd_item p f c\<lparr>curr_items := n, curr_bytes := b\<rparr>) Lq K Lh L' R A"
proof -
  let ?c = "upd_item p f c\<lparr>curr_items := n, curr_bytes := b\<rparr>"
  have m: "mem (upd_item p f c) q = (if q = p then f (mem c p) else mem c q)" for q by (simp add: upd_item_def hupd_apply)
  have all: "same_place (mem ?c q) (mem c q)" for q using sp by (simp add: m same_place_def)
  have pK: "p \<notin> K" using mc_rep_item(3) [OF rep p] .
  have lv: "live (mem ?c) R = live (mem c) R"
    unfolding live_def using all by (intro image_cong) (auto simp: same_place_def ITEM_clsid_def)
  obtain Q where Q: "lru_ok c Lq K Q" using mc_repD(1) [OF rep] by blast
  have "lru_ok ?c Lq K Q"
  proof (rule lru_ok_frame [OF Q])
    show "is_crawler (mem ?c q)" if "q \<in> K" for q using lru_okD(6) [OF Q that] that pK by (auto simp: m)
  qed (use all in \<open>auto simp: upd_item_def same_place_def\<close>)
  moreover have "assoc_rep hash (mem ?c) (ht ?c) Lh"
    using assoc_rep_frame [OF mc_repD(2) [OF rep], of "mem ?c"] all by (simp add: upd_item_def same_place_def)
  moreover have "slab_inv (cfg ?c) (mem ?c) (sl ?c) (live (mem ?c) R) A"
  proof -
    have "slab_inv (cfg c) (mem ?c) (sl c) (live (mem c) R) A"
      by (rule slab_inv_write [OF mc_repD(3) [OF rep]]) (use p in \<open>auto simp: m\<close>)
    then show ?thesis unfolding lv by (simp add: upd_item_def)
  qed
  moreover have "refs_ok (mem ?c) L' R"
    using mc_repD(4) [OF rep] L' sp fl unfolding refs_ok_def by (auto simp: m same_place_def)
  moreover have "L' \<subseteq> {q. 0 < R q}" using L' mc_repD(9) [OF rep] p by blast
  ultimately show ?thesis using mc_repD(6,7,8) [OF rep] cnt unfolding mc_rep_def by blast
qed

section \<open>Reference counts and freeing\<close>

lemma shape_refcount [simp]: "shape (x\<lparr>refcount := n\<rparr>) = shape x"
  by (simp add: shape_def lru_bytes_def ITEM_ntotal_def)

lemma shape_time [simp]: "shape (x\<lparr>it_time := n\<rparr>) = shape x"
  by (simp add: shape_def lru_bytes_def ITEM_ntotal_def)

lemma shape_exptime [simp]: "shape (x\<lparr>exptime := n\<rparr>) = shape x"
  by (simp add: shape_def lru_bytes_def ITEM_ntotal_def)

lemma shape_set_cas [simp]: "shape (ITEM_set_cas v x) = shape x"
  by (simp add: shape_def lru_bytes_def ITEM_ntotal_def ITEM_set_cas_def)

lemma ref_inc_step:
  assumes rep: "mc_rep hash c Lq K Lh L R A" and p: "0 < R p" "R p + 1 < 2 ^ 16"
  shows "mc_rep hash (upd_item p (\<lambda>x. x\<lparr>refcount := refcount x + 1\<rparr>) c) Lq K Lh L (R(p := R p + 1)) A"
proof (rule mc_rep_write [OF rep p(1)])
  have "unat (refcount (mem c p)) + 1 < 2 ^ 16" using mc_rep_item(4) [OF rep p(1)] p(2) by simp
  then have "unat (refcount (mem c p) + 1) = unat (refcount (mem c p)) + 1"
    by (subst unat_add_lem [THEN iffD1]) simp_all
  then show "unat (refcount ((mem c p)\<lparr>refcount := refcount (mem c p) + 1\<rparr>)) = R p + 1"
    using mc_rep_item(4) [OF rep p(1)] by simp
qed simp_all

lemma unat_refcount_dec:
  assumes "mc_rep hash c Lq K Lh L R A" "0 < R p"
  shows "refcount (mem c p) \<noteq> 0" "unat (refcount (mem c p) - 1) = R p - 1"
proof -
  have u: "unat (refcount (mem c p)) = R p" by (rule mc_rep_item(4) [OF assms])
  then show n: "refcount (mem c p) \<noteq> 0" using assms(2) by auto
  show "unat (refcount (mem c p) - 1) = R p - 1" using n u by (simp add: unat_minus_one)
qed

lemma remove_ref_step:
  assumes rep: "mc_rep hash c Lq K Lh L R A" and p: "1 < R p"
  shows "\<exists>c'. do_item_remove p c = Some c' \<and> mc_rep hash c' Lq K Lh L (R(p := R p - 1)) A \<and> kept (- {p}) c c' \<and>
     c' = upd_item p (\<lambda>x. x\<lparr>refcount := refcount x - 1\<rparr>) c"
proof -
  have p0: "0 < R p" using p by simp
  note d = unat_refcount_dec [OF rep p0]
  have "refcount (mem c p) - 1 \<noteq> 0" using d(2) p by auto
  then have "do_item_remove p c = Some (upd_item p (\<lambda>x. x\<lparr>refcount := refcount x - 1\<rparr>) c)"
    using d(1) mc_rep_item(6) [OF rep p0] by (simp add: do_item_remove_def upd_item_def hupd_apply)
  moreover have "mc_rep hash (upd_item p (\<lambda>x. x\<lparr>refcount := refcount x - 1\<rparr>) c) Lq K Lh L (R(p := R p - 1)) A"
    by (rule mc_rep_write [OF rep p0]) (use d(2) p in simp_all)
  ultimately show ?thesis using kept_upd_item [of p "- {p}"] by blast
qed

lemma mc_rep_free:
  assumes rep: "mc_rep hash c Lq K Lh L R A" and p: "0 < R p" "p \<notin> Lq" "p \<notin> Lh" "p \<notin> L"
    and f: "slab_inv (cfg c) m' s' (live (mem c) R - {(p, unat (ITEM_clsid (mem c p)))}) A" "geometry (sl c) s'"
      "\<And>q. q \<noteq> p \<Longrightarrow> 0 < R q \<or> q \<in> K \<Longrightarrow> m' q = mem c q"
  shows "mc_rep hash (c\<lparr>mem := m', sl := s'\<rparr>) Lq K Lh L (R(p := 0)) A" and "kept ({q. 0 < R q} - {p}) c (c\<lparr>mem := m', sl := s'\<rparr>)"
proof -
  let ?c = "c\<lparr>mem := m', sl := s'\<rparr>"
  have q: "m' q = mem c q" if "q \<in> Lq \<or> q \<in> Lh \<or> q \<in> L \<or> q \<in> K" for q
    using that p mc_repD(7-9) [OF rep] mc_rep_item(3) [OF rep p(1)] by (intro f(3)) auto
  have lv: "live m' (R(p := 0)) = live (mem c) R - {(p, unat (ITEM_clsid (mem c p)))}"
    using f(3) unfolding live_def by (auto simp: image_iff split: if_splits)
  obtain Q where Q: "lru_ok c Lq K Q" using mc_repD(1) [OF rep] by blast
  have "lru_ok ?c Lq K Q" by (rule lru_ok_frame [OF Q]) (use q lru_okD(6) [OF Q] in auto)
  moreover have "assoc_rep hash (mem ?c) (ht ?c) Lh" using assoc_rep_frame [OF mc_repD(2) [OF rep], of m'] q by simp
  moreover have "slab_inv (cfg ?c) (mem ?c) (sl ?c) (live (mem ?c) (R(p := 0))) A" using f(1) lv by simp
  moreover have "refs_ok (mem ?c) L (R(p := 0))"
    using mc_repD(4) [OF rep] f(3) unfolding refs_ok_def by auto
  moreover have "counted ?c L" using mc_repD(5) [OF rep] q unfolding counted_def by simp
  ultimately show "mc_rep hash ?c Lq K Lh L (R(p := 0)) A"
    using mc_repD(6-9) [OF rep] p(2-4) unfolding mc_rep_def by auto
  show "kept ({q. 0 < R q} - {p}) c ?c" using f(2,3) by (simp add: kept_def)
qed

lemma remove_last_step:
  assumes rep: "mc_rep hash c Lq K Lh L R A" and p: "R p = 1" "p \<notin> Lq" "p \<notin> Lh" "p \<notin> L"
  shows "\<exists>c'. do_item_remove p c = Some c' \<and> mc_rep hash c' Lq K Lh L (R(p := 0)) A \<and> kept ({q. 0 < R q} - {p}) c c'"
proof -
  define c1 where "c1 = upd_item p (\<lambda>x. x\<lparr>refcount := refcount x - 1\<rparr>) c"
  define x where "x = mem c1 p"
  have p0: "0 < R p" using p by simp
  note it = mc_rep_item [OF rep p0] and d = unat_refcount_dec [OF rep p0]
  have x: "x = (mem c p)\<lparr>refcount := refcount (mem c p) - 1\<rparr>" by (simp add: x_def c1_def upd_item_def hupd_apply)
  have r0: "refcount x = 0" using d(2) p(1) by (simp add: x unat_eq_zero)
  obtain Q where Q: "lru_ok c Lq K Q" using mc_repD(1) [OF rep] by blast
  have ht: "p \<noteq> heads c i \<and> p \<noteq> tails c i" for i
  proof -
    have "p \<notin> set (Q i)" using lru_okD(3) [OF Q, of p i] p(2) it(3) by blast
    then show ?thesis
      using item_queue_head_in [OF lru_okD(1) [OF Q, of i]] item_queue_tail_in [OF lru_okD(1) [OF Q, of i]] it(1) by auto
  qed
  have c1: "heads c1 = heads c" "tails c1 = tails c" "sl c1 = sl c" "cfg c1 = cfg c"
    "mem c1 = hupd p (\<lambda>x. x\<lparr>refcount := refcount x - 1\<rparr>) (mem c)" by (simp_all add: c1_def upd_item_def)
  have i1: "ITEM_clsid x = ITEM_clsid (mem c p)" by (simp add: x ITEM_clsid_def)
  let ?i = "unat (ITEM_clsid (mem c p))"
  have s1: "slab_inv (cfg c) (mem c1) (sl c) (live (mem c) R) A"
    by (rule slab_inv_write [OF mc_repD(3) [OF rep]]) (auto simp: c1 hupd_apply)
  have "(p, ?i) \<in> live (mem c) R" using p0 by (auto simp: live_def)
  from slab_inv_free_run [OF s1 this] it(5) obtain m' s' where
    f: "do_slabs_free p ?i (mem c1) (sl c) = Some (m', s')" "slab_inv (cfg c) m' s' (live (mem c) R - {(p, ?i)}) A" "geometry (sl c) s'"
      "\<forall>q. q \<noteq> p \<and> (q \<in> fst ` live (mem c) R \<or> (q \<noteq> NULL \<and> q \<notin> A)) \<longrightarrow> m' q = mem c1 q"
    using x [unfolded x_def] by auto
  have "do_item_remove p c = item_free p c1"
    using d(1) it(6) r0 unfolding do_item_remove_def c1_def [symmetric] x_def Let_def by simp
  also have "\<dots> = Some (c1\<lparr>mem := m', sl := s'\<rparr>)"
    using it(7) p(4) ht r0 f(1) i1 unfolding item_free_def Let_def x_def [symmetric] c1 by (simp add: x)
  finally have run: "do_item_remove p c = Some (c\<lparr>mem := m', sl := s'\<rparr>)" by (simp add: c1_def upd_item_def)
  have keep: "m' q = mem c q" if "q \<noteq> p" "0 < R q \<or> q \<in> K" for q
  proof -
    have "q \<noteq> NULL \<and> q \<notin> A" if "q \<in> K" using lru_ok_nonnull [OF Q] mc_repD(6) [OF rep] that by blast
    then show ?thesis using f(4) that by (auto simp: c1 hupd_apply)
  qed
  from mc_rep_free [OF rep p0 p(2-4) f(2,3) keep] run show ?thesis by blast
qed

end
