(* ===== verification/Item_Ops.thy ===== *)
theory Item_Ops
  imports Item_Inv
begin

text \<open>
  The operations of the item layer under the invariant \<open>mc_inv\<close>: each of them runs to its end, keeps the
  invariant and changes the map from keys to stored items the way its name says.
\<close>

section \<open>Counting references\<close>

definition refs_of :: "ptr set \<Rightarrow> (ptr \<Rightarrow> nat) \<Rightarrow> ptr \<Rightarrow> nat" where
  "refs_of L G p = G p + (if p \<in> L then 1 else 0)"

lemma mc_inv_rep: "mc_inv hash c L K G A \<longleftrightarrow> mc_rep hash c L K L L (refs_of L G) A"
  by (simp add: mc_inv_def refs_of_def [abs_def])

definition held :: "ptr set \<Rightarrow> (ptr \<Rightarrow> nat) \<Rightarrow> ptr set" where
  "held L G = {q. q \<in> L \<or> 0 < G q}"

lemma held_refs: "{q. 0 < refs_of L G q} = held L G"
  by (auto simp: held_def refs_of_def split: if_splits)

lemma refs_of_pos: "0 < refs_of L G p \<longleftrightarrow> p \<in> L \<or> 0 < G p"
  by (simp add: refs_of_def)

lemma refs_of_insert: "p \<notin> L \<Longrightarrow> (refs_of L G)(p := refs_of L G p + 1) = refs_of (insert p L) G"
  by (auto simp: refs_of_def fun_eq_iff)

lemma refs_of_delete: "p \<in> L \<Longrightarrow> (refs_of L G)(p := refs_of L G p - 1) = refs_of (L - {p}) G"
  by (auto simp: refs_of_def fun_eq_iff)

lemma refs_of_dec: "0 < G p \<Longrightarrow> (refs_of L G)(p := refs_of L G p - 1) = refs_of L (G(p := G p - 1))"
  by (auto simp: refs_of_def fun_eq_iff)

lemma refs_of_inc: "(refs_of L G)(p := refs_of L G p + 1) = refs_of L (G(p := G p + 1))"
  by (auto simp: refs_of_def fun_eq_iff)

lemma mc_inv_item:
  assumes "mc_inv hash c L K G A" "p \<in> held L G"
  shows "p \<noteq> NULL" "p \<notin> K" "\<not> has_flag ITEM_CHUNKED (mem c p)" "\<not> has_flag ITEM_SLABBED (mem c p)"
    "has_flag ITEM_LINKED (mem c p) \<longleftrightarrow> p \<in> L" "unat (refcount (mem c p)) = refs_of L G p"
  using mc_rep_item [OF assms(1) [unfolded mc_inv_rep], of p] assms(2) by (simp_all add: refs_of_pos held_def)

section \<open>Releasing a reference\<close>

lemma do_item_remove_inv:
  assumes inv: "mc_inv hash c L K G A" and p: "0 < G p"
  shows "\<exists>c'. do_item_remove p c = Some c' \<and> mc_inv hash c' L K (G(p := G p - 1)) A \<and> kept (held L G - {p}) c c' \<and>
     (p \<in> held L (G(p := G p - 1)) \<longrightarrow> c' = upd_item p (\<lambda>x. x\<lparr>refcount := refcount x - 1\<rparr>) c)"
proof -
  note rep = inv [unfolded mc_inv_rep]
  show ?thesis
  proof (cases "p \<in> L \<or> 1 < G p")
    case True
    then have "1 < refs_of L G p" using p by (auto simp: refs_of_def)
    from remove_ref_step [OF rep this] obtain c' where
      c': "do_item_remove p c = Some c'" "mc_inv hash c' L K (G(p := G p - 1)) A" "kept (- {p}) c c'"
        "c' = upd_item p (\<lambda>x. x\<lparr>refcount := refcount x - 1\<rparr>) c"
      unfolding mc_inv_rep refs_of_dec [of G p L, OF p] by blast
    have "kept (held L G - {p}) c c'" by (rule kept_mono [OF c'(3)]) auto
    with c' show ?thesis by blast
  next
    case False
    then have r: "refs_of L G p = 1" "p \<notin> L" using p by (auto simp: refs_of_def)
    have z: "(refs_of L G)(p := 0) = refs_of L (G(p := G p - 1))" using refs_of_dec [of G p L, OF p] r by simp
    from remove_last_step [OF rep r(1) r(2) r(2) r(2)] False p show ?thesis
      unfolding mc_inv_rep z held_refs by (auto simp: held_def)
  qed
qed

lemma core_upd:
  "core (x\<lparr>refcount := n\<rparr>) = (core x)\<lparr>refcount := n\<rparr>" "core (x\<lparr>it_time := a\<rparr>) = (core x)\<lparr>it_time := a\<rparr>"
  "core (x\<lparr>exptime := a\<rparr>) = (core x)\<lparr>exptime := a\<rparr>" "core (x\<lparr>slabs_clsid := i\<rparr>) = (core x)\<lparr>slabs_clsid := i\<rparr>"
  "core (x\<lparr>it_flags := f\<rparr>) = (core x)\<lparr>it_flags := f\<rparr>" "core (x\<lparr>data_cas := v\<rparr>) = (core x)\<lparr>data_cas := v\<rparr>"
  by (simp_all add: core_def)

lemma and_or_zero: "x AND (f OR g) = 0 \<longleftrightarrow> x AND f = 0 \<and> x AND g = 0" for x f g :: u16
  by (auto simp: bit_eq_iff bit_simps)

lemma refcount_set_cas [simp]: "refcount (ITEM_set_cas v x) = refcount x"
  by (simp add: ITEM_set_cas_def)

lemma set_cas_refcount: "(ITEM_set_cas v x)\<lparr>refcount := n\<rparr> = ITEM_set_cas v (x\<lparr>refcount := n\<rparr>)"
  by (cases x) (simp add: ITEM_set_cas_def has_flag_def)

section \<open>Linking\<close>

definition linked_item :: "mc \<Rightarrow> item \<Rightarrow> item" where
  "linked_item c x = ITEM_set_cas (if use_cas (cfg c) then cas_id c + 1 else 0)
     ((set_flag ITEM_LINKED x)\<lparr>it_time := current_time c, refcount := refcount x + 1\<rparr>)"

lemma counted_insert:
  assumes "counted c L" "p \<notin> L" "2 \<le> nbytes (mem c' p)" "\<And>q. q \<in> L \<Longrightarrow> mem c' q = mem c q"
    "curr_items c' = curr_items c + 1" "curr_bytes c' = curr_bytes c + ITEM_ntotal (mem c' p)"
  shows "counted c' (insert p L)"
  using assms unfolding counted_def by (auto simp: add.commute)

lemma counted_delete:
  assumes "counted c L" "p \<in> L" "\<And>q. q \<in> L - {p} \<Longrightarrow> mem c' q = mem c q"
    "curr_items c' = curr_items c - 1" "curr_bytes c' = curr_bytes c - ITEM_ntotal (mem c p)"
  shows "counted c' (L - {p})"
proof -
  have f: "finite L" using assms(1) by (simp add: counted_def)
  have "card L = card (L - {p}) + 1" using f assms(2) by (metis Suc_eq_plus1 card.remove)
  moreover have "(\<Sum>q\<in>L. ITEM_ntotal (mem c q)) = ITEM_ntotal (mem c p) + (\<Sum>q\<in>L - {p}. ITEM_ntotal (mem c q))"
    by (rule sum.remove [OF f assms(2)])
  moreover have "(\<Sum>q\<in>L - {p}. ITEM_ntotal (mem c' q)) = (\<Sum>q\<in>L - {p}. ITEM_ntotal (mem c q))"
    by (rule sum.cong) (use assms(3) in auto)
  ultimately show ?thesis using assms f unfolding counted_def by auto
qed

lemma do_item_link_inv:
  assumes inv: "mc_inv hash c L K G A" and p: "p \<notin> L" "0 < G p" "G p + 1 < 2 ^ 16" "key_ok (mem c p)" "2 \<le> nbytes (mem c p)"
    and new: "assoc_abs (mem c) L (ITEM_key (mem c p)) = None" and hv: "hv = item_hash hash (mem c p)"
  shows "\<exists>c'. do_item_link p hv c = Some c' \<and> mc_inv hash c' (insert p L) K G A \<and> kept (- {p}) c c' \<and>
     core (mem c' p) = core (linked_item c (mem c p))"
proof -
  let ?R = "refs_of L G"
  note rep = inv [unfolded mc_inv_rep]
  have p0: "0 < ?R p" using p(2) by (simp add: refs_of_def)
  note it = mc_rep_item [OF rep p0]
  define f where "f = (\<lambda>x. (set_flag ITEM_LINKED x)\<lparr>it_time := current_time c\<rparr>)"
  define c1 where "c1 = upd_item p f c"
  define n where "n = ITEM_ntotal (mem c1 p)"
  define c2 where "c2 = c1\<lparr>curr_items := curr_items c + 1, curr_bytes := curr_bytes c + n\<rparr>"
  define v where "v = (if use_cas (cfg c) then cas_id c + 1 else 0)"
  define c3 where "c3 = (c2\<lparr>total_items := total_items c + 1\<rparr>)\<lparr>cas_id := (if use_cas (cfg c) then cas_id c + 1 else cas_id c)\<rparr>"
  define c4 where "c4 = upd_item p (ITEM_set_cas v) c3"
  obtain m5 a5 where ins: "assoc_insert p hv (mem c4) (ht c4) = (m5, a5)" by fastforce
  have mp: "mem c1 p = f (mem c p)" "\<And>q. q \<noteq> p \<Longrightarrow> mem c1 q = mem c q" by (simp_all add: c1_def upd_item_def hupd_apply)
  have tot: "ITEM_ntotal (f x) = ITEM_ntotal x" "lru_bytes (f x) = lru_bytes x" for x
    by (simp_all add: f_def ITEM_ntotal_def lru_bytes_def)
  have "counted c2 (insert p L)"
    by (rule counted_insert [OF mc_repD(5) [OF rep] p(1)])
      (use p(1,5) mp in \<open>auto simp: c2_def n_def f_def c1_def upd_item_def hupd_apply\<close>)
  then have r2: "mc_rep hash c2 L K L (insert p L) ?R A"
    unfolding c2_def c1_def
    by (intro mc_rep_relink [OF rep p0]) (simp_all add: same_place_def f_def ITEM_ntotal_def lru_bytes_def)
  then have r3: "mc_rep hash c3 L K L (insert p L) ?R A" by (simp add: c3_def)
  have "mc_rep hash c4 L K L (insert p L) (?R(p := ?R p)) A"
    unfolding c4_def
    by (rule mc_rep_write [OF r3 p0])
      (use it(4) p0 in \<open>simp_all add: c3_def c2_def mp f_def refcount_set_cas\<close>)
  then have r4: "mc_rep hash c4 L K L (insert p L) ?R A" by simp
  have m4: "mem c4 p = ITEM_set_cas v (f (mem c p))" "\<And>q. q \<noteq> p \<Longrightarrow> mem c4 q = mem c q"
    by (simp_all add: c4_def c3_def c2_def upd_item_def hupd_apply mp)
  have keys: "ITEM_key (mem c4 q) = ITEM_key (mem c q)" for q
    using m4 by (cases "q = p") (simp_all add: f_def ITEM_key_def ITEM_set_cas_def)
  have "key_ok (mem c4 p)" "hv = item_hash hash (mem c4 p)"
    using p(4) hv by (simp_all add: m4 f_def key_ok_def ITEM_set_cas_def item_hash_def ITEM_key_def)
  moreover have "assoc_abs (mem c4) L (ITEM_key (mem c4 p)) = None"
    unfolding keys using new assoc_abs_cong [of "mem c4" "mem c" L, OF keys] by simp
  ultimately have r5: "mc_rep hash (c4\<lparr>mem := m5, ht := a5\<rparr>) L K (insert p L) (insert p L) ?R A"
    and k5: "kept UNIV c4 (c4\<lparr>mem := m5, ht := a5\<rparr>)"
    using hash_insert_step [OF r4 p0 p(1) _ _ _ ins] by blast+
  obtain c6 where c6: "do_item_link_q p (c4\<lparr>mem := m5, ht := a5\<rparr>) = Some c6"
      "mc_rep hash c6 (insert p L) K (insert p L) (insert p L) ?R A" "kept UNIV (c4\<lparr>mem := m5, ht := a5\<rparr>) c6"
    using link_q_step [OF r5 p0 p(1)] by blast
  define c7 where "c7 = upd_item p (\<lambda>x. x\<lparr>refcount := refcount x + 1\<rparr>) c6"
  have "?R p + 1 < 2 ^ 16" using p(1,3) by (simp add: refs_of_def)
  from ref_inc_step [OF c6(2) p0 this] have r7: "mc_rep hash c7 (insert p L) K (insert p L) (insert p L) (refs_of (insert p L) G) A"
    unfolding c7_def refs_of_insert [OF p(1)] .
  have sz: "mem (item_stats_sizes_add p c7) = mem c7" "cfg (item_stats_sizes_add p c7) = cfg c7"
    "current_time (item_stats_sizes_add p c7) = current_time c7" "sl (item_stats_sizes_add p c7) = sl c7"
    "bump_bufs (item_stats_sizes_add p c7) = bump_bufs c7"
    by (simp_all add: item_stats_sizes_add_def item_stats_sizes_change_def Let_def split: option.split)
  have nf: "it_flags (mem c p) AND (ITEM_LINKED OR ITEM_SLABBED) = 0"
    using it(6,7) p(1) unfolding and_or_zero has_flag_def by blast
  have run: "do_item_link p hv c = Some (item_stats_sizes_add p c7)"
  proof -
    have c2': "c1\<lparr>curr_bytes := curr_bytes c1 + n, curr_items := curr_items c1 + 1, total_items := total_items c1 + 1\<rparr> =
        c2\<lparr>total_items := total_items c + 1\<rparr>" by (simp add: c2_def c1_def upd_item_def)
    have c3': "(if use_cas (cfg (c2\<lparr>total_items := total_items c + 1\<rparr>)) then get_cas_id (c2\<lparr>total_items := total_items c + 1\<rparr>)
        else (0, c2\<lparr>total_items := total_items c + 1\<rparr>)) = (v, c3)"
      by (simp add: get_cas_id_def v_def c3_def c2_def c1_def upd_item_def)
    show ?thesis
      using nf c6(1) unfolding do_item_link_def f_def [symmetric] c1_def [symmetric] Let_def n_def [symmetric] c2' c3' prod.case
        c4_def [symmetric] ins item_link_q_def
      by (simp add: c7_def)
  qed
  have k4: "kept (- {p}) c c4"
    using m4(2) by (simp add: kept_def c4_def c3_def c2_def c1_def upd_item_def hupd_apply)
  have "kept (- {p}) c (c4\<lparr>mem := m5, ht := a5\<rparr>)" by (rule kept_trans [OF k4 k5]) auto
  then have k6: "kept (- {p}) c c6" by (rule kept_trans [OF _ c6(3)]) auto
  have k7: "kept (- {p}) c c7" unfolding c7_def by (rule kept_trans [OF k6 kept_upd_item [of p "- {p}"]]) auto
  have "core (mem c6 p) = core (mem c4 p)" using keptD(4) [OF c6(3)] keptD(4) [OF k5] by simp
  then have "core (mem c7 p) = core ((mem c4 p)\<lparr>refcount := refcount (mem c4 p) + 1\<rparr>)"
    using core_fields(4) [of "mem c6 p" "mem c4 p"] by (simp add: c7_def upd_item_def hupd_apply core_upd)
  then have "core (mem c7 p) = core (linked_item c (mem c p))"
    by (simp only: m4 linked_item_def v_def [symmetric] f_def refcount_set_cas set_cas_refcount) simp
  then show ?thesis
    using run r7 k7 sz unfolding mc_inv_rep kept_def by (intro exI [of _ "item_stats_sizes_add p c7"]) simp
qed

section \<open>Unlinking\<close>

lemma do_item_unlink_nolock_eq: "do_item_unlink_nolock it hv c = do_item_unlink it hv c"
  by (simp add: do_item_unlink_nolock_def do_item_unlink_def item_unlink_q_def)

lemma do_item_unlink_inv:
  assumes inv: "mc_inv hash c L K G A" and p: "p \<in> L" and hv: "hv = item_hash hash (mem c p)"
  shows "\<exists>c'. do_item_unlink p hv c = Some c' \<and> mc_inv hash c' (L - {p}) K G A \<and> kept (held L G - {p}) c c' \<and>
     (0 < G p \<longrightarrow> core (mem c' p) = core ((clear_flag ITEM_LINKED (mem c p))\<lparr>refcount := refcount (mem c p) - 1\<rparr>))"
proof -
  let ?R = "refs_of L G"
  note rep = inv [unfolded mc_inv_rep]
  have p0: "0 < ?R p" using p(1) by (simp add: refs_of_def)
  note it = mc_rep_item [OF rep p0]
  define c1 where "c1 = upd_item p (clear_flag ITEM_LINKED) c"
  define n where "n = ITEM_ntotal (mem c1 p)"
  define c2 where "c2 = c1\<lparr>curr_items := curr_items c - 1, curr_bytes := curr_bytes c - n\<rparr>"
  define c3 where "c3 = item_stats_sizes_remove p c2"
  have mp: "mem c1 p = clear_flag ITEM_LINKED (mem c p)" "\<And>q. q \<noteq> p \<Longrightarrow> mem c1 q = mem c q"
    by (simp_all add: c1_def upd_item_def hupd_apply)
  have tot: "ITEM_ntotal (clear_flag ITEM_LINKED x) = ITEM_ntotal x" "lru_bytes (clear_flag ITEM_LINKED x) = lru_bytes x" for x
    by (simp_all add: ITEM_ntotal_def lru_bytes_def)
  have "counted c2 (L - {p})"
    by (rule counted_delete [OF mc_repD(5) [OF rep] p(1)]) (use mp tot in \<open>auto simp: c2_def n_def\<close>)
  then have "mc_rep hash c2 L K L (L - {p}) ?R A"
    unfolding c2_def c1_def
    by (intro mc_rep_relink [OF rep p0]) (simp_all add: same_place_def tot)
  then have r3: "mc_rep hash c3 L K L (L - {p}) ?R A" by (simp add: c3_def)
  have f3: "mem c3 = mem c1" "cfg c3 = cfg c" "current_time c3 = current_time c" "sl c3 = sl c" "ht c3 = ht c"
    "bump_bufs c3 = bump_bufs c"
    by (simp_all add: c3_def item_stats_sizes_remove_def item_stats_sizes_change_def Let_def c2_def c1_def upd_item_def
      split: option.split)
  have k3: "kept (held L G - {p}) c c3" using mp(2) by (simp add: kept_def f3)
  have key: "ITEM_key (mem c3 p) = ITEM_key (mem c p)" "nkey (mem c3 p) = nkey (mem c p)"
    by (simp_all add: f3 mp ITEM_key_def)
  have "hv = item_hash hash (mem c3 p)" using hv key by (simp add: item_hash_def)
  from hash_delete_step [OF r3 p this] obtain m4 a4 where
    d: "assoc_delete (ITEM_key (mem c3 p)) (unat (nkey (mem c3 p))) hv (mem c3) (ht c3) = Some (m4, a4)"
      "mc_rep hash (c3\<lparr>mem := m4, ht := a4\<rparr>) L K (L - {p}) (L - {p}) ?R A" "kept UNIV c3 (c3\<lparr>mem := m4, ht := a4\<rparr>)" by blast
  obtain c5 where c5: "do_item_unlink_q p (c3\<lparr>mem := m4, ht := a4\<rparr>) = Some c5"
      "mc_rep hash c5 (L - {p}) K (L - {p}) (L - {p}) ?R A" "kept UNIV (c3\<lparr>mem := m4, ht := a4\<rparr>) c5"
    using unlink_q_step [OF d(2) p(1)] by blast
  have k5: "kept UNIV c3 c5" by (rule kept_trans [OF d(3) c5(3)]) auto
  have core5: "core (mem c5 p) = core (clear_flag ITEM_LINKED (mem c p))" using keptD(4) [OF k5] by (simp add: f3 mp)
  have c2': "c1\<lparr>curr_bytes := curr_bytes c1 - n, curr_items := curr_items c1 - 1\<rparr> = c2"
    by (simp add: c2_def c1_def upd_item_def)
  have run: "do_item_unlink p hv c = do_item_remove p c5"
    using it(7) p d(1) c5(1)
    unfolding do_item_unlink_def c1_def [symmetric] Let_def item_unlink_q_def n_def [symmetric] c2' c3_def [symmetric] by simp
  have "\<exists>c'. do_item_remove p c5 = Some c' \<and> mc_rep hash c' (L - {p}) K (L - {p}) (L - {p}) (refs_of (L - {p}) G) A \<and>
      kept (held L G - {p}) c5 c' \<and> (0 < G p \<longrightarrow> c' = upd_item p (\<lambda>x. x\<lparr>refcount := refcount x - 1\<rparr>) c5)"
  proof (cases "0 < G p")
    case True
    then have "1 < ?R p" using p by (simp add: refs_of_def)
    from remove_ref_step [OF c5(2) this] obtain c' where
      c': "do_item_remove p c5 = Some c'" "mc_rep hash c' (L - {p}) K (L - {p}) (L - {p}) (refs_of (L - {p}) G) A"
        "kept (- {p}) c5 c'" "c' = upd_item p (\<lambda>x. x\<lparr>refcount := refcount x - 1\<rparr>) c5"
      unfolding refs_of_delete [OF p] by blast
    have "kept (held L G - {p}) c5 c'" by (rule kept_mono [OF c'(3)]) auto
    with c' show ?thesis by (intro exI [of _ c']) simp
  next
    case False
    then have r: "?R p = 1" and np: "p \<notin> L - {p}" using p by (simp_all add: refs_of_def)
    have z: "(refs_of L G)(p := 0) = refs_of (L - {p}) G" using refs_of_delete [OF p, of G] r by simp
    obtain c' where "do_item_remove p c5 = Some c'" "mc_rep hash c' (L - {p}) K (L - {p}) (L - {p}) (refs_of (L - {p}) G) A"
        "kept (held L G - {p}) c5 c'"
      using remove_last_step [OF c5(2) r np np np] unfolding z held_refs by blast
    with False show ?thesis by (intro exI [of _ c']) simp
  qed
  then obtain c' where c': "do_item_remove p c5 = Some c'" "mc_inv hash c' (L - {p}) K G A"
      "kept (held L G - {p}) c5 c'" "0 < G p \<Longrightarrow> c' = upd_item p (\<lambda>x. x\<lparr>refcount := refcount x - 1\<rparr>) c5"
    by (elim exE conjE) (rule that, simp_all add: mc_inv_rep)
  have "core (mem c' p) = core ((clear_flag ITEM_LINKED (mem c p))\<lparr>refcount := refcount (mem c p) - 1\<rparr>)" if "0 < G p"
    using core5 c'(4) [OF that] core_fields(4) [OF core5] by (simp add: upd_item_def hupd_apply core_upd)
  moreover have "kept (held L G - {p}) c c5" by (rule kept_trans [OF k3 k5]) auto
  then have "kept (held L G - {p}) c c'" by (rule kept_trans [OF _ c'(3)]) auto
  ultimately show ?thesis using run c'(1,2) by (intro exI [of _ c']) simp
qed

section \<open>Taking a reference, touching fields\<close>

lemma mc_inv_ref:
  assumes "mc_inv hash c L K G A" "p \<in> held L G" "refs_of L G p + 1 < 2 ^ 16"
  shows "mc_inv hash (upd_item p (\<lambda>x. x\<lparr>refcount := refcount x + 1\<rparr>) c) L K (G(p := G p + 1)) A"
  using ref_inc_step [OF assms(1) [unfolded mc_inv_rep], of p] assms(2,3)
  unfolding mc_inv_rep refs_of_inc by (simp add: refs_of_pos held_def)

lemma mc_inv_write:
  assumes "mc_inv hash c L K G A" "p \<in> held L G"
    "shape (f (mem c p)) = shape (mem c p)" "refcount (f (mem c p)) = refcount (mem c p)"
  shows "mc_inv hash (upd_item p f c) L K G A"
proof -
  note rep = assms(1) [unfolded mc_inv_rep]
  have p: "0 < refs_of L G p" using assms(2) by (simp add: refs_of_pos held_def)
  have "unat (refcount (f (mem c p))) = refs_of L G p" using mc_rep_item(4) [OF rep p] assms(4) by simp
  from mc_rep_write [of hash c L K L L "refs_of L G" A p f, OF rep p assms(3) this p] show ?thesis by (simp add: mc_inv_rep)
qed

lemma shape_flag [simp]:
  assumes "g AND ITEM_LINKED = 0" "g AND ITEM_SLABBED = 0" "g AND ITEM_CHUNKED = 0" "g AND ITEM_HDR = 0"
    "g AND ITEM_CFLAGS = 0" "g AND ITEM_CAS = 0"
  shows "shape (set_flag g x) = shape x" "shape (clear_flag g x) = shape x"
  using assms by (simp_all add: shape_def lru_bytes_def ITEM_ntotal_def and.commute)

lemma mc_inv_bookkeeping [simp]:
  "mc_inv hash (upd_stats k fs c) L K G A = mc_inv hash c L K G A"
  "mc_inv hash (c\<lparr>get_flushed := e\<rparr>) L K G A = mc_inv hash c L K G A"
  "mc_inv hash (c\<lparr>get_expired := f\<rparr>) L K G A = mc_inv hash c L K G A"
  "mc_inv hash (c\<lparr>bump_bufs := g\<rparr>) L K G A = mc_inv hash c L K G A"
  "mc_inv hash (c\<lparr>rebal := i\<rparr>) L K G A = mc_inv hash c L K G A"
  by (simp_all add: mc_inv_def)

section \<open>The stored entry\<close>

text \<open>
  What a client gets to see of an item (key, length, value, client flags, expiry and CAS id), and all that item operations on
  behalf of others leave alone: everything but links, access time, LRU segment, reference count and the flags for being linked,
  fetched and active.
\<close>

definition entry :: "item \<Rightarrow> byte list \<times> int \<times> byte list \<times> u32 \<times> u32 \<times> u64" where
  "entry x = (ITEM_key x, nbytes x, take (nat (nbytes x)) (data_value x), (if has_flag ITEM_CFLAGS x then data_suffix x else 0), exptime x, ITEM_get_cas x)"

definition content :: "item \<Rightarrow> u8 \<times> byte list \<times> int \<times> byte list \<times> u32 \<times> u32 \<times> u64 \<times> u16" where
  "content x = (nkey x, data_key x, nbytes x, data_value x, data_suffix x, exptime x, data_cas x, it_flags x AND 0xFFE2)"

lemma content_fields:
  assumes "content x = content y"
  shows "nkey x = nkey y" "data_key x = data_key y" "nbytes x = nbytes y" "data_value x = data_value y" "data_suffix x = data_suffix y"
    "exptime x = exptime y" "data_cas x = data_cas y" "ITEM_key x = ITEM_key y" "key_ok x = key_ok y"
  using assms by (simp_all add: content_def ITEM_key_def key_ok_def)

lemma content_has_flag:
  assumes "content x = content y" "g AND 0xFFE2 = g"
  shows "has_flag g x = has_flag g y"
proof -
  have "it_flags z AND g = (it_flags z AND 0xFFE2) AND g" for z
    unfolding and.assoc and.commute [of "0xFFE2"] assms(2) ..
  from this [of x] this [of y] have "it_flags x AND g = it_flags y AND g" using assms(1) by (simp add: content_def)
  then show ?thesis by (simp add: has_flag_def)
qed

lemma content_get_cas: "content x = content y \<Longrightarrow> ITEM_get_cas x = ITEM_get_cas y"
  using content_has_flag [of x y ITEM_CAS] content_fields(7) [of x y] by (simp add: ITEM_get_cas_def)

lemma entry_content: "content x = content y \<Longrightarrow> entry x = entry y"
  using content_has_flag [of x y ITEM_CFLAGS] content_fields [of x y] content_get_cas [of x y] by (simp add: entry_def)

lemma content_core: "core x = core y \<Longrightarrow> content x = content y"
  using core_fields [of x y] by (simp add: content_def)

lemma content_upd [simp]:
  "content (x\<lparr>refcount := n\<rparr>) = content x" "content (x\<lparr>it_time := a\<rparr>) = content x" "content (x\<lparr>slabs_clsid := i\<rparr>) = content x"
  by (simp_all add: content_def)

lemma content_flag [simp]:
  assumes "g AND 0xFFE2 = 0"
  shows "content (set_flag g x) = content x" "content (clear_flag g x) = content x"
proof -
  have "(a OR g) AND 0xFFE2 = a AND 0xFFE2" for a using assms by (simp add: bit.conj_disj_distrib2)
  then show "content (set_flag g x) = content x" by (simp add: content_def set_flag_def)
  have "NOT g AND 0xFFE2 = 0xFFE2 XOR (g AND 0xFFE2)" by (rule bit_word_eqI) (auto simp: bit_simps)
  then have "NOT g AND 0xFFE2 = 0xFFE2" using assms by simp
  then have "(a AND NOT g) AND 0xFFE2 = a AND 0xFFE2" for a by (simp only: and.assoc)
  then show "content (clear_flag g x) = content x" by (simp add: content_def clear_flag_def)
qed

section \<open>Moving between segments\<close>

lemma size_clsid [simp]: "ITEM_ntotal (x\<lparr>slabs_clsid := i\<rparr>) = ITEM_ntotal x" "lru_bytes (x\<lparr>slabs_clsid := i\<rparr>) = lru_bytes x"
  by (simp_all add: ITEM_ntotal_def lru_bytes_def)

lemma mc_rep_segment:
  assumes rep: "mc_rep hash c Lq K Lh L R A" and p: "0 < R p" "p \<notin> Lq"
    and sh: "shape ((f (mem c p))\<lparr>slabs_clsid := 0\<rparr>) = shape ((mem c p)\<lparr>slabs_clsid := 0\<rparr>)"
    and rc: "refcount (f (mem c p)) = refcount (mem c p)" and cl: "ITEM_clsid (f (mem c p)) = ITEM_clsid (mem c p)"
  shows "mc_rep hash (upd_item p f c) Lq K Lh L R A"
proof -
  let ?c = "upd_item p f c"
  have m: "mem ?c q = (if q = p then f (mem c p) else mem c q)" for q by (simp add: upd_item_def hupd_apply)
  have sh': "h_next (f (mem c p)) = h_next (mem c p)" "nkey (f (mem c p)) = nkey (mem c p)" "data_key (f (mem c p)) = data_key (mem c p)"
    "nbytes (f (mem c p)) = nbytes (mem c p)" "ITEM_ntotal (f (mem c p)) = ITEM_ntotal (mem c p)"
    "has_flag ITEM_LINKED (f (mem c p)) = has_flag ITEM_LINKED (mem c p)"
    "has_flag ITEM_SLABBED (f (mem c p)) = has_flag ITEM_SLABBED (mem c p)"
    "has_flag ITEM_CHUNKED (f (mem c p)) = has_flag ITEM_CHUNKED (mem c p)"
    using sh by (simp_all add: shape_def)
  have pK: "p \<notin> K" using mc_rep_item(3) [OF rep p(1)] .
  have lv: "live (mem ?c) R = live (mem c) R"
    unfolding live_def by (intro image_cong) (auto simp: m cl)
  obtain Q where Q: "lru_ok c Lq K Q" using mc_repD(1) [OF rep] by blast
  have "lru_ok ?c Lq K Q"
  proof (rule lru_ok_frame [OF Q])
    show "is_crawler (mem ?c q)" if "q \<in> K" for q using lru_okD(6) [OF Q that] that pK by (auto simp: m)
  qed (use p(2) pK in \<open>auto simp: m\<close>, simp_all add: upd_item_def)
  moreover have "assoc_rep hash (mem ?c) (ht ?c) Lh"
    using assoc_rep_frame [OF mc_repD(2) [OF rep], of "mem ?c"] sh' by (simp add: m) (simp add: upd_item_def)
  moreover have "slab_inv (cfg ?c) (mem ?c) (sl ?c) (live (mem ?c) R) A"
  proof -
    have "slab_inv (cfg c) (mem ?c) (sl c) (live (mem c) R) A"
      by (rule slab_inv_write [OF mc_repD(3) [OF rep]]) (use p in \<open>auto simp: m\<close>)
    then show ?thesis unfolding lv by (simp add: upd_item_def)
  qed
  moreover have "refs_ok (mem ?c) L R" using mc_repD(4) [OF rep] sh' rc unfolding refs_ok_def by (simp add: m)
  moreover have "counted ?c L"
  proof -
    have "nbytes (mem ?c q) = nbytes (mem c q)" "ITEM_ntotal (mem ?c q) = ITEM_ntotal (mem c q)" for q
      using sh' by (simp_all add: m)
    then show ?thesis using mc_repD(5) [OF rep] unfolding counted_def by (simp add: upd_item_def)
  qed
  ultimately show ?thesis using mc_repD(6-9) [OF rep] unfolding mc_rep_def by blast
qed

lemma clsid_segment: "mv AND NOT 192 = 0 \<Longrightarrow> ITEM_clsid (x\<lparr>slabs_clsid := ITEM_clsid x OR mv\<rparr>) = ITEM_clsid x"
  unfolding ITEM_clsid_def by (simp add: bit.conj_disj_distrib2)

text \<open>Out of the queue, into another segment, into the queue again.\<close>

lemma requeue_step:
  assumes rep: "mc_rep hash c L K L L R A" and p: "p \<in> L"
    and f: "\<And>x. shape ((f x)\<lparr>slabs_clsid := 0\<rparr>) = shape (x\<lparr>slabs_clsid := 0\<rparr>)" "\<And>x. refcount (f x) = refcount x"
      "\<And>x. ITEM_clsid (f x) = ITEM_clsid x"
    and e: "\<And>x. content (f x) = content x"
  shows "\<exists>c1 c2. do_item_unlink_q p c = Some c1 \<and> do_item_link_q p (upd_item p f c1) = Some c2 \<and>
     mc_rep hash c1 (L - {p}) K L L R A \<and> kept UNIV c c1 \<and>
     mc_rep hash c2 L K L L R A \<and> kept (- {p}) c c2 \<and> content (mem c2 p) = content (mem c p)"
proof -
  have p0: "0 < R p" using mc_repD(7) [OF rep p] .
  obtain c1 where c1: "do_item_unlink_q p c = Some c1" "mc_rep hash c1 (L - {p}) K L L R A" "kept UNIV c c1"
    using unlink_q_step [OF rep p] by blast
  have np: "p \<notin> L - {p}" by simp
  have r: "mc_rep hash (upd_item p f c1) (L - {p}) K L L R A"
    by (rule mc_rep_segment [OF c1(2) p0 np]) (rule f)+
  obtain c2 where c2: "do_item_link_q p (upd_item p f c1) = Some c2" "mc_rep hash c2 (insert p (L - {p})) K L L R A"
      "kept UNIV (upd_item p f c1) c2"
    using link_q_step [OF r p0 np] by blast
  have "kept (- {p}) c (upd_item p f c1)" by (rule kept_trans [OF c1(3) kept_upd_item [of p "- {p}"]]) auto
  then have "kept (- {p}) c c2" by (rule kept_trans [OF _ c2(3)]) auto
  moreover have "content (mem c2 p) = content (mem c p)"
    using content_core [OF keptD(4) [OF c2(3), of p]] content_core [OF keptD(4) [OF c1(3), of p]] e
    by (simp add: upd_item_def hupd_apply)
  ultimately show ?thesis using c1 c2 insert_Diff [OF p] by auto
qed

lemma do_item_update_inv:
  assumes inv: "mc_inv hash c L K G A" and p: "p \<in> held L G"
  shows "\<exists>c'. do_item_update p c = Some c' \<and> mc_inv hash c' L K G A \<and> kept (- {p}) c c' \<and> content (mem c' p) = content (mem c p)"
proof -
  note it = mc_inv_item [OF inv p]
  define ct where "ct = upd_item p (it_time_update (\<lambda>_. current_time c)) c"
  have t: "mc_inv hash ct L K G A" unfolding ct_def by (rule mc_inv_write [OF inv p]) simp_all
  have kt: "kept (- {p}) c ct" "content (mem ct p) = content (mem c p)"
    by (simp_all add: ct_def kept_upd_item) (simp add: upd_item_def hupd_apply)
  have pL: "p \<in> L" if "has_flag ITEM_LINKED (mem c p)" using that it(5) by simp
  let ?warm = "\<lambda>x. clear_flag ITEM_ACTIVE (x\<lparr>slabs_clsid := ITEM_clsid x OR WARM_LRU\<rparr>)"
  have warm: "shape ((?warm x)\<lparr>slabs_clsid := 0\<rparr>) = shape (x\<lparr>slabs_clsid := 0\<rparr>)" "ITEM_clsid (?warm x) = ITEM_clsid x" for x
    using clsid_segment [of WARM_LRU x] by (simp_all add: shape_def ITEM_ntotal_def lru_bytes_def ITEM_clsid_def)
  have w: "\<exists>c'. item_unlink_q p ct \<bind> (\<lambda>c1. item_link_q_warm p (upd_item p ?warm c1)) = Some c' \<and>
      mc_inv hash c' L K G A \<and> kept (- {p}) c c' \<and> content (mem c' p) = content (mem c p)" if pl: "p \<in> L"
  proof -
    obtain c1 c2 where r: "do_item_unlink_q p ct = Some c1" "do_item_link_q p (upd_item p ?warm c1) = Some c2"
        "mc_inv hash c2 L K G A" "kept (- {p}) ct c2" "content (mem c2 p) = content (mem ct p)"
      using requeue_step [OF t [unfolded mc_inv_rep] pl, of ?warm] warm unfolding mc_inv_rep by fastforce
    have "kept (- {p}) c c2" by (rule kept_trans [OF kt(1) r(4)]) auto
    then show ?thesis using r kt(2) by (simp add: item_unlink_q_def item_link_q_warm_def upd_stats_def kept_def mc_inv_def)
  qed
  have q: "\<exists>c'. item_unlink_q p ct \<bind> (\<lambda>c1. item_link_q p c1) = Some c' \<and>
      mc_inv hash c' L K G A \<and> kept (- {p}) c c' \<and> content (mem c' p) = content (mem c p)" if pl: "p \<in> L"
  proof -
    obtain c1 c2 where r: "do_item_unlink_q p ct = Some c1" "do_item_link_q p (upd_item p (\<lambda>x. x) c1) = Some c2"
        "mc_inv hash c2 L K G A" "kept (- {p}) ct c2" "content (mem c2 p) = content (mem ct p)"
      using requeue_step [OF t [unfolded mc_inv_rep] pl, of "\<lambda>x. x"] unfolding mc_inv_rep by fastforce
    have "kept (- {p}) c c2" by (rule kept_trans [OF kt(1) r(4)]) auto
    moreover have "upd_item p (\<lambda>x. x) c1 = c1" by (simp add: upd_item_def hupd_def)
    ultimately show ?thesis using r kt(2) by (simp add: item_unlink_q_def item_link_q_def)
  qed
  have same: "mc_inv hash c L K G A \<and> kept (- {p}) c c" using inv by simp
  show ?thesis
    using w q pL it(4) t kt same unfolding do_item_update_def ct_def [symmetric] by auto
qed

section \<open>Replacing\<close>

lemma do_item_remove_cas_id: "do_item_remove p c = Some c' \<Longrightarrow> cas_id c' = cas_id c"
  by (auto simp: do_item_remove_def item_free_def upd_item_def Let_def split: if_splits bind_splits)

lemma do_item_unlink_q_cas_id: "do_item_unlink_q p c = Some c' \<Longrightarrow> cas_id c' = cas_id c"
  by (auto simp: do_item_unlink_q_def unlink_pointers_def Let_def split: if_splits bind_splits)

lemma do_item_unlink_cas_id: "do_item_unlink p hv c = Some c' \<Longrightarrow> cas_id c' = cas_id c"
  by (auto simp: do_item_unlink_def item_unlink_q_def item_stats_sizes_remove_def item_stats_sizes_change_def upd_item_def Let_def
      dest!: do_item_remove_cas_id do_item_unlink_q_cas_id split: if_splits bind_splits option.splits)

lemma core_linked_item: "core x = core y \<Longrightarrow> core (linked_item c x) = core (linked_item c y)"
  using core_fields(12) [of x y ITEM_CAS] core_fields(4,5) [of x y]
  by (simp add: linked_item_def ITEM_set_cas_def set_flag_def core_upd has_flag_def)

lemma do_item_replace_inv:
  assumes inv: "mc_inv hash c L K G A" and p: "p \<in> L" and n: "n \<notin> L" "0 < G n" "G n + 1 < 2 ^ 16" "key_ok (mem c n)" "2 \<le> nbytes (mem c n)"
    and key: "ITEM_key (mem c n) = ITEM_key (mem c p)" and hv: "hv = item_hash hash (mem c p)"
  shows "\<exists>c'. do_item_replace p n hv c = Some c' \<and> mc_inv hash c' (insert n (L - {p})) K G A \<and> kept (held L G - {p, n}) c c' \<and>
     core (mem c' n) = core (linked_item c (mem c n)) \<and> (0 < G p \<longrightarrow> content (mem c' p) = content (mem c p))"
proof -
  have pn: "n \<noteq> p" using p n(1) by auto
  have np: "n \<in> held L G - {p}" using n(2) pn by (simp add: held_def)
  have sl: "\<not> has_flag ITEM_SLABBED (mem c p)" using mc_inv_item(4) [OF inv] p by (simp add: held_def)
  obtain c1 where u: "do_item_unlink p hv c = Some c1" "mc_inv hash c1 (L - {p}) K G A" "kept (held L G - {p}) c c1"
      "0 < G p \<longrightarrow> core (mem c1 p) = core ((clear_flag ITEM_LINKED (mem c p))\<lparr>refcount := refcount (mem c p) - 1\<rparr>)"
    using do_item_unlink_inv [OF inv p hv] by (elim exE conjE) (rule that)
  note cn = keptD(4) [OF u(3) np]
  have kp: "key_ok (mem c p)" using assoc_rep_key_ok [OF mc_repD(2) [OF inv [unfolded mc_inv_rep]] p] .
  have hn: "hv = item_hash hash (mem c1 n)"
    using hv key key_ok_length [OF kp] key_ok_length [OF n(4)] core_fields(20) [OF cn, of hash]
    unfolding item_hash_def by simp
  have keys: "ITEM_key (mem c1 q) = ITEM_key (mem c q)" if "q \<in> L - {p}" for q
    using that by (intro core_fields(13) keptD(4) [OF u(3)]) (auto simp: held_def)
  have "assoc_abs (mem c1) (L - {p}) (ITEM_key (mem c1 n)) = None"
    unfolding assoc_abs_eq_None
  proof
    fix q assume q: "q \<in> L - {p}"
    have "inj_on (\<lambda>p. ITEM_key (mem c p)) L" using assoc_rep_inj [OF mc_repD(2) [OF inv [unfolded mc_inv_rep]]] .
    then have "ITEM_key (mem c q) \<noteq> ITEM_key (mem c p)" using q p by (auto dest: inj_onD)
    then show "ITEM_key (mem c1 q) \<noteq> ITEM_key (mem c1 n)" using keys [OF q] core_fields(13) [OF cn] key by simp
  qed
  from do_item_link_inv [OF u(2) _ n(2,3) _ _ this hn] n core_fields(3,19) [OF cn] obtain c2 where
    l: "do_item_link n hv c1 = Some c2" "mc_inv hash c2 (insert n (L - {p})) K G A" "kept (- {n}) c1 c2"
      "core (mem c2 n) = core (linked_item c1 (mem c1 n))" by auto
  have "kept (held L G - {p, n}) c c2" by (rule kept_trans [OF u(3) l(3)]) auto
  moreover have "linked_item c1 = linked_item c"
    using do_item_unlink_cas_id [OF u(1)] keptD(1,2) [OF u(3)] by (simp add: linked_item_def fun_eq_iff)
  then have "core (linked_item c1 (mem c1 n)) = core (linked_item c (mem c n))" using core_linked_item [OF cn] by simp
  moreover have "content (mem c2 p) = content (mem c p)" if "0 < G p"
    using content_core [OF keptD(4) [OF l(3), of p]] content_core [OF u(4) [rule_format, OF that]] pn by simp
  ultimately show ?thesis using u(1) l sl by (simp add: do_item_replace_def)
qed

section \<open>Lookup\<close>

text \<open>An item a lookup no longer returns.\<close>

definition dead :: "mc \<Rightarrow> item \<Rightarrow> bool" where
  "dead c x \<longleftrightarrow> item_is_flushed (cfg c) (current_time c) x \<or> (exptime x \<noteq> 0 \<and> exptime x \<le> current_time c)"

lemma upd_item_fields [simp]:
  "cfg (upd_item p f c) = cfg c" "current_time (upd_item p f c) = current_time c" "sl (upd_item p f c) = sl c"
  "bump_bufs (upd_item p f c) = bump_bufs c" "mem (upd_item p f c) p = f (mem c p)" "q \<noteq> p \<Longrightarrow> mem (upd_item p f c) q = mem c q"
  "ht (upd_item p f c) = ht c"
  by (simp_all add: upd_item_def hupd_apply)

lemma upd_item_twice: "upd_item p g (upd_item p f c) = upd_item p (g \<circ> f) c"
  by (simp add: upd_item_def hupd_def fun_eq_iff)

text \<open>The references held by pending bumps.\<close>

definition pending :: "lru_bump_buf list \<Rightarrow> ptr \<Rightarrow> nat" where
  "pending bs p = (\<Sum>y\<leftarrow>bs. count_list (map fst (bump_entries y)) p)"

definition bumped :: "nat \<Rightarrow> ptr \<Rightarrow> lru_bump_buf list \<Rightarrow> lru_bump_buf list \<Rightarrow> bool" where
  "bumped k p bs bs' \<longleftrightarrow> length bs' = length bs \<and> (\<forall>q. pending bs' q = pending bs q + (if q = p then k else 0))"

lemma bumped_refl [simp]: "bumped 0 p bs bs" by (simp add: bumped_def)

lemma pending_update:
  assumes "j < length bs"
  shows "pending (bs[j := y]) p + count_list (map fst (bump_entries (bs ! j))) p = pending bs p + count_list (map fst (bump_entries y)) p"
proof -
  have "count_list (map fst (bump_entries (bs ! j))) p \<le> pending bs p"
    unfolding pending_def using assms by (intro member_le_sum_list) (auto simp: image_iff)
  then show ?thesis using assms by (simp add: pending_def map_update sum_list_update)
qed

lemma bumped_push: "j < length bs \<Longrightarrow> bumped 1 p bs (bs[j := (bs ! j)\<lparr>bump_entries := bump_entries (bs ! j) @ [(p, hv)]\<rparr>])"
  unfolding bumped_def using pending_update [of j bs "(bs ! j)\<lparr>bump_entries := bump_entries (bs ! j) @ [(p, hv)]\<rparr>"]
  by (auto simp: algebra_simps split: if_splits)

lemma bumped_drop: "j < length bs \<Longrightarrow> bumped 0 p bs (bs[j := (bs ! j)\<lparr>dropped := n\<rparr>])"
  unfolding bumped_def using pending_update [of j bs "(bs ! j)\<lparr>dropped := n\<rparr>"] by simp

lemma do_item_bump_inv:
  assumes inv: "mc_inv hash c L K G A" and p: "p \<in> held L G" and r: "refs_of L G p + 1 < 2 ^ 16"
    and j: "fst bump_ok < length (bump_bufs c)"
  shows "\<exists>c' b. do_item_bump bump_ok p hv c = Some c' \<and> mc_inv hash c' L K (G(p := G p + (if b then 1 else 0))) A \<and>
     kept (- {p}) c (c'\<lparr>bump_bufs := bump_bufs c\<rparr>) \<and> bumped (if b then 1 else 0) p (bump_bufs c) (bump_bufs c') \<and>
     content (mem c' p) = content (mem c p)"
proof (cases "lru_segmented (cfg c)")
  case False
  let ?c = "upd_item p (set_flag ITEM_FETCHED) c"
  have "mc_inv hash ?c L K G A" by (rule mc_inv_write [OF inv p]) simp_all
  from do_item_update_inv [OF this p] obtain c' where
    u: "do_item_update p ?c = Some c'" "mc_inv hash c' L K G A" "kept (- {p}) ?c c'" "content (mem c' p) = content (mem ?c p)" by blast
  have "kept (- {p}) c c'" by (rule kept_trans [OF kept_upd_item [of p "- {p}"] u(3)]) auto
  then show ?thesis using False u by (intro exI [of _ c'] exI [of _ False]) (simp add: do_item_bump_def kept_def)
next
  case seg: True
  show ?thesis
  proof (cases "has_flag ITEM_ACTIVE (mem c p) \<or> \<not> has_flag ITEM_FETCHED (mem c p)")
    case True
    define c' where "c' = (if has_flag ITEM_ACTIVE (mem c p) then c else upd_item p (set_flag ITEM_FETCHED) c)"
    have "mc_inv hash c' L K G A" using inv mc_inv_write [OF inv p, of "set_flag ITEM_FETCHED"] by (simp add: c'_def)
    moreover have "kept (- {p}) c c'" by (simp add: c'_def kept_upd_item)
    ultimately show ?thesis using True seg
      by (intro exI [of _ c'] exI [of _ False]) (auto simp: do_item_bump_def c'_def kept_def)
  next
    case False
    let ?c = "upd_item p (set_flag ITEM_ACTIVE) c"
    have a: "mc_inv hash ?c L K G A" by (rule mc_inv_write [OF inv p]) simp_all
    show ?thesis
    proof (cases "ITEM_lruid (mem ?c p) = COLD_LRU")
      case True
      show ?thesis
      proof (cases "snd bump_ok")
        case bok: True
        let ?c2 = "upd_item p (\<lambda>x. x\<lparr>refcount := refcount x + 1\<rparr>) ?c"
        have "mc_inv hash ?c2 L K (G(p := G p + 1)) A" by (rule mc_inv_ref [OF a p r])
        then show ?thesis using seg False True bok
          by (intro exI [of _ "upd_bump (fst bump_ok) (\<lambda>y. y\<lparr>bump_entries := bump_entries y @ [(p, hv)]\<rparr>) ?c2"] exI [of _ True])
            (use j bumped_push [OF j, of p hv] in \<open>simp add: do_item_bump_def lru_bump_async_def kept_def upd_bump_def\<close>)
      next
        case nok: False
        let ?f = "\<lambda>x. clear_flag ITEM_ACTIVE ((set_flag ITEM_ACTIVE x)\<lparr>refcount := refcount x\<rparr>)"
        let ?c3 = "upd_bump (fst bump_ok) (\<lambda>y. y\<lparr>dropped := dropped y + 1\<rparr>) (upd_item p ?f c)"
        have "mc_inv hash (upd_item p ?f c) L K G A" by (rule mc_inv_write [OF inv p]) simp_all
        moreover have "do_item_bump bump_ok p hv c = Some ?c3"
          using seg False True nok j
          by (simp add: do_item_bump_def lru_bump_async_def) (simp add: upd_bump_def upd_item_def hupd_def fun_eq_iff)
        ultimately show ?thesis
          by (intro exI [of _ ?c3] exI [of _ False]) (use bumped_drop [OF j] in \<open>simp add: kept_def upd_bump_def\<close>)
      qed
    next
      case nc: False
      let ?c2 = "upd_item p (it_time_update (\<lambda>_. current_time c)) ?c"
      have "mc_inv hash ?c2 L K G A" by (rule mc_inv_write [OF a p]) simp_all
      then show ?thesis using seg False nc
        by (intro exI [of _ ?c2] exI [of _ False]) (simp add: do_item_bump_def kept_def)
    qed
  qed
qed

lemma flushed_refcount [simp]: "item_is_flushed st now (x\<lparr>refcount := n\<rparr>) = item_is_flushed st now x"
  by (simp add: item_is_flushed_def ITEM_get_cas_def)

lemma item_hash_upd [simp]: "item_hash hash (x\<lparr>refcount := n\<rparr>) = item_hash hash x"
  by (simp add: item_hash_def ITEM_key_def)

lemma mc_inv_unlink_remove:
  assumes inv: "mc_inv hash c L K (G(p := G p + 1)) A" and p: "p \<in> L" and hv: "hv = item_hash hash (mem c p)"
  shows "\<exists>c2 c3. do_item_unlink p hv c = Some c2 \<and> do_item_remove p c2 = Some c3 \<and> mc_inv hash c3 (L - {p}) K G A \<and>
     kept (held L G - {p}) c c3 \<and> (0 < G p \<longrightarrow> content (mem c3 p) = content (mem c p))"
proof -
  let ?G = "G(p := G p + 1)"
  obtain c2 where u: "do_item_unlink p hv c = Some c2" "mc_inv hash c2 (L - {p}) K ?G A" "kept (held L ?G - {p}) c c2"
      "core (mem c2 p) = core ((clear_flag ITEM_LINKED (mem c p))\<lparr>refcount := refcount (mem c p) - 1\<rparr>)"
    using do_item_unlink_inv [OF inv p hv] by auto
  obtain c3 where r: "do_item_remove p c2 = Some c3" "mc_inv hash c3 (L - {p}) K G A" "kept (held (L - {p}) ?G - {p}) c2 c3"
      "0 < G p \<Longrightarrow> c3 = upd_item p (\<lambda>x. x\<lparr>refcount := refcount x - 1\<rparr>) c2"
    using do_item_remove_inv [OF u(2), of p] by (auto simp: held_def)
  have "kept (held L G - {p}) c c3" by (rule kept_trans [OF u(3) r(3)]) (auto simp: held_def)
  moreover have "content (mem c3 p) = content (mem c p)" if "0 < G p"
    using r(4) [OF that] content_core [OF u(4)] by simp
  ultimately show ?thesis using u(1) r(1,2) by (intro exI [of _ c2] exI [of _ c3]) simp
qed

text \<open>The three outcomes of a lookup: a miss, a dead item that is unlinked, a hit that returns one more reference.\<close>

lemma do_item_get_miss:
  assumes inv: "mc_inv hash c L K G A" and nk: "length key = nk" and n: "assoc_abs (mem c) L key = None"
  shows "do_item_get bump_ok key nk (hash key nk) do_update c = Some (NULL, c)"
  using assoc_find_correct [OF mc_repD(2) [OF inv [unfolded mc_inv_rep]] nk] n by (simp add: do_item_get_def)

lemma do_item_get_dead:
  assumes inv: "mc_inv hash c L K G A" and nk: "length key = nk" and a: "assoc_abs (mem c) L key = Some p"
    and r: "refs_of L G p + 1 < 2 ^ 16" and d: "dead c (mem c p)"
  shows "\<exists>c'. do_item_get bump_ok key nk (hash key nk) do_update c = Some (NULL, c') \<and> mc_inv hash c' (L - {p}) K G A \<and>
     kept (held L G - {p}) c c' \<and> (0 < G p \<longrightarrow> content (mem c' p) = content (mem c p))"
proof -
  note h = mc_repD(2) [OF inv [unfolded mc_inv_rep]]
  have p: "p \<in> L" "ITEM_key (mem c p) = key" using a by (simp_all add: assoc_abs_eq_Some [OF assoc_rep_inj [OF h]])
  have f: "assoc_find key nk (hash key nk) (mem c) (ht c) = Some p" using assoc_find_correct [OF h nk] a by simp
  have ph: "p \<in> held L G" using p by (simp add: held_def)
  have pn: "p \<noteq> NULL" by (rule mc_inv_item(1) [OF inv ph])
  let ?c = "upd_item p (\<lambda>x. x\<lparr>refcount := refcount x + 1\<rparr>) c"
  have hv: "hash key nk = item_hash hash (mem ?c p)"
    using p nk item_hash_key [OF assoc_rep_key_ok [OF h p(1)] p(2), of hash] by simp
  obtain c2 c3 where u: "do_item_unlink p (hash key nk) ?c = Some c2" "do_item_remove p c2 = Some c3" "mc_inv hash c3 (L - {p}) K G A"
      "kept (held L G - {p}) ?c c3" "0 < G p \<longrightarrow> content (mem c3 p) = content (mem ?c p)"
    using mc_inv_unlink_remove [OF mc_inv_ref [OF inv ph r] p(1) hv] by (elim exE conjE) (rule that)
  have k: "kept (held L G - {p}) c c3" by (rule kept_trans [OF kept_upd_item [of p "- {p}"] u(4)]) auto
  show ?thesis
  proof (cases "item_is_flushed (cfg c) (current_time c) (mem c p)")
    case True
    then show ?thesis using f pn u d k
      by (intro exI [of _ "c3\<lparr>get_flushed := get_flushed c3 + 1\<rparr>"]) (simp add: do_item_get_def kept_def)
  next
    case False
    then show ?thesis using f pn u d k
      by (intro exI [of _ "c3\<lparr>get_expired := get_expired c3 + 1\<rparr>"]) (simp add: do_item_get_def dead_def kept_def Let_def)
  qed
qed

lemma do_item_get_hit:
  assumes inv: "mc_inv hash c L K G A" and nk: "length key = nk" and a: "assoc_abs (mem c) L key = Some p"
    and r: "refs_of L G p + 2 < 2 ^ 16" and d: "\<not> dead c (mem c p)" and j: "fst bump_ok < length (bump_bufs c)"
  shows "\<exists>c' b. do_item_get bump_ok key nk (hash key nk) do_update c = Some (p, c') \<and>
     mc_inv hash c' L K (G(p := G p + 1 + (if b then 1 else 0))) A \<and> kept (- {p}) c (c'\<lparr>bump_bufs := bump_bufs c\<rparr>) \<and>
     bumped (if b then 1 else 0) p (bump_bufs c) (bump_bufs c') \<and> content (mem c' p) = content (mem c p)"
proof -
  note h = mc_repD(2) [OF inv [unfolded mc_inv_rep]]
  have p: "p \<in> L" "ITEM_key (mem c p) = key" using a by (simp_all add: assoc_abs_eq_Some [OF assoc_rep_inj [OF h]])
  have f: "assoc_find key nk (hash key nk) (mem c) (ht c) = Some p" using assoc_find_correct [OF h nk] a by simp
  have ph: "p \<in> held L G" "p \<in> held L (G(p := G p + 1))" using p by (simp_all add: held_def)
  have pn: "p \<noteq> NULL" by (rule mc_inv_item(1) [OF inv ph(1)])
  let ?c = "upd_item p (\<lambda>x. x\<lparr>refcount := refcount x + 1\<rparr>) c" and ?G = "G(p := G p + 1)"
  have i1: "mc_inv hash ?c L K ?G A" by (rule mc_inv_ref [OF inv ph(1)]) (use r in simp)
  have r1: "refs_of L ?G p + 1 < 2 ^ 16" using r by (simp add: refs_of_def)
  have "\<exists>c' b. (if do_update then do_item_bump bump_ok p (hash key nk) ?c else Some ?c) = Some c' \<and>
     mc_inv hash c' L K (?G(p := ?G p + (if b then 1 else 0))) A \<and>
     kept (- {p}) ?c (c'\<lparr>bump_bufs := bump_bufs ?c\<rparr>) \<and> bumped (if b then 1 else 0) p (bump_bufs ?c) (bump_bufs c') \<and>
     content (mem c' p) = content (mem ?c p)"
  proof (cases do_update)
    case True
    then show ?thesis using do_item_bump_inv [OF i1 ph(2) r1, of bump_ok "hash key nk"] j by simp
  next
    case False
    then show ?thesis using i1 by (intro exI [of _ ?c] exI [of _ False]) (simp add: kept_def)
  qed
  then obtain c' b where
    b0: "(if do_update then do_item_bump bump_ok p (hash key nk) ?c else Some ?c) = Some c' \<and>
     mc_inv hash c' L K (?G(p := ?G p + (if b then 1 else 0))) A \<and>
     kept (- {p}) ?c (c'\<lparr>bump_bufs := bump_bufs ?c\<rparr>) \<and> bumped (if b then 1 else 0) p (bump_bufs ?c) (bump_bufs c') \<and>
     content (mem c' p) = content (mem ?c p)" by (elim exE) (rule that)
  then have
    b: "(if do_update then do_item_bump bump_ok p (hash key nk) ?c else Some ?c) = Some c'"
      "mc_inv hash c' L K (G(p := G p + 1 + (if b then 1 else 0))) A"
      "kept (- {p}) ?c (c'\<lparr>bump_bufs := bump_bufs c\<rparr>)" "bumped (if b then 1 else 0) p (bump_bufs c) (bump_bufs c')"
      "content (mem c' p) = content (mem c p)"
    by simp_all
  have k: "kept (- {p}) c (c'\<lparr>bump_bufs := bump_bufs c\<rparr>)"
    by (rule kept_trans [OF kept_upd_item [of p "- {p}"] b(3)]) auto
  have "do_item_get bump_ok key nk (hash key nk) do_update c = Some (p, c')"
    using f pn d b(1) by (cases "exptime (mem c p) = 0") (simp_all add: do_item_get_def dead_def Let_def)
  then show ?thesis using b(2,4,5) k by blast
qed

end
