(* ===== verification/Item_Evict.thy ===== *)
theory Item_Evict
  imports Item_Ops
begin

text \<open>
  Pulling from the tail of an LRU queue and allocating with eviction. The search returns although it
  skips crawler items without counting them, keeps the invariant, and at most removes items from the cache.
\<close>

section \<open>Entries left alone\<close>

definition calm :: "ptr set \<Rightarrow> mc \<Rightarrow> mc \<Rightarrow> bool" where
  "calm S c c' \<longleftrightarrow> cfg c' = cfg c \<and> current_time c' = current_time c \<and> geometry (sl c) (sl c') \<and>
     bump_bufs c' = bump_bufs c \<and> (\<forall>q\<in>S. content (mem c' q) = content (mem c q))"

lemma calm_refl [simp]: "calm S c c" by (simp add: calm_def)

lemma calm_trans: "calm S c c' \<Longrightarrow> calm T c' c'' \<Longrightarrow> X \<subseteq> S \<Longrightarrow> X \<subseteq> T \<Longrightarrow> calm X c c''"
  unfolding calm_def by (simp add: subset_iff) (blast intro: geometry_trans)

lemma calm_mono: "calm S c c' \<Longrightarrow> X \<subseteq> S \<Longrightarrow> calm X c c'" by (auto simp: calm_def)

lemma kept_calm: "kept S c c' \<Longrightarrow> calm S c c'"
  unfolding kept_def calm_def using content_core by blast

lemma kept_calm_insert: "kept S c c' \<Longrightarrow> content (mem c' p) = content (mem c p) \<Longrightarrow> X \<subseteq> insert p S \<Longrightarrow> calm X c c'"
  unfolding kept_def calm_def using content_core by blast

lemma calmD:
  assumes "calm S c c'"
  shows "cfg c' = cfg c" "current_time c' = current_time c" "geometry (sl c) (sl c')" "bump_bufs c' = bump_bufs c"
    "q \<in> S \<Longrightarrow> content (mem c' q) = content (mem c q)"
  using assms by (simp_all add: calm_def)

section \<open>One turn of the search\<close>

text \<open>An item out of its queue on its way to another segment.\<close>

definition stopped :: "hash_fn \<Rightarrow> ptr set \<Rightarrow> ptr set \<Rightarrow> (ptr \<Rightarrow> nat) \<Rightarrow> ptr set \<Rightarrow> ptr \<Rightarrow> u8 \<Rightarrow> mc \<Rightarrow> bool" where
  "stopped hash L K G A p mv c' \<longleftrightarrow>
     (mv = 0 \<and> (\<exists>L'. L - {p} \<subseteq> L' \<and> L' \<subseteq> L \<and> mc_inv hash c' L' K (G(p := G p + 1)) A)) \<or>
     ((mv = WARM_LRU \<or> mv = COLD_LRU) \<and> mc_rep hash c' (L - {p}) K L L (refs_of L (G(p := G p + 1))) A)"

definition turn_ok :: "hash_fn \<Rightarrow> mc \<Rightarrow> ptr set \<Rightarrow> ptr set \<Rightarrow> (ptr \<Rightarrow> nat) \<Rightarrow> ptr set \<Rightarrow> ptr \<Rightarrow> pull_turn \<Rightarrow> bool" where
  "turn_ok hash c L K G A p t \<longleftrightarrow> (case t of
      Pull_on r c' \<Rightarrow> \<exists>L'. L - {p} \<subseteq> L' \<and> L' \<subseteq> L \<and> mc_inv hash c' L' K G A \<and> calm (held L' G) c c'
    | Pull_stop it mv r ret c' \<Rightarrow> it = p \<and> ret = None \<and> stopped hash L K G A p mv c' \<and> calm (held L G) c c')"

lemma mc_inv_unlink_q:
  assumes inv: "mc_inv hash c L K G A" and p: "p \<in> L"
  shows "\<exists>c'. do_item_unlink_q p c = Some c' \<and> mc_rep hash c' (L - {p}) K L L (refs_of L G) A \<and> kept UNIV c c'"
  using unlink_q_step [OF inv [unfolded mc_inv_rep] p] by blast

text \<open>The items an outcome has to leave alone.\<close>

lemma calm_without:
  assumes "kept (held L G - {p}) c c'" "0 < G p \<longrightarrow> content (mem c' p) = content (mem c p)" "L' \<subseteq> L" "p \<notin> L'"
  shows "calm (held L' G) c c'"
proof (cases "0 < G p")
  case True
  then show ?thesis using assms by (intro kept_calm_insert [OF assms(1), of p]) (auto simp: held_def)
next
  case False
  then show ?thesis using assms by (intro calm_mono [OF kept_calm [OF assms(1)]]) (auto simp: held_def)
qed

lemma calm_stats: "calm UNIV c cb \<Longrightarrow> calm UNIV c (upd_stats k f cb)"
  by (simp add: calm_def upd_stats_def)

lemma held_ref: "p \<in> held L (G(p := G p + 1))" by (simp add: held_def)

text \<open>The ways a turn ends, for the state \<open>cb\<close> with the extra reference on the item.\<close>

lemma turn_dead:
  assumes b: "mc_inv hash cb L K (G(p := G p + 1)) A" and p: "p \<in> L" and kb: "calm UNIV c cb" and hvb: "hv = item_hash hash (mem cb p)"
  shows "\<exists>t. do {
      c2 \<leftarrow> do_item_unlink_nolock p hv (upd_stats i f cb);
      c3 \<leftarrow> do_item_remove p c2;
      Some (Pull_on (removed + 1) c3) } = Some t \<and> turn_ok hash c L K G A p t"
proof -
  have si: "mc_inv hash (upd_stats i f cb) L K (G(p := G p + 1)) A" using b by simp
  have sh: "hv = item_hash hash (mem (upd_stats i f cb) p)" using hvb by (simp add: upd_stats_def)
  obtain c2 c3 where u: "do_item_unlink p hv (upd_stats i f cb) = Some c2" "do_item_remove p c2 = Some c3"
      "mc_inv hash c3 (L - {p}) K G A" "kept (held L G - {p}) (upd_stats i f cb) c3"
      "0 < G p \<longrightarrow> content (mem c3 p) = content (mem (upd_stats i f cb) p)"
    using mc_inv_unlink_remove [OF si p sh] by (elim exE conjE) (rule that)
  have "calm (held (L - {p}) G) (upd_stats i f cb) c3" by (rule calm_without [OF u(4,5)]) auto
  then have "calm (held (L - {p}) G) c c3" by (rule calm_trans [OF calm_stats [OF kb]]) auto
  then show ?thesis using u(1-3) by (auto simp: do_item_unlink_nolock_eq turn_ok_def)
qed

lemma turn_move:
  assumes b: "mc_inv hash cb L K (G(p := G p + 1)) A" and p: "p \<in> L" and kb: "calm UNIV c cb"
    and mv: "mv = WARM_LRU \<or> mv = COLD_LRU" and g: "g = clear_flag ITEM_ACTIVE \<or> g = (\<lambda>x. x)"
  shows "\<exists>t. do {
      c3 \<leftarrow> do_item_unlink_q p (upd_stats i f (upd_item p g cb));
      Some (Pull_stop p mv (removed + 1) None c3) } = Some t \<and> turn_ok hash c L K G A p t"
proof -
  have "mc_inv hash (upd_item p g cb) L K (G(p := G p + 1)) A" using g by (intro mc_inv_write [OF b held_ref]) auto
  then have "mc_inv hash (upd_stats i f (upd_item p g cb)) L K (G(p := G p + 1)) A" by simp
  from mc_inv_unlink_q [OF this p] obtain c3 where
    u: "do_item_unlink_q p (upd_stats i f (upd_item p g cb)) = Some c3" "mc_rep hash c3 (L - {p}) K L L (refs_of L (G(p := G p + 1))) A"
      "kept UNIV (upd_stats i f (upd_item p g cb)) c3" by blast
  have "calm UNIV cb (upd_stats i f (upd_item p g cb))"
    using g by (auto simp: calm_def upd_stats_def upd_item_def hupd_apply)
  then have "calm UNIV cb c3" by (rule calm_trans [OF _ kept_calm [OF u(3)]]) auto
  then have "calm (held L G) c c3" by (rule calm_trans [OF kb]) auto
  then show ?thesis using u mv by (auto simp: turn_ok_def stopped_def)
qed

lemma turn_warm:
  assumes b: "mc_inv hash cb L K (G(p := G p + 1)) A" and p: "p \<in> L" and kb: "calm UNIV c cb"
  shows "\<exists>t. do {
      c3 \<leftarrow> do_item_unlink_q p (upd_stats i f (upd_item p (clear_flag ITEM_ACTIVE) cb));
      c4 \<leftarrow> do_item_link_q p c3;
      c5 \<leftarrow> do_item_remove p c4;
      Some (Pull_on (removed + 1) c5) } = Some t \<and> turn_ok hash c L K G A p t"
proof -
  let ?c = "upd_stats i f (upd_item p (clear_flag ITEM_ACTIVE) cb)"
  have "mc_inv hash (upd_item p (clear_flag ITEM_ACTIVE) cb) L K (G(p := G p + 1)) A" by (rule mc_inv_write [OF b held_ref]) simp_all
  then have w: "mc_rep hash ?c L K L L (refs_of L (G(p := G p + 1))) A" by (simp add: mc_inv_rep)
  have idu: "upd_item p (\<lambda>x. x) x = x" for x by (simp add: upd_item_def hupd_def)
  obtain c3 c4 where u: "do_item_unlink_q p ?c = Some c3" "do_item_link_q p c3 = Some c4"
      "mc_inv hash c4 L K (G(p := G p + 1)) A" "kept (- {p}) ?c c4" "content (mem c4 p) = content (mem ?c p)"
    using requeue_step [OF w p, of "\<lambda>x. x"] unfolding mc_inv_rep idu by fastforce
  obtain c5 where r5: "do_item_remove p c4 = Some c5" "mc_inv hash c5 L K G A" "kept (held L (G(p := G p + 1)) - {p}) c4 c5"
      "c5 = upd_item p (\<lambda>x. x\<lparr>refcount := refcount x - 1\<rparr>) c4"
    using do_item_remove_inv [OF u(3), of p] p by (auto simp: held_def)
  have k4: "calm UNIV ?c c4" by (rule kept_calm_insert [OF u(4,5)]) auto
  have "calm UNIV cb ?c" by (auto simp: calm_def upd_stats_def upd_item_def hupd_apply)
  then have "calm UNIV cb c4" by (rule calm_trans [OF _ k4]) auto
  moreover have "content (mem c5 p) = content (mem c4 p)" using r5(4) by simp
  then have "calm (held L G) c4 c5" by (rule kept_calm_insert [OF r5(3)]) (auto simp: held_def)
  ultimately have "calm (held L G) cb c5" by (rule calm_trans) auto
  then have "calm (held L G) c c5" by (rule calm_trans [OF kb]) auto
  then show ?thesis using u(1,2) r5(1,2) by (auto simp: turn_ok_def)
qed

lemma turn_evict:
  assumes b: "mc_inv hash cb L K (G(p := G p + 1)) A" and p: "p \<in> L" and kb: "calm UNIV c cb" and hvb: "hv = item_hash hash (mem cb p)"
  shows "\<exists>t. do {
      c3 \<leftarrow> do_item_unlink_nolock p hv (upd_stats i f cb);
      let c4 = (if slab_automove (cfg c3) = 2
                then c3\<lparr>rebal := snd (slabs_reassign rl (- 1) (int (unat orig_id)) (sl c3) (rebal c3))\<rparr> else c3);
      Some (Pull_stop p 0 (removed + 1) None c4) } = Some t \<and> turn_ok hash c L K G A p t"
proof -
  have si: "mc_inv hash (upd_stats i f cb) L K (G(p := G p + 1)) A" using b by simp
  have sh: "hv = item_hash hash (mem (upd_stats i f cb) p)" using hvb by (simp add: upd_stats_def)
  obtain c2 where u: "do_item_unlink p hv (upd_stats i f cb) = Some c2" "mc_inv hash c2 (L - {p}) K (G(p := G p + 1)) A"
      "kept (held L (G(p := G p + 1)) - {p}) (upd_stats i f cb) c2"
      "core (mem c2 p) = core ((clear_flag ITEM_LINKED (mem (upd_stats i f cb) p))\<lparr>refcount := refcount (mem (upd_stats i f cb) p) - 1\<rparr>)"
    using do_item_unlink_inv [OF si p sh] by (elim exE conjE) (rule that, simp_all)
  have "content (mem c2 p) = content (mem (upd_stats i f cb) p)" using content_core [OF u(4)] by simp
  then have "calm (held L G) (upd_stats i f cb) c2" by (rule kept_calm_insert [OF u(3)]) (auto simp: held_def)
  then have "calm (held L G) c c2" by (rule calm_trans [OF calm_stats [OF kb]]) auto
  then show ?thesis using u(1,2) by (auto simp: do_item_unlink_nolock_eq turn_ok_def stopped_def Let_def calm_def)
qed

lemma lru_pull_turn_inv:
  assumes inv: "mc_inv hash c L K G A" and p: "p \<in> L" and hv: "hv = item_hash hash (mem c p)"
    and r: "refs_of L G p + 1 < 2 ^ 16" and tr: "tail_repair_time (cfg c) = 0" and fl: "flags AND LRU_PULL_RETURN_ITEM = 0"
  shows "\<exists>t. lru_pull_turn rl orig_id cur_lru total_bytes flags max_age p hv removed c = Some t \<and> turn_ok hash c L K G A p t"
proof -
  let ?G = "G(p := G p + 1)"
  define i where "i = orig_id OR cur_lru"
  define c1 where "c1 = upd_item p (\<lambda>x. x\<lparr>refcount := refcount x + 1\<rparr>) c"
  define cb where "cb = (if refcount (mem c1 p) \<noteq> 2 then upd_stats i (\<lambda>s. s\<lparr>lrutail_reflocked := lrutail_reflocked s + 1\<rparr>) c1 else c1)"
  have ph: "p \<in> held L G" using p by (simp add: held_def)
  have "mc_inv hash c1 L K ?G A" unfolding c1_def by (rule mc_inv_ref [OF inv ph r])
  then have b: "mc_inv hash cb L K ?G A" by (simp add: cb_def)
  have cb: "cfg cb = cfg c" "current_time cb = current_time c" "mem cb = mem c1" "sl cb = sl c" "bump_bufs cb = bump_bufs c"
    by (simp_all add: cb_def c1_def upd_stats_def)
  have kb: "calm X c cb" for X
    by (auto simp: calm_def cb c1_def upd_item_def hupd_apply)
  have hvb: "hv = item_hash hash (mem cb p)" using hv by (simp add: cb c1_def)
  have moveg: "\<exists>t. do {
        c3 \<leftarrow> do_item_unlink_q p (upd_item p (clear_flag ITEM_ACTIVE) (upd_stats i f cb));
        Some (Pull_stop p WARM_LRU (removed + 1) None c3) } = Some t \<and> turn_ok hash c L K G A p t" for f
  proof -
    have "upd_item p (clear_flag ITEM_ACTIVE) (upd_stats i f cb) = upd_stats i f (upd_item p (clear_flag ITEM_ACTIVE) cb)"
      by (simp add: upd_item_def upd_stats_def)
    then show ?thesis using turn_move [OF b p kb, of WARM_LRU "clear_flag ITEM_ACTIVE" i f removed] by simp
  qed
  have movei: "\<exists>t. do {
        c3 \<leftarrow> do_item_unlink_q p (upd_stats i f cb);
        Some (Pull_stop p COLD_LRU (removed + 1) None c3) } = Some t \<and> turn_ok hash c L K G A p t" for f
  proof -
    have "upd_item p (\<lambda>x. x) cb = cb" by (simp add: upd_item_def hupd_def)
    then show ?thesis using turn_move [OF b p kb, of COLD_LRU "\<lambda>x. x" i f removed] by simp
  qed
  have stay: "turn_ok hash c L K G A p (Pull_stop p 0 removed None cb)"
    using b kb by (auto simp: turn_ok_def stopped_def)
  show ?thesis
    unfolding lru_pull_turn_def i_def [symmetric] c1_def [symmetric] Let_def cb_def [symmetric]
    using tr fl cb(1) turn_dead [OF b p kb hvb, where i = i and removed = removed]
      turn_move [OF b p kb, of WARM_LRU "clear_flag ITEM_ACTIVE", where i = i and removed = removed] moveg movei
      turn_warm [OF b p kb, where i = i and removed = removed] stay
      turn_evict [OF b p kb hvb, unfolded Let_def, where i = i and removed = removed and rl = rl and orig_id = orig_id]
    by (simp cong: if_cong)
qed

section \<open>The search\<close>

text \<open>
  Items that cannot be locked are not touched: \<open>P\<close> are hash values whose lock is held by someone, \<open>W\<close> items with such hash values.
  (The caller of an allocation holds the lock of the key it stores.)
\<close>

definition locked :: "hash_fn \<Rightarrow> u32 set \<Rightarrow> mc \<Rightarrow> ptr set \<Rightarrow> ptr set \<Rightarrow> bool" where
  "locked hash P c L W \<longleftrightarrow> W \<subseteq> L \<and> (\<forall>p\<in>W. item_hash hash (mem c p) \<in> P)"

lemma locked_empty [simp]: "locked hash P c L {}" by (simp add: locked_def)

lemma entry_hash: "content x = content y \<Longrightarrow> key_ok x \<Longrightarrow> key_ok y \<Longrightarrow> item_hash hash x = item_hash hash y"
  using item_hash_key [of x "ITEM_key x" hash] item_hash_key [of y "ITEM_key y" hash] content_fields(8) [of x y] by simp

lemma locked_calm:
  assumes "locked hash P c L W" "mc_inv hash c L K G A" "mc_inv hash c' L' K' G' A'" "calm (held L' G) c c'" "W \<subseteq> L'"
  shows "locked hash P c' L' W"
proof -
  have "item_hash hash (mem c' p) = item_hash hash (mem c p)" if "p \<in> W" for p
  proof (rule entry_hash)
    show "content (mem c' p) = content (mem c p)" using calmD(5) [OF assms(4)] assms(5) that by (auto simp: held_def)
    show "key_ok (mem c' p)" "key_ok (mem c p)"
      using assoc_rep_key_ok [OF mc_repD(2) [OF assms(3) [unfolded mc_inv_rep]], of p]
        assoc_rep_key_ok [OF mc_repD(2) [OF assms(2) [unfolded mc_inv_rep]], of p] assms(1,5) that by (auto simp: locked_def)
  qed
  then show ?thesis using assms(1,5) by (simp add: locked_def)
qed

definition pull_ok :: "hash_fn \<Rightarrow> ptr set \<Rightarrow> mc \<Rightarrow> ptr set \<Rightarrow> ptr set \<Rightarrow> (ptr \<Rightarrow> nat) \<Rightarrow> ptr set \<Rightarrow>
    mc + ptr \<times> u8 \<times> nat \<times> (ptr \<times> u32) option \<times> mc \<Rightarrow> bool" where
  "pull_ok hash W c L K G A res \<longleftrightarrow> (case res of
      Inl c' \<Rightarrow> \<exists>L'\<subseteq>L. W \<subseteq> L' \<and> mc_inv hash c' L' K G A \<and> calm (held L' G) c c'
    | Inr (it, mv, r, ret, c') \<Rightarrow> ret = None \<and> (\<exists>L'\<subseteq>L. W \<subseteq> L' \<and> calm (held L' G) c c' \<and>
        (if it = NULL then mc_inv hash c' L' K G A else it \<in> L' - W \<and> stopped hash L' K G A it mv c')))"

lemma held_mono: "L' \<subseteq> L \<Longrightarrow> held L' G \<subseteq> held L G" by (auto simp: held_def)

lemma refs_mono: "L' \<subseteq> L \<Longrightarrow> refs_of L' G p \<le> refs_of L G p" by (auto simp: refs_of_def)

lemma pull_ok_trans:
  assumes "calm (held L1 G) c c1" "L1 \<subseteq> L" "pull_ok hash W c1 L1 K G A res"
  shows "pull_ok hash W c L K G A res"
proof -
  have c: "calm (held L' G) c c'" if "calm (held L' G) c1 c'" "L' \<subseteq> L1" for c' L'
    by (rule calm_trans [OF assms(1) that(1) held_mono [OF that(2)]]) simp
  show ?thesis
  proof (cases res)
    case (Inl c')
    with assms(3) obtain L' where "L' \<subseteq> L1" "W \<subseteq> L'" "mc_inv hash c' L' K G A" "calm (held L' G) c1 c'" unfolding pull_ok_def by auto
    then show ?thesis using Inl c [of L' c'] assms(2) unfolding pull_ok_def by (simp only: sum.case) (blast dest: order_trans)
  next
    case (Inr x)
    obtain it mv r ret c' where x: "x = (it, mv, r, ret, c')" by (cases x)
    then obtain L' where "L' \<subseteq> L1" "W \<subseteq> L'" "ret = None" "calm (held L' G) c1 c'"
        "if it = NULL then mc_inv hash c' L' K G A else it \<in> L' - W \<and> stopped hash L' K G A it mv c'"
      using assms(3) Inr unfolding pull_ok_def by auto
    then show ?thesis using Inr x c [of L' c'] assms(2) unfolding pull_ok_def
      by (simp only: sum.case prod.case) (blast dest: order_trans)
  qed
qed

lemma mc_inv_queued:
  assumes inv: "mc_inv hash c L K G A"
  shows "p \<in> L \<Longrightarrow> \<not> is_crawler (mem c p)" "p \<in> K \<Longrightarrow> is_crawler (mem c p)"
proof -
  note rep = inv [unfolded mc_inv_rep]
  show "\<not> is_crawler (mem c p)" if "p \<in> L"
    using mc_repD(5) [OF rep] that by (auto simp: counted_def is_crawler_def)
  show "is_crawler (mem c p)" if "p \<in> K" using mc_repD(1) [OF rep] lru_okD(6) that by metis
qed

lemma queued_prev:
  assumes Q: "lru_ok c L K Q" and i: "Q i = ys @ s # zs"
  shows "it_prev (mem c s) = (if ys = [] then NULL else last ys)" "it_prev (mem c s) \<noteq> s" "s \<in> L \<union> K" "s \<noteq> NULL"
    "it_prev (mem c s) = NULL \<or> it_prev (mem c s) \<in> L \<union> K"
proof -
  note q = lru_okD(1) [OF Q, of i, unfolded i]
  show b: "it_prev (mem c s) = (if ys = [] then NULL else last ys)" using item_queue_neighbours [OF q] by simp
  show n: "s \<noteq> NULL" using item_queue_nonnull [OF q] by auto
  have d: "distinct (ys @ s # zs)" using item_queue_distinct [OF q] .
  show "it_prev (mem c s) \<noteq> s" using b n d by (auto split: if_splits)
  show "s \<in> L \<union> K" using lru_okD(3) [OF Q, of s i] i by simp
  show "it_prev (mem c s) = NULL \<or> it_prev (mem c s) \<in> L \<union> K"
    using b lru_okD(3) [OF Q, of "last ys" i] i by (auto split: if_splits)
qed

text \<open>One step of the search at \<open>s\<close>, given what the search does from the item before it.\<close>

lemma lru_pull_loop_step:
  assumes inv: "mc_inv hash c L K G A" and s: "s \<in> L \<union> K" "s \<noteq> NULL" "it_prev (mem c s) \<noteq> s"
      "it_prev (mem c s) = NULL \<or> it_prev (mem c s) \<in> L \<union> K"
    and r: "\<And>p. p \<in> L \<Longrightarrow> refs_of L G p + 1 < 2 ^ 16" and tr: "tail_repair_time (cfg c) = 0" and fl: "flags AND LRU_PULL_RETURN_ITEM = 0"
    and lw: "locked hash P c L W" "\<And>n h. h \<in> P \<Longrightarrow> \<not> lk n h"
    and crawl: "\<exists>res. lru_pull_loop hash lk rl orig_id cur_lru total_bytes flags max_age (Suc tries) (it_prev (mem c s)) n removed c = Some res \<and>
       pull_ok hash W c L K G A res"
    and on: "\<And>c' L' n removed. mc_inv hash c' L' K G A \<Longrightarrow> it_prev (mem c s) = NULL \<or> it_prev (mem c s) \<in> L' \<union> K \<Longrightarrow>
       L' \<subseteq> L \<Longrightarrow> locked hash P c' L' W \<Longrightarrow> cfg c' = cfg c \<Longrightarrow>
       \<exists>res. lru_pull_loop hash lk rl orig_id cur_lru total_bytes flags max_age tries (it_prev (mem c s)) n removed c' = Some res \<and>
         pull_ok hash W c' L' K G A res"
  shows "\<exists>res. lru_pull_loop hash lk rl orig_id cur_lru total_bytes flags max_age (Suc tries) s n removed c = Some res \<and>
     pull_ok hash W c L K G A res"
proof (cases "is_crawler (mem c s)")
  case True
  then show ?thesis using s(2) crawl inv lw(1) by (subst lru_pull_loop.simps) (auto simp: pull_ok_def locked_def)
next
  case nc: False
  then have sL: "s \<in> L" using s(1) mc_inv_queued(2) [OF inv] by blast
  let ?hv = "hash (ITEM_key (mem c s)) (unat (nkey (mem c s)))"
  show ?thesis
  proof (cases "lk n ?hv")
    case False
    then show ?thesis using nc s(2,4) on [OF inv _ _ lw(1)] by (subst lru_pull_loop.simps) (simp add: Let_def)
  next
    case True
    have "?hv = item_hash hash (mem c s)" by (simp add: item_hash_def)
    then have sW: "s \<notin> W" using True lw unfolding locked_def by metis
    have "?hv = item_hash hash (mem c s)" by (simp add: item_hash_def)
    from lru_pull_turn_inv [OF inv sL this r [OF sL] tr fl] obtain t where
      t: "lru_pull_turn rl orig_id cur_lru total_bytes flags max_age s ?hv removed c = Some t" "turn_ok hash c L K G A s t" by blast
    show ?thesis
    proof (cases t)
      case (Pull_on r' c')
      with t(2) obtain L' where L': "L - {s} \<subseteq> L'" "L' \<subseteq> L" "mc_inv hash c' L' K G A" "calm (held L' G) c c'"
        by (auto simp: turn_ok_def)
      have "it_prev (mem c s) = NULL \<or> it_prev (mem c s) \<in> L' \<union> K" using s(3,4) L'(1) by blast
      moreover have W': "W \<subseteq> L'" using L'(1) sW lw(1) unfolding locked_def by blast
      moreover have "locked hash P c' L' W" by (rule locked_calm [OF lw(1) inv L'(3,4) W'])
      ultimately obtain res where
        res: "lru_pull_loop hash lk rl orig_id cur_lru total_bytes flags max_age tries (it_prev (mem c s)) (n + 1) r' c' = Some res"
          "pull_ok hash W c' L' K G A res" using on [OF L'(3) _ L'(2) _ calmD(1) [OF L'(4)]] by blast
      have "pull_ok hash W c L K G A res" by (rule pull_ok_trans [OF L'(4,2) res(2)])
      then show ?thesis using nc s(2) True t(1) Pull_on res(1)
        by (subst lru_pull_loop.simps) (simp add: Let_def)
    next
      case (Pull_stop it mv r' ret c')
      have "pull_ok hash W c L K G A (Inr (it, mv, r', ret, c'))"
        using t(2) Pull_stop sL s(2) sW lw(1) by (auto simp: turn_ok_def pull_ok_def locked_def)
      then show ?thesis using nc s(2) True t(1) Pull_stop
        by (subst lru_pull_loop.simps) (simp add: Let_def)
    qed
  qed
qed

lemma lru_pull_loop_inv:
  assumes "mc_inv hash c L K G A" "s = NULL \<or> s \<in> L \<union> K" "\<And>p. p \<in> L \<Longrightarrow> refs_of L G p + 1 < 2 ^ 16"
    "tail_repair_time (cfg c) = 0" "flags AND LRU_PULL_RETURN_ITEM = 0" "locked hash P c L W" "\<And>n h. h \<in> P \<Longrightarrow> \<not> lk n h"
  shows "\<exists>res. lru_pull_loop hash lk rl orig_id cur_lru total_bytes flags max_age tries s n removed c = Some res \<and>
     pull_ok hash W c L K G A res"
  using assms
proof (induction tries arbitrary: s n removed c L)
  case 0
  then show ?case by (subst lru_pull_loop.simps) (auto simp: pull_ok_def locked_def)
next
  case (Suc tries)
  note inv = Suc.prems(1)
  obtain Q where Q: "lru_ok c L K Q" using mc_repD(1) [OF inv [unfolded mc_inv_rep]] by blast
  let ?loop = "lru_pull_loop hash lk rl orig_id cur_lru total_bytes flags max_age"
  have null: "\<exists>res. ?loop (Suc tries) NULL n removed c = Some res \<and> pull_ok hash W c L K G A res"
    using inv Suc.prems(6) by (subst lru_pull_loop.simps) (auto simp: pull_ok_def locked_def)
  have on: "\<exists>res. ?loop tries s n removed c' = Some res \<and> pull_ok hash W c' L' K G A res"
    if "mc_inv hash c' L' K G A" "s = NULL \<or> s \<in> L' \<union> K" "L' \<subseteq> L" "locked hash P c' L' W" "cfg c' = cfg c" for c' L' s n removed
  proof (rule Suc.IH [OF that(1,2)])
    show "refs_of L' G p + 1 < 2 ^ 16" if "p \<in> L'" for p
      using Suc.prems(3) [of p] that \<open>L' \<subseteq> L\<close> refs_mono [OF \<open>L' \<subseteq> L\<close>, of G p] by (meson add_le_mono1 le_less_trans subsetD)
  qed (use Suc.prems(4,5,7) that(4,5) in simp_all)
  have queued: "\<exists>res. ?loop (Suc tries) s n removed c = Some res \<and> pull_ok hash W c L K G A res" if "Q i = ys @ s # zs" for i ys s zs
    using that
  proof (induction ys arbitrary: s zs rule: rev_induct)
    case Nil
    note p = queued_prev [OF Q Nil]
    have cr: "\<exists>res. ?loop (Suc tries) (it_prev (mem c s)) n removed c = Some res \<and> pull_ok hash W c L K G A res"
      using null p(1) by simp
    show ?case
      by (rule lru_pull_loop_step [OF inv p(3,4,2,5) _ Suc.prems(4-7) cr]) (erule Suc.prems(3), assumption, (rule on; assumption))
  next
    case (snoc y ys)
    then have q: "Q i = (ys @ [y]) @ s # zs" "Q i = ys @ y # s # zs" by simp_all
    note p = queued_prev [OF Q q(1)]
    have cr: "\<exists>res. ?loop (Suc tries) (it_prev (mem c s)) n removed c = Some res \<and> pull_ok hash W c L K G A res"
      using snoc.IH [OF q(2)] p(1) by simp
    show ?case
      by (rule lru_pull_loop_step [OF inv p(3,4,2,5) _ Suc.prems(4-7) cr]) (erule Suc.prems(3), assumption, (rule on; assumption))
  qed
  show ?case
  proof (cases "s = NULL")
    case False
    then obtain i where "s \<in> set (Q i)" using Suc.prems(2) lru_okD(4) [OF Q] by blast
    then show ?thesis using queued by (meson split_list)
  qed (use null in simp)
qed

section \<open>Finishing a pull\<close>

lemma lru_pull_finish_inv:
  assumes st: "stopped hash L K G A p mv c" and p: "p \<in> L" and fl: "flags AND LRU_PULL_RETURN_ITEM = 0" and pn: "p \<noteq> NULL"
  shows "\<exists>c' L'. lru_pull_finish flags p mv c = Some c' \<and> L - {p} \<subseteq> L' \<and> L' \<subseteq> L \<and> mc_inv hash c' L' K G A \<and> calm (held L' G) c c'"
proof -
  let ?G = "G(p := G p + 1)"
  have undo: "(?G(p := ?G p - 1)) = G" by simp
  have fin: "\<exists>c'. do_item_remove p c1 = Some c' \<and> mc_inv hash c' L' K G A \<and> calm (held L' G) c1 c'"
    if inv: "mc_inv hash c1 L' K ?G A" for c1 L'
  proof -
    obtain c' where r: "do_item_remove p c1 = Some c'" "mc_inv hash c' L' K G A" "kept (held L' ?G - {p}) c1 c'"
        "p \<in> held L' G \<longrightarrow> c' = upd_item p (\<lambda>x. x\<lparr>refcount := refcount x - 1\<rparr>) c1"
      using do_item_remove_inv [OF inv, of p] unfolding undo by auto
    show ?thesis
    proof (cases "p \<in> held L' G")
      case True
      then have "content (mem c' p) = content (mem c1 p)" using r(4) by simp
      then have "calm (held L' G) c1 c'" by (rule kept_calm_insert [OF r(3)]) (auto simp: held_def)
      then show ?thesis using r by blast
    next
      case False
      then have "calm (held L' G) c1 c'" by (intro calm_mono [OF kept_calm [OF r(3)]]) (auto simp: held_def)
      then show ?thesis using r by blast
    qed
  qed
  show ?thesis
  proof (cases "mv = 0")
    case True
    then obtain L' where L': "L' \<subseteq> L" "mc_inv hash c L' K ?G A" "L - {p} \<subseteq> L'" using st by (auto simp: stopped_def)
    from fin [OF L'(2)] obtain c' where "do_item_remove p c = Some c'" "mc_inv hash c' L' K G A" "calm (held L' G) c c'" by blast
    then show ?thesis using True fl pn L'(1,3) by (auto simp: lru_pull_finish_def)
  next
    case False
    then have mv: "mv = WARM_LRU \<or> mv = COLD_LRU" and rep: "mc_rep hash c (L - {p}) K L L (refs_of L ?G) A"
      using st by (auto simp: stopped_def)
    let ?f = "\<lambda>x. x\<lparr>slabs_clsid := ITEM_clsid x OR mv\<rparr>" and ?c = "upd_item p (\<lambda>x. x\<lparr>slabs_clsid := ITEM_clsid x OR mv\<rparr>) c"
    have p0: "0 < refs_of L ?G p" and np: "p \<notin> L - {p}" by (simp_all add: refs_of_def)
    have "mc_rep hash ?c (L - {p}) K L L (refs_of L ?G) A"
      by (rule mc_rep_segment [OF rep p0 np]) (use mv clsid_segment [of mv] in auto)
    from link_q_step [OF this p0 np] obtain c1 where
      l: "do_item_link_q p ?c = Some c1" "mc_rep hash c1 (insert p (L - {p})) K L L (refs_of L ?G) A" "kept UNIV ?c c1" by blast
    have "mc_inv hash c1 L K ?G A" using l(2) insert_Diff [OF p] by (simp add: mc_inv_rep)
    from fin [OF this] obtain c' where c': "do_item_remove p c1 = Some c'" "mc_inv hash c' L K G A" "calm (held L G) c1 c'" by blast
    have "calm UNIV c ?c" by (auto simp: calm_def upd_item_def hupd_apply)
    then have "calm UNIV c c1" by (rule calm_trans [OF _ kept_calm [OF l(3)]]) auto
    then have "calm (held L G) c c'" by (rule calm_trans [OF _ c'(3)]) auto
    then show ?thesis using False fl pn l(1) c' by (auto simp: lru_pull_finish_def item_link_q_def)
  qed
qed

lemma lru_pull_tail_inv:
  assumes inv: "mc_inv hash c L K G A" and r: "\<And>p. p \<in> L \<Longrightarrow> refs_of L G p + 1 < 2 ^ 16"
    and tr: "tail_repair_time (cfg c) = 0" and fl: "flags AND LRU_PULL_RETURN_ITEM = 0"
    and lw: "locked hash P c L W" "\<And>n h. h \<in> P \<Longrightarrow> \<not> lk n h"
  shows "\<exists>n c' L'. lru_pull_tail hash lk rl orig_id cur_lru total_bytes flags max_age c = Some (n, None, c') \<and>
     W \<subseteq> L' \<and> L' \<subseteq> L \<and> mc_inv hash c' L' K G A \<and> calm (held L' G) c c'"
proof (cases "orig_id = 0")
  case True
  then show ?thesis using inv lw(1) by (auto simp: lru_pull_tail_def locked_def)
next
  case False
  let ?s = "tails c (orig_id OR cur_lru)"
  obtain Q where Q: "lru_ok c L K Q" using mc_repD(1) [OF inv [unfolded mc_inv_rep]] by blast
  have "?s = NULL \<or> ?s \<in> L \<union> K"
    using item_queue_tail_in [OF lru_okD(1) [OF Q]] lru_okD(3) [OF Q] by blast
  then obtain res where
    res: "lru_pull_loop hash lk rl orig_id cur_lru total_bytes flags max_age 5 ?s 0 0 c = Some res" "pull_ok hash W c L K G A res"
    using lru_pull_loop_inv [OF inv _ _ tr fl lw(1), of ?s lk rl orig_id cur_lru total_bytes max_age 5 0 0] r lw(2) by blast
  show ?thesis
  proof (cases res)
    case (Inl c')
    then show ?thesis using res False by (auto simp: lru_pull_tail_def pull_ok_def)
  next
    case (Inr x)
    obtain it mv n ret c1 where x: "x = (it, mv, n, ret, c1)" by (cases x)
    obtain L1 where L1: "L1 \<subseteq> L" "ret = None" "calm (held L1 G) c c1"
        "if it = NULL then mc_inv hash c1 L1 K G A else it \<in> L1 - W \<and> stopped hash L1 K G A it mv c1" "W \<subseteq> L1"
      using res(2) Inr x by (auto simp: pull_ok_def)
    have run: "lru_pull_tail hash lk rl orig_id cur_lru total_bytes flags max_age c =
        (lru_pull_finish flags it mv c1 \<bind> (\<lambda>c2. Some (n, None, c2)))"
      using res(1) Inr x False L1(2) by (simp add: lru_pull_tail_def)
    show ?thesis
    proof (cases "it = NULL")
      case True
      then show ?thesis using L1 run by (auto simp: lru_pull_finish_def)
    next
      case it: False
      then have s: "it \<in> L1" "stopped hash L1 K G A it mv c1" "it \<notin> W" using L1(4) by simp_all
      obtain c' L' where c': "lru_pull_finish flags it mv c1 = Some c'" "L' \<subseteq> L1" "mc_inv hash c' L' K G A" "calm (held L' G) c1 c'" "L1 - {it} \<subseteq> L'"
        using lru_pull_finish_inv [OF s(2,1) fl it] by blast
      have "calm (held L' G) c c'" by (rule calm_trans [OF L1(3) c'(4) held_mono [OF c'(2)]]) simp
      moreover have "W \<subseteq> L'" "L' \<subseteq> L" using c'(2,5) L1(1,5) s(3) by blast+
      ultimately show ?thesis using run c'(1,3) by (intro exI [of _ n] exI [of _ c'] exI [of _ L']) simp
    qed
  qed
qed

end
