(* ===== verification/Item_Alloc.thy ===== *)
theory Item_Alloc
  imports Item_Evict
begin

text \<open>
  Allocation of an item: \<open>do_item_alloc_pull\<close> alternates between the slab allocator and evictions, and
  \<open>do_item_alloc\<close> fills in the header. The result is a fresh item with one reference, and the cache has at
  most lost items.
\<close>

section \<open>One chunk\<close>

lemma clsid_of_nat: "i < 64 \<Longrightarrow> slabs_clsid x = of_nat i \<Longrightarrow> unat (ITEM_clsid x) = i"
proof -
  assume i: "i < 64" and x: "slabs_clsid x = of_nat i"
  have m: "NOT (192 :: u8) = mask 6" by (simp add: mask_eq_exp_minus_1)
  show ?thesis using i unfolding ITEM_clsid_def x m by (simp add: unat_and_mask unat_of_nat)
qed

lemma slab_inv_classes:
  assumes "slab_inv st m s U A" shows "1 \<le> power_largest s" "power_largest s < 64"
  using assms classes_okD(2,3) slabs_repD(1) unfolding slab_inv_def by fastforce+

lemma slab_inv_mono: "slab_inv st m s U A \<Longrightarrow> A \<subseteq> B \<Longrightarrow> slab_inv st m s U B"
  unfolding slab_inv_def by blast

lemma mc_inv_mono: "mc_inv hash c L K G A \<Longrightarrow> A \<subseteq> B \<Longrightarrow> K \<inter> B = {} \<Longrightarrow> mc_inv hash c L K G B"
  unfolding mc_inv_rep mc_rep_def using slab_inv_mono by blast

lemma mc_rep_alloc:
  assumes rep: "mc_rep hash c Lq K Lh L R A" and r: "R p = 0"
    and s: "slab_inv (cfg c) m' s' (insert (p, i) (live (mem c) R)) B" and AB: "A \<subseteq> B" and KB: "K \<inter> B = {}"
    and i: "unat (ITEM_clsid (m' p)) = i" and f: "it_flags (m' p) = 0" "refcount (m' p) = 1"
    and keep: "\<And>q. 0 < R q \<or> q \<in> K \<Longrightarrow> m' q = mem c q"
  shows "mc_rep hash (c\<lparr>mem := m', sl := s'\<rparr>) Lq K Lh L (R(p := 1)) B"
proof -
  let ?c = "c\<lparr>mem := m', sl := s'\<rparr>"
  have q: "m' q = mem c q" if "q \<in> Lq \<or> q \<in> Lh \<or> q \<in> L \<or> q \<in> K" for q
    using that mc_repD(7-9) [OF rep] by (intro keep) auto
  have lv: "live m' (R(p := 1)) = insert (p, i) (live (mem c) R)"
    using keep r i unfolding live_def by (auto simp: image_iff split: if_splits)
  have pL: "p \<notin> L" using mc_repD(9) [OF rep, of p] r by auto
  obtain Q where Q: "lru_ok c Lq K Q" using mc_repD(1) [OF rep] by blast
  have "lru_ok ?c Lq K Q" by (rule lru_ok_frame [OF Q]) (use q lru_okD(6) [OF Q] in auto)
  moreover have "assoc_rep hash (mem ?c) (ht ?c) Lh" using assoc_rep_frame [OF mc_repD(2) [OF rep], of m'] q by simp
  moreover have "slab_inv (cfg ?c) (mem ?c) (sl ?c) (live (mem ?c) (R(p := 1))) B" using s lv by simp
  moreover have "refs_ok (mem ?c) L (R(p := 1))"
    using mc_repD(4) [OF rep] keep f pL unfolding refs_ok_def by (auto simp: has_flag_def)
  moreover have "counted ?c L" using mc_repD(5) [OF rep] q unfolding counted_def by simp
  ultimately show ?thesis using mc_repD(7-9) [OF rep] KB unfolding mc_rep_def by auto
qed

definition fresh_item :: "ptr set \<Rightarrow> (ptr \<Rightarrow> nat) \<Rightarrow> nat \<Rightarrow> ptr \<Rightarrow> mc \<Rightarrow> bool" where
  "fresh_item L G i p c \<longleftrightarrow> p \<notin> held L G \<and> it_flags (mem c p) = 0 \<and> slabs_clsid (mem c p) = of_nat i"

lemma slabs_alloc_inv:
  assumes inv: "mc_inv hash c L K G A" and fr: "malloc_region (cfg c) env \<inter> (A \<union> K) = {}"
    and i: "i \<in> {1..power_largest (sl c)}" and sz: "sz \<le> sc_size (cls (sl c) i)"
  shows "\<exists>p m' s'. do_slabs_alloc (cfg c) env sz i 0 (mem c) (sl c) = Some (p, m', s') \<and>
     mc_inv hash (c\<lparr>mem := m', sl := s'\<rparr>) L K (if p = NULL then G else G(p := 1)) (A \<union> malloc_region (cfg c) env) \<and>
     kept (held L G) c (c\<lparr>mem := m', sl := s'\<rparr>) \<and> (p \<noteq> NULL \<longrightarrow> fresh_item L G i p (c\<lparr>mem := m', sl := s'\<rparr>))"
proof -
  note rep = inv [unfolded mc_inv_rep]
  let ?M = "malloc_region (cfg c) env"
  have "?M \<inter> A = {}" using fr by blast
  from slab_inv_alloc_run [OF mc_repD(3) [OF rep] this i sz, of 0] obtain p m' s' where
    a: "do_slabs_alloc (cfg c) env sz i 0 (mem c) (sl c) = Some (p, m', s')"
      "slab_inv (cfg c) m' s' (if p = NULL then live (mem c) (refs_of L G) else insert (p, i) (live (mem c) (refs_of L G))) (A \<union> ?M)"
      "geometry (sl c) s'"
      "p \<noteq> NULL \<longrightarrow> p \<notin> fst ` live (mem c) (refs_of L G) \<and> it_flags (m' p) = 0 \<and> refcount (m' p) = 1 \<and> slabs_clsid (m' p) = of_nat i"
      "\<forall>q. q \<in> fst ` live (mem c) (refs_of L G) \<or> (q \<noteq> NULL \<and> q \<notin> A \<union> ?M) \<longrightarrow> m' q = mem c q" by blast
  obtain Q where Q: "lru_ok c L K Q" using mc_repD(1) [OF rep] by blast
  have KB: "K \<inter> (A \<union> ?M) = {}" using mc_repD(6) [OF rep] fr by blast
  have keep: "m' q = mem c q" if "0 < refs_of L G q \<or> q \<in> K" for q
    using that lru_ok_nonnull [OF Q, of q] KB by (intro a(5) [rule_format]) auto
  have k: "kept (held L G) c (c\<lparr>mem := m', sl := s'\<rparr>)"
    using a(3) keep by (simp add: kept_def held_def refs_of_pos)
  have i64: "i < 64" using slab_inv_classes(2) [OF mc_repD(3) [OF rep]] i by simp
  show ?thesis
  proof (cases "p = NULL")
    case True
    have lv: "live m' (refs_of L G) = live (mem c) (refs_of L G)" using keep by (intro live_core) simp
    have "lru_ok (c\<lparr>mem := m', sl := s'\<rparr>) L K Q"
      by (rule lru_ok_frame [OF Q]) (use keep lru_okD(6) [OF Q] in \<open>auto simp: refs_of_pos\<close>)
    moreover have "assoc_rep hash m' (ht c) L"
      using assoc_rep_frame [OF mc_repD(2) [OF rep], of m'] keep by (simp add: refs_of_pos)
    moreover have "refs_ok m' L (refs_of L G)" using mc_repD(4) [OF rep] keep unfolding refs_ok_def by simp
    moreover have "counted (c\<lparr>mem := m', sl := s'\<rparr>) L"
      using mc_repD(5) [OF rep] keep unfolding counted_def by (simp add: refs_of_pos)
    ultimately have "mc_inv hash (c\<lparr>mem := m', sl := s'\<rparr>) L K G (A \<union> ?M)"
      using a(2) True KB lv unfolding mc_inv_rep mc_rep_def by (auto simp: refs_of_pos)
    then show ?thesis using a(1) True k by auto
  next
    case False
    then have r0: "refs_of L G p = 0" using a(4) by (simp del: One_nat_def)
    then have pL: "p \<notin> L" "G p = 0" by (auto simp: refs_of_def split: if_splits)
    have R: "(refs_of L G)(p := 1) = refs_of L (G(p := 1))" using pL by (auto simp: refs_of_def fun_eq_iff)
    have "mc_rep hash (c\<lparr>mem := m', sl := s'\<rparr>) L K L L ((refs_of L G)(p := 1)) (A \<union> ?M)"
      by (rule mc_rep_alloc [OF rep r0, where i = i]) (use a(2,4) False KB keep clsid_of_nat [OF i64] in auto)
    then have "mc_inv hash (c\<lparr>mem := m', sl := s'\<rparr>) L K (G(p := 1)) (A \<union> ?M)" unfolding mc_inv_rep R .
    moreover have "fresh_item L G i p (c\<lparr>mem := m', sl := s'\<rparr>)" using a(4) False pL by (simp add: fresh_item_def held_def)
    ultimately show ?thesis using a(1) False k by auto
  qed
qed

section \<open>The allocation loop\<close>

text \<open>
  What \<open>malloc\<close> promises over a run of the loop: what it returns overlaps neither memory the program
  holds nor what it returns at another turn.
\<close>

definition turn_region :: "settings \<Rightarrow> (nat \<Rightarrow> pull_env) \<Rightarrow> nat \<Rightarrow> ptr set" where
  "turn_region st env t = malloc_region st (pe_alloc (env t))"

definition env_fresh :: "settings \<Rightarrow> (nat \<Rightarrow> pull_env) \<Rightarrow> nat \<Rightarrow> ptr set \<Rightarrow> bool" where
  "env_fresh st env turn X \<longleftrightarrow> (\<forall>t\<ge>turn. turn_region st env t \<inter> X = {} \<and>
     (\<forall>s. turn \<le> s \<and> s < t \<longrightarrow> turn_region st env s \<inter> turn_region st env t = {}))"

definition obtained :: "settings \<Rightarrow> (nat \<Rightarrow> pull_env) \<Rightarrow> nat \<Rightarrow> nat \<Rightarrow> ptr set" where
  "obtained st env turn k = (\<Union>t\<in>{turn ..< turn + k}. turn_region st env t)"

lemma env_freshD:
  assumes "env_fresh st env turn X" "turn \<le> t"
  shows "turn_region st env t \<inter> X = {}" "turn \<le> s \<Longrightarrow> s < t \<Longrightarrow> turn_region st env s \<inter> turn_region st env t = {}"
  using assms by (simp_all add: env_fresh_def)

lemma env_fresh_Suc:
  assumes f: "env_fresh st env turn X"
  shows "env_fresh st env (turn + 1) (X \<union> turn_region st env turn)"
proof -
  have "turn_region st env t \<inter> (X \<union> turn_region st env turn) = {}" if "turn + 1 \<le> t" for t
    using env_freshD(1) [OF f, of t] env_freshD(2) [OF f, of t turn] that by (simp add: Int_Un_distrib Int_commute)
  moreover have "turn_region st env s \<inter> turn_region st env t = {}" if "turn + 1 \<le> s" "s < t" for s t
    using env_freshD(2) [OF f, of t s] that by simp
  ultimately show ?thesis unfolding env_fresh_def by blast
qed

lemma obtained_Suc: "obtained st env turn (Suc k) = turn_region st env turn \<union> obtained st env (turn + 1) k"
proof -
  have "{turn ..< turn + Suc k} = insert turn {turn + 1 ..< turn + 1 + k}" by auto
  then show ?thesis by (simp add: obtained_def)
qed

lemma env_fresh_obtained: "env_fresh st env turn X \<Longrightarrow> obtained st env turn k \<inter> X = {}"
proof (rule equals0I)
  fix q assume f: "env_fresh st env turn X" and "q \<in> obtained st env turn k \<inter> X"
  then obtain t where "turn \<le> t" "q \<in> turn_region st env t" "q \<in> X" by (auto simp: obtained_def)
  then show False using env_freshD(1) [OF f, of t] by blast
qed

text \<open>The outcome: the linked items \<open>L'\<close> that are left, and the new item, if any.\<close>

definition alloc_ok :: "hash_fn \<Rightarrow> ptr set \<Rightarrow> mc \<Rightarrow> ptr set \<Rightarrow> ptr set \<Rightarrow> (ptr \<Rightarrow> nat) \<Rightarrow> ptr set \<Rightarrow> nat \<Rightarrow> ptr \<Rightarrow> mc \<Rightarrow> ptr set \<Rightarrow> bool" where
  "alloc_ok hash W c L K G B i it c' L' \<longleftrightarrow> W \<subseteq> L' \<and> L' \<subseteq> L \<and> mc_inv hash c' L' K (if it = NULL then G else G(it := 1)) B \<and>
     calm (held L' G) c c' \<and> (it \<noteq> NULL \<longrightarrow> fresh_item L' G i it c')"

lemma alloc_ok_trans:
  assumes "calm (held L1 G) c c1" "L1 \<subseteq> L" "alloc_ok hash W c1 L1 K G B i it c' L'"
  shows "alloc_ok hash W c L K G B i it c' L'"
proof -
  have l: "L' \<subseteq> L1" and c: "calm (held L' G) c1 c'" using assms(3) by (auto simp: alloc_ok_def)
  have "calm (held L' G) c c'" by (rule calm_trans [OF assms(1) c held_mono [OF l]]) simp
  then show ?thesis using assms(2,3) by (auto simp: alloc_ok_def)
qed

lemma alloc_ok_mono: "alloc_ok hash W c L K G A i it c' L' \<Longrightarrow> A \<subseteq> B \<Longrightarrow> K \<inter> B = {} \<Longrightarrow> alloc_ok hash W c L K G B i it c' L'"
  unfolding alloc_ok_def using mc_inv_mono by blast

lemma geometryD:
  assumes "geometry s s'" "i \<in> {1..power_largest s}" "sz \<le> sc_size (cls s i)"
  shows "i \<in> {1..power_largest s'}" "sz \<le> sc_size (cls s' i)"
  using assms by (simp_all add: geometry_def)

text \<open>The turns before the last one leave a state from which the loop goes on.\<close>

lemma do_item_alloc_pull_loop_inv:
  assumes "mc_inv hash c L K G A" "\<And>p. p \<in> L \<Longrightarrow> refs_of L G p + 1 < 2 ^ 16" "tail_repair_time (cfg c) = 0"
    "env_fresh (cfg c) env turn (A \<union> K)" "unat i \<in> {1..power_largest (sl c)}" "ntotal \<le> sc_size (cls (sl c) (unat i))"
    "locked hash P c L W" "\<And>t j n h. h \<in> P \<Longrightarrow> \<not> pe_lock (env t) j n h"
  shows "\<exists>it turn' c' L'. do_item_alloc_pull_loop hash env k ntotal i turn c = Some (it, turn', c') \<and>
     alloc_ok hash W c L K G (A \<union> obtained (cfg c) env turn k) (unat i) it c' L'"
  using assms
proof (induction k arbitrary: turn c L A)
  case 0
  then show ?case by (auto simp: alloc_ok_def obtained_def locked_def)
next
  case (Suc k)
  note inv = Suc.prems(1) and fr = Suc.prems(4)
  let ?e = "env turn" and ?M = "turn_region (cfg c) env turn"
  let ?B = "A \<union> obtained (cfg c) env turn (Suc k)"
  have KA: "K \<inter> A = {}" using mc_repD(6) [OF inv [unfolded mc_inv_rep]] .
  have KB: "K \<inter> ?B = {}" using KA env_fresh_obtained [OF fr, of "Suc k"] by blast
  have refs: "refs_of L' G p + 1 < 2 ^ 16" if "L' \<subseteq> L" "p \<in> L'" for L' p
    using Suc.prems(2) [of p] refs_mono [OF that(1), of G p] that by (meson add_le_mono1 le_less_trans subsetD)
  have pull: "\<exists>n c' L''. lru_pull_tail hash (pe_lock ?e j) rl i seg 0 flags 0 c0 = Some (n, None, c') \<and>
      W \<subseteq> L'' \<and> L'' \<subseteq> L' \<and> mc_inv hash c' L'' K G A' \<and> calm (held L'' G) c0 c'"
    if "mc_inv hash c0 L' K G A'" "L' \<subseteq> L" "tail_repair_time (cfg c0) = 0" "locked hash P c0 L' W" "flags AND LRU_PULL_RETURN_ITEM = 0"
    for c0 L' A' flags j rl seg
    by (rule lru_pull_tail_inv [OF that(1) _ that(3,5,4)]) (rule refs [OF that(2)], assumption, erule Suc.prems(8))
  text \<open>The pull before the allocation, if the LRU is not segmented.\<close>
  obtain c1 L1 where p1: "(if \<not> lru_segmented (cfg c)
        then map_option (\<lambda>(_, _, c'). c') (lru_pull_tail hash (pe_lock ?e 0) (pe_reassign ?e 0) i COLD_LRU 0 0 0 c)
        else Some c) = Some c1"
      "L1 \<subseteq> L" "mc_inv hash c1 L1 K G A" "calm (held L1 G) c c1" "W \<subseteq> L1"
  proof (cases "lru_segmented (cfg c)")
    case False
    obtain n c1 L1 where "lru_pull_tail hash (pe_lock ?e 0) (pe_reassign ?e 0) i COLD_LRU 0 0 0 c = Some (n, None, c1)"
        "L1 \<subseteq> L" "mc_inv hash c1 L1 K G A" "calm (held L1 G) c c1" "W \<subseteq> L1"
      using pull [OF inv order_refl Suc.prems(3,7), of 0 0] by fastforce
    then show ?thesis using that [of c1 L1] False by simp
  qed (use that [of c L] inv Suc.prems(7) in \<open>simp add: locked_def\<close>)
  note k1 = calmD [OF p1(4)]
  note g1 = geometryD [OF k1(3) Suc.prems(5,6)]
  have "malloc_region (cfg c1) (pe_alloc ?e) \<inter> (A \<union> K) = {}"
    using env_freshD(1) [OF fr order_refl] k1(1) by (simp add: turn_region_def)
  from slabs_alloc_inv [OF p1(3) this g1] obtain it m2 s2 where
    a0: "do_slabs_alloc (cfg c1) (pe_alloc ?e) ntotal (unat i) 0 (mem c1) (sl c1) = Some (it, m2, s2)" and
    a1: "mc_inv hash (c1\<lparr>mem := m2, sl := s2\<rparr>) L1 K (if it = NULL then G else G(it := 1)) (A \<union> malloc_region (cfg c1) (pe_alloc ?e))"
      "kept (held L1 G) c1 (c1\<lparr>mem := m2, sl := s2\<rparr>)"
      "it \<noteq> NULL \<longrightarrow> fresh_item L1 G (unat i) it (c1\<lparr>mem := m2, sl := s2\<rparr>)" by blast
  define c2 where "c2 = c1\<lparr>mem := m2, sl := s2\<rparr>"
  have a: "mc_inv hash c2 L1 K (if it = NULL then G else G(it := 1)) (A \<union> ?M)" "calm (held L1 G) c1 c2"
      "it \<noteq> NULL \<longrightarrow> fresh_item L1 G (unat i) it c2"
    using a1 kept_calm [OF a1(2)] k1(1) by (simp_all add: c2_def turn_region_def)
  have k2: "calm (held L1 G) c c2" by (rule calm_trans [OF p1(4) a(2)]) simp_all
  show ?case
  proof (cases "it = NULL")
    case False
    have "alloc_ok hash W c L K G (A \<union> ?M) (unat i) it c2 L1" using a k2 p1(2,5) False by (simp add: alloc_ok_def)
    then have "alloc_ok hash W c L K G ?B (unat i) it c2 L1" by (rule alloc_ok_mono) (use KB in \<open>auto simp: obtained_Suc\<close>)
    then show ?thesis using False p1(1) a0 by (simp add: c2_def Let_def) blast
  next
    case True
    have Beq: "(A \<union> ?M) \<union> obtained (cfg c) env (turn + 1) k = ?B" by (simp add: obtained_Suc Un_assoc)
    have go: "\<exists>it turn' c'' L''. do_item_alloc_pull_loop hash env k ntotal i (turn + 1) c' = Some (it, turn', c'') \<and>
        alloc_ok hash W c L K G ?B (unat i) it c'' L''"
      if inv': "mc_inv hash c' L' K G (A \<union> ?M)" and l: "L' \<subseteq> L" and k: "calm (held L' G) c c'" and W: "W \<subseteq> L'" for c' L'
    proof -
      have "env_fresh (cfg c') env (turn + 1) ((A \<union> ?M) \<union> K)"
        using env_fresh_Suc [OF fr] calmD(1) [OF k] by (simp add: Un_ac)
      moreover have "tail_repair_time (cfg c') = 0" using Suc.prems(3) calmD(1) [OF k] by simp
      ultimately obtain it turn' c'' L'' where
        "do_item_alloc_pull_loop hash env k ntotal i (turn + 1) c' = Some (it, turn', c'')"
        "alloc_ok hash W c' L' K G ((A \<union> ?M) \<union> obtained (cfg c') env (turn + 1) k) (unat i) it c'' L''"
        using Suc.IH [OF inv' refs [OF l] _ _ geometryD [OF calmD(3) [OF k] Suc.prems(5,6)] locked_calm [OF Suc.prems(7) inv inv' k W]]
          Suc.prems(8) by blast
      then show ?thesis using alloc_ok_trans [OF k l] Beq calmD(1) [OF k] by metis
    qed
    have inv2: "mc_inv hash c2 L1 K G (A \<union> ?M)" using a(1) True by simp
    have tr2: "tail_repair_time (cfg c2) = 0" using Suc.prems(3) calmD(1) [OF k2] by simp
    have w2: "locked hash P c2 L1 W" by (rule locked_calm [OF Suc.prems(7) inv inv2 k2 p1(5)])
    obtain n c3 L3 where p3: "lru_pull_tail hash (pe_lock ?e 1) (pe_reassign ?e 1) i COLD_LRU 0 LRU_PULL_EVICT 0 c2 = Some (n, None, c3)"
        "L3 \<subseteq> L1" "mc_inv hash c3 L3 K G (A \<union> ?M)" "calm (held L3 G) c2 c3" "W \<subseteq> L3"
      using pull [OF inv2 p1(2) tr2 w2, of LRU_PULL_EVICT 1 "pe_reassign ?e 1" COLD_LRU] by auto
    have k3: "calm (held L3 G) c c3" by (rule calm_trans [OF k2 p3(4) held_mono [OF p3(2)]]) simp
    have l3: "L3 \<subseteq> L" using p3(2) p1(2) by blast
    have tr3: "tail_repair_time (cfg c3) = 0" using Suc.prems(3) calmD(1) [OF k3] by simp
    obtain n4 c4 L4 where p4: "lru_pull_tail hash (pe_lock ?e 2) (pe_reassign ?e 2) i HOT_LRU 0 0 0 c3 = Some (n4, None, c4)"
        "L4 \<subseteq> L3" "mc_inv hash c4 L4 K G (A \<union> ?M)" "calm (held L4 G) c3 c4" "W \<subseteq> L4"
      using pull [OF p3(3) l3 tr3 locked_calm [OF Suc.prems(7) inv p3(3) k3 p3(5)], of 0 2 "pe_reassign ?e 2" HOT_LRU] by auto
    have k4: "calm (held L4 G) c c4" by (rule calm_trans [OF k3 p4(4) held_mono [OF p4(2)]]) simp
    have l4: "L4 \<subseteq> L" using p4(2) l3 by blast
    have stop: "alloc_ok hash W c L K G ?B (unat i) NULL c3 L3"
    proof (rule alloc_ok_mono)
      show "alloc_ok hash W c L K G (A \<union> ?M) (unat i) NULL c3 L3" using p3(3,5) l3 k3 by (simp add: alloc_ok_def)
    qed (use KB in \<open>auto simp: obtained_Suc\<close>)
    have run: "do_item_alloc_pull_loop hash env (Suc k) ntotal i turn c =
        (if n > 0 then do_item_alloc_pull_loop hash env k ntotal i (turn + 1) c3
         else if lru_segmented (cfg c3) then do_item_alloc_pull_loop hash env k ntotal i (turn + 1) c4
         else Some (NULL, turn, c3))"
      using True p1(1) a0 p3(1) p4(1) by (simp add: c2_def Let_def)
    show ?thesis unfolding run using go [OF p3(3) l3 k3 p3(5)] go [OF p4(3) l4 k4 p4(5)] stop by (auto split: if_splits)
  qed
qed

lemma do_item_alloc_pull_inv:
  assumes "mc_inv hash c L K G A" "\<And>p. p \<in> L \<Longrightarrow> refs_of L G p + 1 < 2 ^ 16" "tail_repair_time (cfg c) = 0"
    "env_fresh (cfg c) env 0 (A \<union> K)" "unat i \<in> {1..power_largest (sl c)}" "ntotal \<le> sc_size (cls (sl c) (unat i))"
    "locked hash P c L W" "\<And>t j n h. h \<in> P \<Longrightarrow> \<not> pe_lock (env t) j n h"
  shows "\<exists>it c' L'. do_item_alloc_pull hash env ntotal i c = Some (it, c') \<and>
     alloc_ok hash W c L K G (A \<union> obtained (cfg c) env 0 10) (unat i) it c' L'"
proof -
  obtain it turns c' L' where r: "do_item_alloc_pull_loop hash env 10 ntotal i 0 c = Some (it, turns, c')"
      "alloc_ok hash W c L K G (A \<union> obtained (cfg c) env 0 10) (unat i) it c' L'"
    using do_item_alloc_pull_loop_inv [OF assms(1-7), of 10] assms(8) by blast
  have "alloc_ok hash W c L K G (A \<union> obtained (cfg c) env 0 10) (unat i) it (upd_stats j f c') L'" for j f
    using r(2) by (simp add: alloc_ok_def calm_def fresh_item_def) (simp add: upd_stats_def)
  then show ?thesis using r by (auto simp: do_item_alloc_pull_def)
qed

section \<open>The new item\<close>

text \<open>An item that only its owner knows: the invariant reads little of it.\<close>

lemma mc_rep_write_private:
  assumes rep: "mc_rep hash c Lq K Lh L R A" and p: "0 < R p" "p \<notin> Lq" "p \<notin> Lh" "p \<notin> L"
    and f: "refcount (f (mem c p)) = refcount (mem c p)" "ITEM_clsid (f (mem c p)) = ITEM_clsid (mem c p)"
      "\<not> has_flag ITEM_CHUNKED (f (mem c p))" "\<not> has_flag ITEM_SLABBED (f (mem c p))" "\<not> has_flag ITEM_LINKED (f (mem c p))"
  shows "mc_rep hash (upd_item p f c) Lq K Lh L R A"
proof -
  let ?c = "upd_item p f c"
  have m: "mem ?c q = (if q = p then f (mem c p) else mem c q)" for q by (simp add: upd_item_def hupd_apply)
  have pK: "p \<notin> K" using mc_rep_item(3) [OF rep p(1)] .
  have lv: "live (mem ?c) R = live (mem c) R" unfolding live_def by (intro image_cong) (auto simp: m f)
  obtain Q where Q: "lru_ok c Lq K Q" using mc_repD(1) [OF rep] by blast
  have "lru_ok ?c Lq K Q"
  proof (rule lru_ok_frame [OF Q])
    show "is_crawler (mem ?c q)" if "q \<in> K" for q using lru_okD(6) [OF Q that] that pK by (auto simp: m)
  qed (use p(2) pK in \<open>auto simp: m\<close>, simp_all add: upd_item_def)
  moreover have "assoc_rep hash (mem ?c) (ht ?c) Lh"
    unfolding upd_item_fields by (rule assoc_rep_frame [OF mc_repD(2) [OF rep]]) (use p(3) in \<open>auto simp: m\<close>)
  moreover have "slab_inv (cfg ?c) (mem ?c) (sl ?c) (live (mem ?c) R) A"
  proof -
    have "slab_inv (cfg c) (mem ?c) (sl c) (live (mem c) R) A"
      by (rule slab_inv_write [OF mc_repD(3) [OF rep]]) (use p in \<open>auto simp: m\<close>)
    then show ?thesis unfolding lv by simp
  qed
  moreover have "refs_ok (mem ?c) L R" using mc_repD(4) [OF rep] f p(4) unfolding refs_ok_def by (simp add: m)
  moreover have "counted ?c L"
  proof -
    have "mem ?c q = mem c q" if "q \<in> L" for q using that p(4) by (auto simp: m)
    then show ?thesis using mc_repD(5) [OF rep] unfolding counted_def by (simp add: upd_item_def)
  qed
  ultimately show ?thesis using mc_repD(6-9) [OF rep] unfolding mc_rep_def by blast
qed

lemma clsid_or: "mv AND NOT 192 = 0 \<Longrightarrow> slabs_clsid x = a \<Longrightarrow> slabs_clsid y = a OR mv \<Longrightarrow> ITEM_clsid y = ITEM_clsid x"
  unfolding ITEM_clsid_def by (simp add: bit.conj_disj_distrib2)

text \<open>The largest class takes every chunk, so a class chosen for a size takes the size.\<close>

lemma class_fits:
  assumes p: "1 \<le> power_largest s" and big: "slab_chunk_size_max st \<le> sc_size (cls s (power_largest s))"
    and sz: "sz \<le> slab_chunk_size_max st" and i: "slabs_clsid_for st s sz \<noteq> 0"
  shows "slabs_clsid_for st s sz \<in> {1..power_largest s}" "sz \<le> sc_size (cls s (slabs_clsid_for st s sz))"
proof -
  have e: "slabs_clsid_for st s sz = slabs_clsid_loop s sz 1" using i by (simp add: slabs_clsid_for_def split: if_splits)
  note f = slabs_clsid_loop_first_fit [of 1 s sz]
  show "slabs_clsid_for st s sz \<in> {1..power_largest s}" unfolding e using f p by simp
  show "sz \<le> sc_size (cls s (slabs_clsid_for st s sz))" unfolding e using f p big sz by auto
qed

lemma item_setup_fields [simp]:
  "refcount (item_setup st key nk fl exp nb i x) = refcount x" "slabs_clsid (item_setup st key nk fl exp nb i x) = i"
  "nkey (item_setup st key nk fl exp nb i x) = of_nat nk" "data_key (item_setup st key nk fl exp nb i x) = take nk key"
  "nbytes (item_setup st key nk fl exp nb i x) = nb" "exptime (item_setup st key nk fl exp nb i x) = exp"
  by (simp_all add: item_setup_def)

lemma item_setup_flags:
  assumes "it_flags x = 0"
  shows "\<not> has_flag ITEM_CHUNKED (item_setup st key nk fl exp nb i x)" "\<not> has_flag ITEM_SLABBED (item_setup st key nk fl exp nb i x)"
    "\<not> has_flag ITEM_LINKED (item_setup st key nk fl exp nb i x)"
    "has_flag ITEM_CFLAGS (item_setup st key nk fl exp nb i x) = (fl \<noteq> 0)"
  using assms by (simp_all add: item_setup_def has_flag_def)

text \<open>What the caller of \<open>do_item_alloc\<close> asked for.\<close>

definition new_item :: "settings \<Rightarrow> byte list \<Rightarrow> u32 \<Rightarrow> u32 \<Rightarrow> int \<Rightarrow> item \<Rightarrow> bool" where
  "new_item st key fl exp nb x \<longleftrightarrow> ITEM_key x = key \<and> key_ok x \<and> nbytes x = nb \<and> exptime x = exp \<and>
     it_flags x = (if use_cas st then ITEM_CAS else 0) OR (if fl \<noteq> 0 then ITEM_CFLAGS else 0) \<and>
     (if has_flag ITEM_CFLAGS x then data_suffix x else 0) = fl"

lemma new_item_setup:
  "it_flags x = 0 \<Longrightarrow> length key = nk \<Longrightarrow> nk < 256 \<Longrightarrow> new_item st key fl exp nb (item_setup st key nk fl exp nb i x)"
  unfolding new_item_def item_setup_flags(4) by (auto simp: ITEM_key_def key_ok_def unat_of_nat item_setup_def)

lemma do_item_alloc_inv:
  assumes inv: "mc_inv hash c L K G A" and r: "\<And>p. p \<in> L \<Longrightarrow> refs_of L G p + 1 < 2 ^ 16" and tr: "tail_repair_time (cfg c) = 0"
    and fr: "env_fresh (cfg c) env 0 (A \<union> K)" and big: "slab_chunk_size_max (cfg c) \<le> sc_size (cls (sl c) (power_largest (sl c)))"
    and nk: "length key = nk" "nk < 256" and small: "item_total_size (cfg c) nk fl nb \<le> slab_chunk_size_max (cfg c)"
    and lw: "locked hash P c L W" "\<And>t j n h. h \<in> P \<Longrightarrow> \<not> pe_lock (env t) j n h"
  shows "\<exists>it c' L'. do_item_alloc hash env key nk fl exp nb c = Some (it, c') \<and> W \<subseteq> L' \<and> L' \<subseteq> L \<and> calm (held L' G) c c' \<and>
     mc_inv hash c' L' K (if it = NULL then G else G(it := 1)) (A \<union> obtained (cfg c) env 0 10) \<and>
     (it \<noteq> NULL \<longrightarrow> it \<notin> held L' G \<and> 2 \<le> nb \<and> new_item (cfg c) key fl exp nb (mem c' it))"
proof -
  let ?n = "item_total_size (cfg c) nk fl nb" and ?B = "A \<union> obtained (cfg c) env 0 10"
  define i where "i = slabs_clsid_for (cfg c) (sl c) (item_total_size (cfg c) nk fl nb)"
  note cls = slab_inv_classes [OF mc_repD(3) [OF inv [unfolded mc_inv_rep]]]
  have KB: "K \<inter> ?B = {}" using mc_repD(6) [OF inv [unfolded mc_inv_rep]] env_fresh_obtained [OF fr, of 10] by blast
  have triv: "mc_inv hash c L K G ?B" by (rule mc_inv_mono [OF inv]) (use KB in auto)
  show ?thesis
  proof (cases "nb < 2 \<or> i = 0")
    case True
    then show ?thesis using triv lw(1)
      by (intro exI [of _ NULL] exI [of _ c] exI [of _ L]) (auto simp: do_item_alloc_def i_def Let_def locked_def)
  next
    case False
    then have i0: "slabs_clsid_for (cfg c) (sl c) ?n \<noteq> 0" by (simp add: i_def)
    note fit = class_fits [OF cls(1) big small i0, folded i_def]
    have iu: "unat (of_nat i :: u8) = i" using fit(1) cls(2) by (simp add: unat_of_nat)
    have "unat (of_nat i :: u8) \<in> {1..power_largest (sl c)}" "?n \<le> sc_size (cls (sl c) (unat (of_nat i :: u8)))"
      using fit unfolding iu by simp_all
    then obtain it c1 L' where
      a: "do_item_alloc_pull hash env ?n (of_nat i) c = Some (it, c1)" "alloc_ok hash W c L K G ?B i it c1 L'"
      using do_item_alloc_pull_inv [OF inv r tr fr _ _ lw(1), of "of_nat i" ?n] lw(2) unfolding iu by blast
    have W: "W \<subseteq> L'" using a(2) by (simp add: alloc_ok_def)
    have L': "L' \<subseteq> L" "calm (held L' G) c c1" using a(2) by (simp_all add: alloc_ok_def)
    show ?thesis
    proof (cases "it = NULL")
      case True
      let ?c = "upd_stats (of_nat i) (\<lambda>s. s\<lparr>outofmemory := outofmemory s + 1\<rparr>) c1"
      have "do_item_alloc hash env key nk fl exp nb c = Some (NULL, ?c)"
        using False a(1) True small by (simp add: do_item_alloc_def i_def [symmetric] Let_def)
      moreover have "calm (held L' G) c ?c" using L'(2) by (simp add: calm_def upd_stats_def)
      moreover have "mc_inv hash ?c L' K G ?B" using a(2) True by (simp add: alloc_ok_def)
      ultimately show ?thesis using L'(1) W by (intro exI [of _ NULL] exI [of _ ?c] exI [of _ L']) simp
    next
      case it: False
      let ?seg = "lru_segment_for (cfg c1) (current_time c1) exp"
      let ?f = "item_setup (cfg c1) key nk fl exp nb (of_nat i OR ?seg)"
      let ?c = "upd_item it ?f c1"
      have fi: "it \<notin> held L' G" "it_flags (mem c1 it) = 0" "slabs_clsid (mem c1 it) = of_nat i"
        and inv1: "mc_inv hash c1 L' K (G(it := 1)) ?B"
        using a(2) it by (simp_all add: alloc_ok_def fresh_item_def)
      note fl = item_setup_flags [OF fi(2)]
      have "do_item_alloc hash env key nk fl exp nb c = Some (it, ?c)"
        using False a(1) it small fi(2) fl(1) by (simp add: do_item_alloc_def i_def [symmetric] Let_def)
      moreover have "mc_inv hash ?c L' K (G(it := 1)) ?B"
        unfolding mc_inv_rep
      proof (rule mc_rep_write_private [OF inv1 [unfolded mc_inv_rep]])
        show "ITEM_clsid (?f (mem c1 it)) = ITEM_clsid (mem c1 it)"
          by (rule clsid_or [OF _ fi(3), of ?seg]) (auto simp: lru_segment_for_def)
      qed (use fi(1) fl in \<open>auto simp: refs_of_def held_def\<close>)
      moreover have "calm (held L' G) c1 ?c" by (rule kept_calm [OF kept_upd_item [OF fi(1)]])
      then have "calm (held L' G) c ?c" by (rule calm_trans [OF L'(2)]) simp_all
      moreover have "new_item (cfg c) key fl exp nb (mem ?c it)" using new_item_setup [OF fi(2) nk] calmD(1) [OF L'(2)] by simp
      ultimately show ?thesis using L'(1) W fi(1) False it by (intro exI [of _ it] exI [of _ ?c] exI [of _ L']) simp
    qed
  qed
qed

end
