(* ===== verification/Item_Crawl.thy ===== *)
theory Item_Crawl
  imports Item_Alloc "HOL-Library.Multiset"
begin

text \<open>
  The crawler's items in the LRU queues: linking one at a tail, moving it one place towards the head,
  taking it out. A crawler item lies outside the memory of the slab allocator.
\<close>

section \<open>Reordering a queue\<close>

lemma lru_ok_union: "lru_ok c L K Q \<Longrightarrow> (\<Union>j. set (Q j)) = L \<union> K"
  by (simp add: lru_ok_def)

lemma lru_ok_requeue:
  assumes ok: "lru_ok c L K Q" and fr: "lru_frame S c c'"
    and sz: "lru_sizes c' = lru_sizes c" "sizes_bytes c' = sizes_bytes c"
    and q: "\<And>j. item_queue (mem c') (heads c' j) (tails c' j) (Q' j)"
    and ms: "\<And>j. mset (filter (\<lambda>p. p \<in> L) (Q' j)) = mset (filter (\<lambda>p. p \<in> L) (Q j))"
    and cl: "\<And>j p. p \<in> set (Q' j) \<Longrightarrow> slabs_clsid (mem c p) = j"
    and un: "(\<Union>j. set (Q' j)) = L \<union> K'" and K': "L \<inter> K' = {}" "\<And>k. k \<in> K' \<Longrightarrow> is_crawler (mem c k)"
  shows "lru_ok c' L K' Q'"
proof -
  note cf = core_fields [OF lru_frameD(1) [OF fr]]
  have len: "length (filter (\<lambda>p. p \<in> L) (Q' j)) = length (filter (\<lambda>p. p \<in> L) (Q j))" for j
    using arg_cong [OF ms [of j], of size] by (simp only: size_mset)
  have "image_mset f (mset (filter (\<lambda>p. p \<in> L) (Q' j))) = image_mset f (mset (filter (\<lambda>p. p \<in> L) (Q j)))" for f :: "ptr \<Rightarrow> u64" and j
    using ms by simp
  then have sum: "sum_list (map f (filter (\<lambda>p. p \<in> L) (Q' j))) = sum_list (map f (filter (\<lambda>p. p \<in> L) (Q j)))" for f :: "ptr \<Rightarrow> u64" and j
    by (metis mset_map sum_mset_sum_list)
  show ?thesis
    unfolding lru_ok_def
    using q cl un K' lru_okD(7,8) [OF ok] by (simp add: cf sz len sum)
qed

lemma mc_inv_requeue:
  assumes inv: "mc_inv hash c L K G A" and ok: "lru_ok c L K Q" and fr: "lru_frame S c c'" and S: "S \<inter> A \<subseteq> held L G"
    and q: "lru_ok c' L K' Q'" and K': "K' \<inter> A = {}"
  shows "mc_inv hash c' L K' G A \<and> kept UNIV c c'"
proof -
  note rep = inv [unfolded mc_inv_rep]
  have "L \<subseteq> {p. 0 < refs_of L G p}" by (auto simp: refs_of_def)
  note r = mc_rep_requeue [OF rep fr S [folded held_refs] q this K']
  show ?thesis unfolding mc_inv_rep using r(1) r(2) [of UNIV] by blast
qed

lemma queued_held: "mc_inv hash c L K G A \<Longrightarrow> (L \<union> K) \<inter> A \<subseteq> held L G"
  using mc_repD(6) [of hash c L K L L "refs_of L G" A] unfolding mc_inv_rep by (auto simp: held_def)

section \<open>A crawler item outside the queues\<close>

lemma mc_inv_write_foreign:
  assumes inv: "mc_inv hash c L K G A" and k: "k \<notin> A" "k \<notin> K"
  shows "mc_inv hash (upd_item k f c) L K G A" and "kept (- {k}) c (upd_item k f c)"
proof -
  note rep = inv [unfolded mc_inv_rep]
  let ?c = "upd_item k f c"
  have m: "mem ?c q = (if q = k then f (mem c k) else mem c q)" for q by (simp add: upd_item_def hupd_apply)
  have kr: "refs_of L G k = 0" using mc_rep_item(2) [OF rep, of k] k(1) by auto
  then have kL: "k \<notin> L" by (auto simp: refs_of_def)
  obtain Q where Q: "lru_ok c L K Q" using mc_repD(1) [OF rep] by blast
  have "lru_ok ?c L K Q"
  proof (rule lru_ok_frame [OF Q])
    show "is_crawler (mem ?c q)" if "q \<in> K" for q using lru_okD(6) [OF Q that] that k(2) by (auto simp: m)
  qed (use kL k(2) in \<open>auto simp: m\<close>, simp_all add: upd_item_def)
  moreover have "assoc_rep hash (mem ?c) (ht ?c) L"
    unfolding upd_item_fields by (rule assoc_rep_frame [OF mc_repD(2) [OF rep]]) (use kL in \<open>auto simp: m\<close>)
  moreover have lv: "live (mem ?c) (refs_of L G) = live (mem c) (refs_of L G)"
    by (rule live_core) (use kr in \<open>auto simp: m\<close>)
  have "slab_inv (cfg c) (mem ?c) (sl c) (live (mem c) (refs_of L G)) A"
    by (rule slab_inv_write [OF mc_repD(3) [OF rep]]) (use k(1) in \<open>auto simp: m\<close>)
  then have "slab_inv (cfg ?c) (mem ?c) (sl ?c) (live (mem ?c) (refs_of L G)) A" unfolding lv by simp
  moreover have "refs_ok (mem ?c) L (refs_of L G)" using mc_repD(4) [OF rep] kr unfolding refs_ok_def by (auto simp: m)
  moreover have "counted ?c L"
  proof -
    have "mem ?c q = mem c q" if "q \<in> L" for q using that kL by (auto simp: m)
    then show ?thesis using mc_repD(5) [OF rep] unfolding counted_def by (simp add: upd_item_def)
  qed
  ultimately show "mc_inv hash ?c L K G A"
    using mc_repD(6,7) [OF rep] unfolding mc_inv_rep mc_rep_def by blast
  show "kept (- {k}) c ?c" by (rule kept_upd_item) simp
qed

section \<open>Linking at the tail\<close>

lemma do_item_linktail_q_ok:
  assumes ok: "lru_ok c L K Q" and k: "k \<noteq> NULL" "k \<notin> L \<union> K" "is_crawler (mem c k)"
  defines "i \<equiv> slabs_clsid (mem c k)"
  shows "\<exists>c'. do_item_linktail_q k c = Some c' \<and> lru_ok c' L (insert k K) (Q(i := Q i @ [k])) \<and> lru_frame (insert k (L \<union> K)) c c'"
proof -
  let ?h = "heads c i" and ?t = "tails c i"
  define m1 where "m1 = hupd k (\<lambda>x. x\<lparr>it_prev := ?t, it_next := NULL\<rparr>) (mem c)"
  define m2 where "m2 = (if ?t \<noteq> NULL then hupd ?t (it_next_update (\<lambda>_. k)) m1 else m1)"
  define c' where "c' = c\<lparr>mem := m2, tails := (tails c)(i := k), heads := (heads c)(i := (if ?h = NULL then k else ?h))\<rparr>"
  note q = lru_okD(1) [OF ok, of i]
  have tin: "?t \<in> L \<union> K" "?t \<in> set (Q i)" if "?t \<noteq> NULL"
    using item_queue_tail_in [OF q that] lru_okD(3) [OF ok] by blast+
  have tk: "?t \<noteq> k" using tin k(1,2) by auto
  have kQ: "k \<notin> set (Q j)" for j using lru_okD(3) [OF ok] k(2) by blast
  have tn: "it_next (mem c ?t) = NULL" if "?t \<noteq> NULL"
  proof -
    have "Q i \<noteq> []" using item_queue_tail [OF q] that by auto
    then obtain ys where "Q i = ys @ ?t # []" using item_queue_tail [OF q] by (metis append_butlast_last_id)
    then show ?thesis using item_queue_neighbours(1) [of "mem c" ?h ?t ys ?t "[]"] q by simp
  qed
  have run: "do_item_linktail_q k c = Some c'"
    using k(3) tk tn head_tail_null [OF q] unfolding is_crawler_def
    unfolding do_item_linktail_q_def Let_def i_def [symmetric] m1_def [symmetric] m2_def [symmetric] c'_def by auto
  have outside: "m2 r = mem c r" if "r \<noteq> k" "r \<noteq> ?t" for r using that by (simp add: m2_def m1_def hupd_apply)
  have fr: "lru_frame (insert k (L \<union> K)) c c'"
    unfolding lru_frame_def using outside tin k(1) by (auto simp: c'_def m2_def m1_def hupd_apply)
  have qi: "item_queue m2 (if ?h = NULL then k else ?h) k (Q i @ [k])"
    by (rule item_queue_append [OF q k(1) kQ]) (use tk kQ [of i] in \<open>auto simp: m2_def m1_def hupd_apply\<close>)
  have qj: "item_queue m2 (heads c j) (tails c j) (Q j)" if "j \<noteq> i" for j
  proof (rule item_queue_frame [OF lru_okD(1) [OF ok]])
    fix r assume r: "r \<in> set (Q j)"
    have "r \<noteq> ?t"
    proof
      assume rt: "r = ?t"
      have "r \<noteq> NULL" using item_queue_nonnull [OF lru_okD(1) [OF ok, of j]] r by metis
      then have "r \<in> set (Q i)" using tin(2) rt by simp
      then show False using lru_okD(2) [OF ok] r that by metis
    qed
    moreover have "r \<noteq> k" using kQ r by auto
    ultimately show "it_next (m2 r) = it_next (mem c r) \<and> it_prev (m2 r) = it_prev (mem c r)" using outside by simp
  qed
  have "(\<Union>j. set ((Q(i := Q i @ [k])) j)) = (\<Union>j. set ((Q(i := k # Q i)) j))" by (intro SUP_cong refl) auto
  then have un: "(\<Union>j. set ((Q(i := Q i @ [k])) j)) = L \<union> insert k K"
    unfolding UN_push using lru_ok_union [OF ok] by simp
  have "lru_ok c' L (insert k K) (Q(i := Q i @ [k]))"
  proof (rule lru_ok_requeue [OF ok fr _ _ _ _ _ un])
    show "item_queue (mem c') (heads c' j) (tails c' j) ((Q(i := Q i @ [k])) j)" for j
      using qi qj [of j] by (cases "j = i") (simp_all add: c'_def)
    show "slabs_clsid (mem c p) = j" if "p \<in> set ((Q(i := Q i @ [k])) j)" for j p
      using that lru_okD(2) [OF ok] by (auto simp: i_def split: if_splits)
  qed (use k lru_okD(5,6) [OF ok] in \<open>auto simp: c'_def\<close>)
  then show ?thesis using run fr by blast
qed

section \<open>Unlinking and moving\<close>

lemma filter_not_in: "k \<notin> L \<Longrightarrow> filter (\<lambda>p. p \<in> L) (ys @ k # zs) = filter (\<lambda>p. p \<in> L) (ys @ zs)"
  by simp

lemma crawler_only:
  assumes "lru_ok c L K Q" "k \<in> K" "Q (slabs_clsid (mem c k)) = ys @ k # zs"
  shows "(\<Union>j. set ((Q(slabs_clsid (mem c k) := ys @ zs)) j)) = L \<union> (K - {k})" "k \<notin> L"
proof -
  let ?i = "slabs_clsid (mem c k)"
  show kL: "k \<notin> L" using lru_okD(5) [OF assms(1)] assms(2) by blast
  have d: "distinct (Q ?i)" using item_queue_distinct [OF lru_okD(1) [OF assms(1)]] .
  have only: "j = ?i" if "k \<in> set (Q j)" for j using lru_okD(2) [OF assms(1) that] by simp
  have "(\<Union>j. set ((Q(?i := ys @ zs)) j)) = (L \<union> K) - {k}"
    using UN_remove [of k Q ?i ys zs, OF only assms(3) d] unfolding lru_ok_union [OF assms(1)] .
  then show "(\<Union>j. set ((Q(?i := ys @ zs)) j)) = L \<union> (K - {k})" using kL by blast
qed

lemma do_item_unlinktail_q_ok:
  assumes ok: "lru_ok c L K Q" and k: "k \<in> K"
  defines "i \<equiv> slabs_clsid (mem c k)"
  shows "\<exists>c' Q'. do_item_unlinktail_q k c = Some c' \<and> lru_ok c' L (K - {k}) Q' \<and> lru_frame (L \<union> K) c c'"
proof -
  obtain c1 ys zs where u: "unlink_pointers k c = Some c1" "Q i = ys @ k # zs"
      "\<And>j. item_queue (mem c1) (heads c1 j) (tails c1 j) ((Q(i := ys @ zs)) j)"
      "c1 = c\<lparr>mem := mem c1, heads := heads c1, tails := tails c1\<rparr>" "lru_frame (L \<union> K) c c1"
    using unlink_pointers_ok [OF ok, of k] k unfolding i_def by blast
  have sz: "lru_sizes c1 = lru_sizes c" "sizes_bytes c1 = sizes_bytes c"
    using arg_cong [OF u(4), of lru_sizes] arg_cong [OF u(4), of sizes_bytes] by simp_all
  note un = crawler_only [OF ok k u(2) [unfolded i_def], folded i_def]
  have "lru_ok c1 L (K - {k}) (Q(i := ys @ zs))"
  proof (rule lru_ok_requeue [OF ok u(5) sz u(3) _ _ un(1)])
    show "slabs_clsid (mem c p) = j" if "p \<in> set ((Q(i := ys @ zs)) j)" for j p
      using that lru_okD(2) [OF ok, of p j] u(2) by (auto split: if_splits)
  qed (use un(2) u(2) lru_okD(5,6) [OF ok] in auto)
  then show ?thesis using u(1,5) by (auto simp: do_item_unlinktail_q_def)
qed

text \<open>The pointers of the swap with the item in front.\<close>

lemma crawl_swap:
  assumes q: "item_queue m h t (ys @ b # k # zs)"
  defines "n \<equiv> it_next (m k)"
  defines "m1 \<equiv> (if n \<noteq> NULL then hupd n (it_prev_update (\<lambda>_. b)) (hupd b (it_next_update (\<lambda>_. n)) m)
                 else hupd b (it_next_update (\<lambda>_. NULL)) m)"
  defines "bb \<equiv> it_prev (m1 b)"
  defines "m3 \<equiv> hupd b (it_prev_update (\<lambda>_. k)) (hupd k (\<lambda>y. y\<lparr>it_next := b, it_prev := bb\<rparr>) m1)"
  defines "m4 \<equiv> (if bb \<noteq> NULL then hupd bb (it_next_update (\<lambda>_. k)) m3 else m3)"
  shows "item_queue m4 (if h = b then k else h) (if t = k then b else t) (ys @ k # b # zs)"
    and "bb \<noteq> k" and "bb \<noteq> NULL \<Longrightarrow> bb \<in> set ys" and "n \<noteq> NULL \<Longrightarrow> n \<in> set zs"
proof -
  have d: "distinct (ys @ b # k # zs)" and nn: "NULL \<notin> set (ys @ b # k # zs)"
    using item_queue_distinct [OF q] item_queue_nonnull [OF q] by auto
  have q': "item_queue m h t ((ys @ [b]) @ k # zs)" using q by simp
  have pk: "it_prev (m k) = b" "n = (if zs = [] then NULL else hd zs)"
    using item_queue_neighbours [OF q'] by (simp_all add: n_def)
  show ns: "n \<in> set zs" if "n \<noteq> NULL" using pk(2) that by (metis hd_in_set)
  have hk: "h \<noteq> k" using item_queue_head [OF q] d by (cases ys) auto
  have "item_queue m1 (if h = k then it_next (m k) else h) (if t = k then it_prev (m k) else t) ((ys @ [b]) @ zs)"
    by (rule item_queue_remove [OF q'])
      (use d nn ns pk in \<open>auto simp: m1_def hupd_apply n_def [symmetric]\<close>)
  then have q1: "item_queue m1 h (if t = k then b else t) (ys @ b # zs)" using hk unfolding pk(1) by simp
  have bbv: "bb = (if ys = [] then NULL else last ys)" unfolding bb_def using item_queue_neighbours(2) [OF q1] .
  show bs: "bb \<in> set ys" if "bb \<noteq> NULL" using bbv that by (metis last_in_set)
  show "bb \<noteq> k" using bs d nn by (cases "bb = NULL") auto
  show "item_queue m4 (if h = b then k else h) (if t = k then b else t) (ys @ k # b # zs)"
    by (rule item_queue_insert_before [OF q1])
      (use d nn bs in \<open>auto simp: m4_def m3_def hupd_apply bb_def [symmetric]\<close>)
qed

lemma do_item_crawl_q_swap:
  assumes ok: "lru_ok c L K Q" and k: "k \<in> K" and Q: "Q (slabs_clsid (mem c k)) = ys @ b # k # zs"
  defines "i \<equiv> slabs_clsid (mem c k)"
  shows "\<exists>c'. do_item_crawl_q k c = Some (b, c') \<and> lru_ok c' L K (Q(i := ys @ k # b # zs)) \<and> lru_frame (L \<union> K) c c'"
proof -
  note q = lru_okD(1) [OF ok, of i, unfolded i_def Q, folded i_def]
  define n where "n = it_next (mem c k)"
  define m1 where "m1 = (if n \<noteq> NULL then hupd n (it_prev_update (\<lambda>_. b)) (hupd b (it_next_update (\<lambda>_. n)) (mem c))
                 else hupd b (it_next_update (\<lambda>_. NULL)) (mem c))"
  define bb where "bb = it_prev (m1 b)"
  define m3 where "m3 = hupd b (it_prev_update (\<lambda>_. k)) (hupd k (\<lambda>y. y\<lparr>it_next := b, it_prev := bb\<rparr>) m1)"
  define m4 where "m4 = (if bb \<noteq> NULL then hupd bb (it_next_update (\<lambda>_. k)) m3 else m3)"
  define c' where "c' = c\<lparr>mem := m4, heads := (if heads c i = b then (heads c)(i := k) else heads c),
     tails := (if tails c i = k then (tails c)(i := b) else tails c)\<rparr>"
  note sw = crawl_swap [OF q, folded n_def, folded m1_def, folded bb_def, folded m3_def, folded m4_def]
  have d: "distinct (ys @ b # k # zs)" and nn: "NULL \<notin> set (ys @ b # k # zs)"
    using item_queue_distinct [OF q] item_queue_nonnull [OF q] by auto
  have pk: "it_prev (mem c k) = b" "it_next (mem c b) = k"
    using item_queue_neighbours(2) [of "mem c" _ _ "ys @ [b]" k zs] item_queue_neighbours(1) [of "mem c" _ _ ys b "k # zs"] q by simp_all
  have nk: "n \<noteq> k" using sw(4) d nn by (cases "n = NULL") auto
  have run: "do_item_crawl_q k c = Some (b, c')"
    using lru_okD(6) [OF ok k] nn d nk sw(2) pk(2)
    unfolding do_item_crawl_q_def is_crawler_def Let_def pk(1) i_def [symmetric] n_def [symmetric] m1_def [symmetric]
      bb_def [symmetric] m3_def [symmetric] m4_def [symmetric] c'_def by auto
  have inQ: "r \<in> L \<union> K" if "r \<in> set (ys @ b # k # zs)" for r
    using lru_okD(3) [OF ok, of r i] that Q by (simp add: i_def)
  have outside: "m4 r = mem c r" if "r \<notin> set (ys @ b # k # zs)" for r
    using that sw(3,4) by (auto simp: m4_def m3_def m1_def hupd_apply)
  have cr: "core (m4 r) = core (mem c r)" "h_next (m4 r) = h_next (mem c r)" for r
    by (auto simp: m4_def m3_def m1_def hupd_apply core_def)
  have fr: "lru_frame (L \<union> K) c c'"
    unfolding lru_frame_def using cr outside inQ by (auto simp: c'_def)
  have set_eq: "set ((Q(i := ys @ k # b # zs)) j) = set (Q j)" for j using Q by (auto simp: i_def)
  have "lru_ok c' L K (Q(i := ys @ k # b # zs))"
  proof (rule lru_ok_requeue [OF ok fr])
    show "item_queue (mem c') (heads c' j) (tails c' j) ((Q(i := ys @ k # b # zs)) j)" for j
    proof (cases "j = i")
      case True
      then show ?thesis using sw(1) by (auto simp: c'_def)
    next
      case False
      have "m4 r = mem c r" if "r \<in> set (Q j)" for r
      proof (rule outside)
        have "r \<notin> set (Q i)" using lru_okD(2) [OF ok, of r j] lru_okD(2) [OF ok, of r i] that False by blast
        then show "r \<notin> set (ys @ b # k # zs)" using Q by (simp add: i_def)
      qed
      then have "item_queue m4 (heads c j) (tails c j) (Q j)"
        by (intro item_queue_frame [OF lru_okD(1) [OF ok]]) simp
      then show ?thesis using False by (simp add: c'_def)
    qed
    show "mset (filter (\<lambda>p. p \<in> L) ((Q(i := ys @ k # b # zs)) j)) = mset (filter (\<lambda>p. p \<in> L) (Q j))" for j
      using Q by (auto simp: i_def)
    show "slabs_clsid (mem c p) = j" if "p \<in> set ((Q(i := ys @ k # b # zs)) j)" for j p
      using that unfolding set_eq by (rule lru_okD(2) [OF ok])
    show "(\<Union>j. set ((Q(i := ys @ k # b # zs)) j)) = L \<union> K" unfolding set_eq by (rule lru_ok_union [OF ok])
  qed (use lru_okD(5,6) [OF ok] in \<open>auto simp: c'_def\<close>)
  then show ?thesis using run fr by blast
qed

lemma do_item_crawl_q_end:
  assumes ok: "lru_ok c L K Q" and k: "k \<in> K" and Q: "Q (slabs_clsid (mem c k)) = k # zs"
  defines "i \<equiv> slabs_clsid (mem c k)"
  shows "\<exists>c'. do_item_crawl_q k c = Some (NULL, c') \<and> lru_frame (L \<union> K) c c' \<and>
     (if zs = [] then c' = c else lru_ok c' L (K - {k}) (Q(i := zs)))"
proof -
  note q = lru_okD(1) [OF ok, of i, unfolded i_def Q, folded i_def]
  have q0: "item_queue (mem c) (heads c i) (tails c i) ([] @ k # zs)" using q by simp
  have d: "distinct (k # zs)" and nn: "NULL \<notin> set (k # zs)"
    using item_queue_distinct [OF q] item_queue_nonnull [OF q] by auto
  have pk: "it_prev (mem c k) = NULL" "it_next (mem c k) = (if zs = [] then NULL else hd zs)" "heads c i = k"
    using item_queue_neighbours [OF q0] item_queue_head [OF q] by simp_all
  note cr = lru_okD(6) [OF ok k]
  show ?thesis
  proof (cases "zs = []")
    case True
    then have "do_item_crawl_q k c = Some (NULL, c)"
      using cr pk by (simp add: do_item_crawl_q_def is_crawler_def Let_def i_def)
    then show ?thesis using True by (simp add: lru_frame_def)
  next
    case False
    let ?n = "hd zs"
    have nz: "?n \<in> set zs" using False by simp
    then have nz': "?n \<noteq> NULL" "?n \<noteq> k" using nn d by (metis list.set_intros(2), auto)
    obtain zs' where zs: "zs = ?n # zs'" using False by (metis list.collapse)
    have pn: "it_prev (mem c ?n) = k" using item_queue_neighbours(2) [of "mem c" _ _ "[k]" ?n zs'] q zs by simp
    define c' where "c' = c\<lparr>heads := (heads c)(i := ?n), mem := hupd ?n (it_prev_update (\<lambda>_. NULL)) (mem c)\<rparr>"
    have run: "do_item_crawl_q k c = Some (NULL, c')"
      using cr pk False nz' pn by (simp add: do_item_crawl_q_def is_crawler_def Let_def i_def c'_def)
    have nL: "?n \<in> L \<union> K" using lru_okD(3) [OF ok, of ?n i] nz Q by (simp add: i_def)
    have fr: "lru_frame (L \<union> K) c c'" unfolding lru_frame_def using nL by (auto simp: c'_def hupd_apply)
    note un = crawler_only [OF ok k, of "[]" zs, unfolded append_Nil, OF Q, folded i_def]
    have "lru_ok c' L (K - {k}) (Q(i := zs))"
    proof (rule lru_ok_requeue [OF ok fr _ _ _ _ _ un(1)])
      show "item_queue (mem c') (heads c' j) (tails c' j) ((Q(i := zs)) j)" for j
      proof (cases "j = i")
        case True
        have "item_queue (mem c') (if heads c i = k then it_next (mem c k) else heads c i)
            (if tails c i = k then it_prev (mem c k) else tails c i) ([] @ zs)"
          by (rule item_queue_remove [OF q0]) (use pk False nz' nn in \<open>auto simp: c'_def hupd_apply\<close>)
        moreover have "tails c i \<noteq> k" using item_queue_tail [OF q] False d by (auto split: if_splits)
        ultimately show ?thesis using True pk False by (simp add: c'_def)
      next
        case nj: False
        have "?n \<in> set (Q i)" using nz Q by (simp add: i_def)
        then have "?n \<notin> set (Q j)" using lru_okD(2) [OF ok, of ?n i] lru_okD(2) [OF ok, of ?n j] nj by blast
        then have "item_queue (mem c') (heads c j) (tails c j) (Q j)"
          by (intro item_queue_frame [OF lru_okD(1) [OF ok]]) (auto simp: c'_def hupd_apply)
        then show ?thesis using nj by (simp add: c'_def)
      qed
      show "slabs_clsid (mem c p) = j" if "p \<in> set ((Q(i := zs)) j)" for j p
        using that lru_okD(2) [OF ok, of p j] Q by (auto simp: i_def split: if_splits)
    qed (use un(2) Q lru_okD(5,6) [OF ok] in \<open>auto simp: c'_def i_def\<close>)
    then show ?thesis using run fr False by simp
  qed
qed

end
