(* ===== verification/Cache.thy ===== *)
theory Cache
  imports Item_Crawl
begin

text \<open>
  The cache as a whole: the operations of the item layer, the LRU maintenance, the hash table expansion and
  the crawler's moves as the steps of one transition system, in any interleaving. Every reachable state
  satisfies the invariant, and the steps act on the map from keys to stored entries the way a cache should.
\<close>

section \<open>States and steps\<close>

text \<open>
  Next to the state of the program: the crawler items in the queues, the references the clients hold, the
  memory ever obtained. References held by pending bumps are counted from the bump buffer.
\<close>

record view =
  crawlers :: "ptr set"
  client_refs :: "ptr \<Rightarrow> nat"
  owned :: "ptr set"

definition all_refs :: "mc \<Rightarrow> (ptr \<Rightarrow> nat) \<Rightarrow> ptr \<Rightarrow> nat" where
  "all_refs c G p = G p + pending (bump_bufs c) p"

definition few_refs :: "mc \<Rightarrow> view \<Rightarrow> bool" where
  "few_refs c v \<longleftrightarrow> (\<forall>p. all_refs c (client_refs v) p + 3 < 2 ^ 16)"

definition take_ref :: "ptr \<Rightarrow> view \<Rightarrow> view" where
  "take_ref p v = (if p = NULL then v else v\<lparr>client_refs := (client_refs v)(p := client_refs v p + 1)\<rparr>)"

definition drop_ref :: "ptr \<Rightarrow> view \<Rightarrow> view" where
  "drop_ref p v = v\<lparr>client_refs := (client_refs v)(p := client_refs v p - 1)\<rparr>"

text \<open>What a client may do to an item it has not linked yet, and to a linked one that nobody else holds.\<close>

definition client_write :: "(item \<Rightarrow> item) \<Rightarrow> bool" where
  "client_write f \<longleftrightarrow> (\<forall>x. refcount (f x) = refcount x \<and> ITEM_clsid (f x) = ITEM_clsid x \<and>
     (\<forall>g\<in>{ITEM_LINKED, ITEM_SLABBED, ITEM_CHUNKED}. has_flag g (f x) = has_flag g x))"

definition client_rewrite :: "(item \<Rightarrow> item) \<Rightarrow> bool" where
  "client_rewrite f \<longleftrightarrow> (\<forall>x. refcount (f x) = refcount x \<and> shape (f x) = shape x)"

definition crawler_item :: "u8 \<Rightarrow> item" where
  "crawler_item i = zero_item\<lparr>it_flags := 1, slabs_clsid := i\<rparr>"

text \<open>\<open>cache_step hash c v T c' v'\<close>: a step that works on the items \<open>T\<close>.\<close>

inductive cache_step :: "hash_fn \<Rightarrow> mc \<Rightarrow> view \<Rightarrow> ptr set \<Rightarrow> mc \<Rightarrow> view \<Rightarrow> bool" for hash :: hash_fn where
  alloc: "few_refs c v \<Longrightarrow> env_fresh (cfg c) env 0 (owned v \<union> crawlers v) \<Longrightarrow> length key = nk \<Longrightarrow> nk < 256 \<Longrightarrow>
    item_total_size (cfg c) nk fl nb \<le> slab_chunk_size_max (cfg c) \<Longrightarrow>
    do_item_alloc hash env key nk fl exp nb c = Some (it, c') \<Longrightarrow>
    cache_step hash c v {it} c' (take_ref it (v\<lparr>owned := owned v \<union> obtained (cfg c) env 0 10\<rparr>))"
| fill: "0 < client_refs v p \<Longrightarrow> \<not> has_flag ITEM_LINKED (mem c p) \<Longrightarrow> client_write f \<Longrightarrow>
    cache_step hash c v {p} (upd_item p f c) v"
| rewrite: "0 < client_refs v p \<Longrightarrow> has_flag ITEM_LINKED (mem c p) \<Longrightarrow> refcount (mem c p) = 2 \<Longrightarrow> client_rewrite f \<Longrightarrow>
    cache_step hash c v {p} (upd_item p f c) v"
| book: "cache_step hash c v {} (c\<lparr>cas_id := w, stats_sizes_hist := h\<rparr>) v"
| link: "few_refs c v \<Longrightarrow> 0 < client_refs v p \<Longrightarrow> \<not> has_flag ITEM_LINKED (mem c p) \<Longrightarrow> key_ok (mem c p) \<Longrightarrow> 2 \<le> nbytes (mem c p) \<Longrightarrow>
    assoc_find (ITEM_key (mem c p)) (unat (nkey (mem c p))) (item_hash hash (mem c p)) (mem c) (ht c) = Some NULL \<Longrightarrow>
    do_item_link p (item_hash hash (mem c p)) c = Some c' \<Longrightarrow> cache_step hash c v {p} c' v"
| unlink: "0 < client_refs v p \<Longrightarrow> do_item_unlink p (item_hash hash (mem c p)) c = Some c' \<Longrightarrow> cache_step hash c v {p} c' v"
| remove: "0 < client_refs v p \<Longrightarrow> do_item_remove p c = Some c' \<Longrightarrow> cache_step hash c v {p} c' (drop_ref p v)"
| replace: "few_refs c v \<Longrightarrow> 0 < client_refs v p \<Longrightarrow> has_flag ITEM_LINKED (mem c p) \<Longrightarrow> 0 < client_refs v n \<Longrightarrow>
    \<not> has_flag ITEM_LINKED (mem c n) \<Longrightarrow> key_ok (mem c n) \<Longrightarrow> 2 \<le> nbytes (mem c n) \<Longrightarrow>
    ITEM_key (mem c n) = ITEM_key (mem c p) \<Longrightarrow>
    do_item_replace p n (item_hash hash (mem c p)) c = Some c' \<Longrightarrow> cache_step hash c v {p, n} c' v"
| get: "few_refs c v \<Longrightarrow> (do_update \<longrightarrow> fst bump_ok < length (bump_bufs c)) \<Longrightarrow> length key = nk \<Longrightarrow> do_item_get bump_ok key nk (hash key nk) do_update c = Some (it, c') \<Longrightarrow>
    cache_step hash c v {it} c' (take_ref it v)"
| touch: "few_refs c v \<Longrightarrow> fst bump_ok < length (bump_bufs c) \<Longrightarrow> length key = nk \<Longrightarrow> do_item_touch bump_ok key nk exp (hash key nk) c = Some (it, c') \<Longrightarrow>
    cache_step hash c v {it} c' (take_ref it v)"
| update: "0 < client_refs v p \<Longrightarrow> do_item_update p c = Some c' \<Longrightarrow> cache_step hash c v {p} c' v"
| pull: "few_refs c v \<Longrightarrow> flags AND LRU_PULL_RETURN_ITEM = 0 \<Longrightarrow>
    lru_pull_tail hash lk rl orig_id cur_lru total_bytes flags max_age c = Some (n, ret, c') \<Longrightarrow> cache_step hash c v {} c' v"
| bumps: "lru_maintainer_bumps peek c = Some (b, c') \<Longrightarrow> cache_step hash c v {} c' v"
| expand: "hashpower (ht c) + 1 < 64 \<Longrightarrow>
    assoc_maintenance_round hash locks do_run calloc_ok (mem c) (ht c) = Some (m', a') \<Longrightarrow>
    cache_step hash c v {} (c\<lparr>mem := m', ht := a'\<rparr>) v"
| tick: "cache_step hash c v {} (c\<lparr>current_time := t\<rparr>) v"
| flush: "cache_step hash c v {} (c\<lparr>cfg := (cfg c)\<lparr>oldest_live := t, oldest_cas := w\<rparr>\<rparr>) v"
| crawl_start: "k \<notin> owned v \<Longrightarrow> k \<notin> crawlers v \<Longrightarrow> k \<noteq> NULL \<Longrightarrow>
    do_item_linktail_q k (upd_item k (\<lambda>_. crawler_item i) c) = Some c' \<Longrightarrow>
    cache_step hash c v {k} c' (v\<lparr>crawlers := insert k (crawlers v)\<rparr>)"
| crawl: "k \<in> crawlers v \<Longrightarrow> do_item_crawl_q k c = Some (r, c') \<Longrightarrow>
    cache_step hash c v {k} c' (if r = NULL \<and> it_next (mem c k) \<noteq> NULL then v\<lparr>crawlers := crawlers v - {k}\<rparr> else v)"
| crawl_stop: "k \<in> crawlers v \<Longrightarrow> do_item_unlinktail_q k c = Some c' \<Longrightarrow>
    cache_step hash c v {k} c' (v\<lparr>crawlers := crawlers v - {k}\<rparr>)"

definition cache_start :: "hash_fn \<Rightarrow> mc \<Rightarrow> bool" where
  "cache_start hash c \<longleftrightarrow> assoc_rep hash (mem c) (ht c) {} \<and> slabs_fresh (cfg c) (sl c) \<and> tail_repair_time (cfg c) = 0 \<and>
     slab_chunk_size_max (cfg c) \<le> sc_size (cls (sl c) (power_largest (sl c))) \<and>
     heads c = (\<lambda>_. NULL) \<and> tails c = (\<lambda>_. NULL) \<and> lru_sizes c = (\<lambda>_. 0) \<and> sizes_bytes c = (\<lambda>_. 0) \<and>
     curr_items c = 0 \<and> curr_bytes c = 0 \<and> (\<forall>y\<in>set (bump_bufs c). bump_entries y = [])"

definition empty_view :: view where
  "empty_view = \<lparr>crawlers = {}, client_refs = (\<lambda>_. 0), owned = {}\<rparr>"

inductive cache_reach :: "hash_fn \<Rightarrow> mc \<Rightarrow> view \<Rightarrow> bool" for hash :: hash_fn where
  start: "cache_start hash c \<Longrightarrow> cache_reach hash c empty_view"
| step: "cache_reach hash c v \<Longrightarrow> cache_step hash c v T c' v' \<Longrightarrow> cache_reach hash c' v'"

section \<open>What a client sees\<close>

text \<open>The entry a key is mapped to, whether or not it has expired.\<close>

definition cache_map :: "hash_fn \<Rightarrow> mc \<Rightarrow> byte list \<Rightarrow> (byte list \<times> int \<times> byte list \<times> u32 \<times> u32 \<times> u64) option" where
  "cache_map hash c key = (case assoc_find key (length key) (hash key (length key)) (mem c) (ht c) of
     None \<Rightarrow> None | Some p \<Rightarrow> if p = NULL then None else Some (entry (mem c p)))"

definition cache_inv :: "hash_fn \<Rightarrow> mc \<Rightarrow> view \<Rightarrow> ptr set \<Rightarrow> bool" where
  "cache_inv hash c v L \<longleftrightarrow> mc_inv hash c L (crawlers v) (all_refs c (client_refs v)) (owned v) \<and>
     tail_repair_time (cfg c) = 0 \<and> slab_chunk_size_max (cfg c) \<le> sc_size (cls (sl c) (power_largest (sl c)))"

lemma cache_inv_mc: "cache_inv hash c v L \<Longrightarrow> mc_inv hash c L (crawlers v) (all_refs c (client_refs v)) (owned v)"
  by (simp add: cache_inv_def)

lemma cache_map_abs:
  assumes "cache_inv hash c v L"
  shows "cache_map hash c key = map_option (\<lambda>p. entry (mem c p)) (assoc_abs (mem c) L key)"
proof -
  note h = mc_repD(2) [OF cache_inv_mc [OF assms, unfolded mc_inv_rep]]
  have "p \<noteq> NULL" if "assoc_abs (mem c) L key = Some p" for p
    using that assoc_rep_nonnull [OF h] by (simp add: assoc_abs_eq_Some [OF assoc_rep_inj [OF h]])
  then show ?thesis unfolding cache_map_def assoc_find_correct [OF h refl] by (auto split: option.splits)
qed

text \<open>How the map changes when items of \<open>L\<close> keep their entries.\<close>

lemma cache_map_Some:
  assumes "cache_inv hash c v L"
  shows "cache_map hash c key = Some e \<longleftrightarrow> (\<exists>p\<in>L. ITEM_key (mem c p) = key \<and> entry (mem c p) = e)"
proof -
  note h = mc_repD(2) [OF cache_inv_mc [OF assms, unfolded mc_inv_rep]]
  show ?thesis unfolding cache_map_abs [OF assms]
    by (auto simp: map_option_eq_Some assoc_abs_eq_Some [OF assoc_rep_inj [OF h]])
qed

lemma cache_map_None:
  assumes "cache_inv hash c v L" "cache_map hash c key = None" "length key = nk"
  shows "assoc_find key nk (hash key nk) (mem c) (ht c) = Some NULL"
proof -
  note h = mc_repD(2) [OF cache_inv_mc [OF assms(1), unfolded mc_inv_rep]]
  have "assoc_abs (mem c) L key = None" using assms(2) by (simp add: cache_map_abs [OF assms(1)])
  then show ?thesis unfolding assoc_find_correct [OF h assms(3)] by simp
qed

lemma entry_key: "entry x = entry y \<Longrightarrow> ITEM_key x = ITEM_key y" by (simp add: entry_def)

lemmas content_keep = entry_content content_fields(8)

lemma cache_map_sub:
  assumes "cache_inv hash c v L" "cache_inv hash c' v' L'" "L' \<subseteq> L" "\<And>p. p \<in> L' \<Longrightarrow> content (mem c' p) = content (mem c p)"
  shows "cache_map hash c' \<subseteq>\<^sub>m cache_map hash c"
proof -
  have "cache_map hash c k = Some e" if "cache_map hash c' k = Some e" for k e
    using that assms(3,4) content_keep unfolding cache_map_Some [OF assms(1)] cache_map_Some [OF assms(2)] by (metis subsetD)
  then show ?thesis by (auto simp: map_le_def dom_def)
qed

lemma cache_map_same:
  assumes "cache_inv hash c v L" "cache_inv hash c' v' L" "\<And>p. p \<in> L \<Longrightarrow> content (mem c' p) = content (mem c p)"
  shows "cache_map hash c' = cache_map hash c"
proof -
  have "cache_map hash c' \<subseteq>\<^sub>m cache_map hash c" "cache_map hash c \<subseteq>\<^sub>m cache_map hash c'"
    by (rule cache_map_sub [OF assms(1,2)] cache_map_sub [OF assms(2,1)]; use assms(3) in simp)+
  then show ?thesis by (rule map_le_antisym)
qed

section \<open>One step\<close>

definition next_ok :: "hash_fn \<Rightarrow> mc \<Rightarrow> view \<Rightarrow> ptr set \<Rightarrow> ptr set \<Rightarrow> mc \<Rightarrow> view \<Rightarrow> ptr set \<Rightarrow> bool" where
  "next_ok hash c v L T c' v' L' \<longleftrightarrow> cache_inv hash c' v' L' \<and> L' \<subseteq> L \<union> T \<and>
     (\<forall>p. p \<notin> T \<and> (p \<in> L' \<or> 0 < client_refs v p) \<longrightarrow> content (mem c' p) = content (mem c p))"

lemma all_refs_cong: "bump_bufs c' = bump_bufs c \<Longrightarrow> all_refs c' G = all_refs c G"
  by (simp add: all_refs_def fun_eq_iff)

lemma all_refs_upd:
  "all_refs c (G(p := G p + n)) = (all_refs c G)(p := all_refs c G p + n)"
  "0 < G p \<Longrightarrow> all_refs c (G(p := G p - 1)) = (all_refs c G)(p := all_refs c G p - 1)"
  by (auto simp: all_refs_def fun_eq_iff)

lemma cache_invD:
  assumes "cache_inv hash c v L"
  shows "mc_inv hash c L (crawlers v) (all_refs c (client_refs v)) (owned v)" "tail_repair_time (cfg c) = 0"
    "slab_chunk_size_max (cfg c) \<le> sc_size (cls (sl c) (power_largest (sl c)))"
  using assms by (simp_all add: cache_inv_def)

lemma cache_invI:
  assumes "cache_inv hash c v L" "mc_inv hash c' L' (crawlers v') (all_refs c' (client_refs v')) (owned v')"
    "cfg c' = cfg c" "geometry (sl c) (sl c')"
  shows "cache_inv hash c' v' L'"
  using assms by (simp add: cache_inv_def geometry_def)

text \<open>The usual case: the bump buffer stays.\<close>

lemma next_okI:
  assumes "cache_inv hash c v L" "mc_inv hash c' L' (crawlers v') (all_refs c (client_refs v')) (owned v')"
    "calm S c c'" "L' \<subseteq> L \<union> T" "\<And>p. p \<notin> T \<Longrightarrow> p \<in> held L' (all_refs c (client_refs v)) \<Longrightarrow> p \<in> S"
  shows "next_ok hash c v L T c' v' L'"
  unfolding next_ok_def
proof (intro conjI allI impI)
  note k = calmD [OF assms(3)]
  show "cache_inv hash c' v' L'" using assms(2) all_refs_cong [OF k(4)] by (intro cache_invI [OF assms(1) _ k(1,3)]) simp
  show "content (mem c' p) = content (mem c p)" if "p \<notin> T \<and> (p \<in> L' \<or> 0 < client_refs v p)" for p
    using that by (intro k(5) assms(5)) (auto simp: held_def all_refs_def)
qed (rule assms(4))

lemma few_refsD:
  assumes "few_refs c v"
  shows "refs_of L (all_refs c (client_refs v)) p + 1 < 2 ^ 16" "refs_of L (all_refs c (client_refs v)) p + 2 < 2 ^ 16"
    "all_refs c (client_refs v) p + 1 < 2 ^ 16"
  using assms by (auto simp: few_refs_def refs_of_def dest: spec [of _ p])

lemma client_held: "0 < client_refs v p \<Longrightarrow> p \<in> held L (all_refs c (client_refs v))"
  "0 < client_refs v p \<Longrightarrow> 0 < all_refs c (client_refs v) p"
  by (simp_all add: held_def all_refs_def)

lemma take_ref_fields [simp]: "crawlers (take_ref p v) = crawlers v" "owned (take_ref p v) = owned v" "take_ref NULL v = v"
  by (simp_all add: take_ref_def)

lemma step_alloc_locked:
  assumes inv: "cache_inv hash c v L" and few: "few_refs c v" and fr: "env_fresh (cfg c) env 0 (owned v \<union> crawlers v)"
    and nk: "length key = nk" "nk < 256" and small: "item_total_size (cfg c) nk fl nb \<le> slab_chunk_size_max (cfg c)"
    and lw: "locked hash P c L W" "\<And>t j n h. h \<in> P \<Longrightarrow> \<not> pe_lock (env t) j n h"
  shows "\<exists>it c' L'. do_item_alloc hash env key nk fl exp nb c = Some (it, c') \<and> L' \<subseteq> L \<and> W \<subseteq> L' \<and> bump_bufs c' = bump_bufs c \<and> cfg c' = cfg c \<and>
     next_ok hash c v L {it} c' (take_ref it (v\<lparr>owned := owned v \<union> obtained (cfg c) env 0 10\<rparr>)) L' \<and>
     (it \<noteq> NULL \<longrightarrow> it \<notin> L' \<and> client_refs v it = 0 \<and> new_item (cfg c) key fl exp nb (mem c' it))"
proof -
  note i = cache_invD [OF inv]
  let ?G = "all_refs c (client_refs v)" and ?B = "owned v \<union> obtained (cfg c) env 0 10"
  obtain it c' L' where a: "do_item_alloc hash env key nk fl exp nb c = Some (it, c')" "L' \<subseteq> L" "calm (held L' ?G) c c'"
      "mc_inv hash c' L' (crawlers v) (if it = NULL then ?G else ?G(it := 1)) ?B"
      "it \<noteq> NULL \<longrightarrow> it \<notin> held L' ?G \<and> 2 \<le> nb \<and> new_item (cfg c) key fl exp nb (mem c' it)" "W \<subseteq> L'"
    using do_item_alloc_inv [OF i(1) few_refsD(1) [OF few] i(2) fr i(3) nk small lw(1), of exp] lw(2) by blast
  have z: "?G it = 0" "client_refs v it = 0" "it \<notin> L'" if "it \<noteq> NULL" using a(5) that by (auto simp: held_def all_refs_def)
  have "mc_inv hash c' L' (crawlers v) (all_refs c (client_refs (take_ref it v))) ?B"
  proof (cases "it = NULL")
    case False
    then have "all_refs c (client_refs (take_ref it v)) = ?G(it := 1)"
      using z all_refs_upd(1) [of c "client_refs v" it 1] by (simp add: take_ref_def)
    then show ?thesis using a(4) False by simp
  qed (use a(4) in \<open>simp add: take_ref_def\<close>)
  moreover have "client_refs (take_ref it (v\<lparr>owned := ?B\<rparr>)) = client_refs (take_ref it v)"
    "crawlers (take_ref it (v\<lparr>owned := ?B\<rparr>)) = crawlers v" "owned (take_ref it (v\<lparr>owned := ?B\<rparr>)) = ?B"
    by (simp_all add: take_ref_def)
  ultimately have "next_ok hash c v L {it} c' (take_ref it (v\<lparr>owned := ?B\<rparr>)) L'"
    by (intro next_okI [OF inv _ a(3)]) (use a(2) in auto)
  then show ?thesis using a(1,2,5,6) z calmD(1,4) [OF a(3)] by (intro exI [of _ it] exI [of _ c'] exI [of _ L']) simp
qed

lemma step_alloc:
  assumes "cache_inv hash c v L" "few_refs c v" "env_fresh (cfg c) env 0 (owned v \<union> crawlers v)" "length key = nk" "nk < 256"
    "item_total_size (cfg c) nk fl nb \<le> slab_chunk_size_max (cfg c)"
  shows "\<exists>it c' L'. do_item_alloc hash env key nk fl exp nb c = Some (it, c') \<and> L' \<subseteq> L \<and> bump_bufs c' = bump_bufs c \<and>
     next_ok hash c v L {it} c' (take_ref it (v\<lparr>owned := owned v \<union> obtained (cfg c) env 0 10\<rparr>)) L' \<and>
     (it \<noteq> NULL \<longrightarrow> it \<notin> L' \<and> client_refs v it = 0 \<and> new_item (cfg c) key fl exp nb (mem c' it))"
  using step_alloc_locked [OF assms locked_empty, of "{}" exp] by blast

lemma step_link:
  assumes inv: "cache_inv hash c v L" and few: "few_refs c v" and p: "0 < client_refs v p" "\<not> has_flag ITEM_LINKED (mem c p)"
      "key_ok (mem c p)" "2 \<le> nbytes (mem c p)" and new: "cache_map hash c (ITEM_key (mem c p)) = None"
  shows "\<exists>c'. do_item_link p (item_hash hash (mem c p)) c = Some c' \<and> next_ok hash c v L {p} c' v (insert p L) \<and>
     kept (- {p}) c c' \<and> core (mem c' p) = core (linked_item c (mem c p)) \<and> p \<notin> L"
proof -
  note i = cache_invD [OF inv]
  let ?G = "all_refs c (client_refs v)"
  have pL: "p \<notin> L" using mc_inv_item(5) [OF i(1) client_held(1) [OF p(1)]] p(2) by simp
  have "assoc_abs (mem c) L (ITEM_key (mem c p)) = None" using new cache_map_abs [OF inv] by simp
  from do_item_link_inv [OF i(1) pL client_held(2) [OF p(1)] few_refsD(3) [OF few] p(3,4) this refl] obtain c' where
    l: "do_item_link p (item_hash hash (mem c p)) c = Some c'" "mc_inv hash c' (insert p L) (crawlers v) ?G (owned v)"
      "kept (- {p}) c c'" "core (mem c' p) = core (linked_item c (mem c p))" by blast
  have "next_ok hash c v L {p} c' v (insert p L)" by (rule next_okI [OF inv l(2) kept_calm [OF l(3)]]) auto
  then show ?thesis using l pL by blast
qed

lemma step_unlink:
  assumes inv: "cache_inv hash c v L" and p: "p \<in> L"
  shows "\<exists>c'. do_item_unlink p (item_hash hash (mem c p)) c = Some c' \<and> next_ok hash c v L {p} c' v (L - {p})"
proof -
  note i = cache_invD [OF inv]
  let ?G = "all_refs c (client_refs v)"
  obtain c' where u: "do_item_unlink p (item_hash hash (mem c p)) c = Some c'" "mc_inv hash c' (L - {p}) (crawlers v) ?G (owned v)"
      "kept (held L ?G - {p}) c c'"
    using do_item_unlink_inv [OF i(1) p refl] by blast
  have "next_ok hash c v L {p} c' v (L - {p})"
    by (rule next_okI [OF inv u(2) kept_calm [OF u(3)]]) (auto simp: held_def)
  then show ?thesis using u(1) by blast
qed

lemma step_remove:
  assumes inv: "cache_inv hash c v L" and p: "0 < client_refs v p"
  shows "\<exists>c'. do_item_remove p c = Some c' \<and> next_ok hash c v L {p} c' (drop_ref p v) L \<and> (p \<in> L \<longrightarrow> content (mem c' p) = content (mem c p))"
proof -
  note i = cache_invD [OF inv]
  let ?G = "all_refs c (client_refs v)"
  obtain c' where r: "do_item_remove p c = Some c'" "mc_inv hash c' L (crawlers v) (?G(p := ?G p - 1)) (owned v)" "kept (held L ?G - {p}) c c'"
      "p \<in> held L (?G(p := ?G p - 1)) \<longrightarrow> c' = upd_item p (\<lambda>x. x\<lparr>refcount := refcount x - 1\<rparr>) c"
    using do_item_remove_inv [OF i(1) client_held(2) [OF p]] by blast
  have e: "content (mem c' p) = content (mem c p)" if "p \<in> L" using r(4) that by (simp add: held_def)
  have "mc_inv hash c' L (crawlers (drop_ref p v)) (all_refs c (client_refs (drop_ref p v))) (owned (drop_ref p v))"
    using r(2) all_refs_upd(2) [of "client_refs v" p c, OF p] by (simp add: drop_ref_def)
  then have "next_ok hash c v L {p} c' (drop_ref p v) L"
    by (rule next_okI [OF inv _ kept_calm [OF r(3)]]) (auto simp: held_def)
  then show ?thesis using r(1) e by blast
qed

lemma step_replace:
  assumes inv: "cache_inv hash c v L" and few: "few_refs c v" and p: "p \<in> L"
    and n: "0 < client_refs v n" "\<not> has_flag ITEM_LINKED (mem c n)" "key_ok (mem c n)" "2 \<le> nbytes (mem c n)"
    and key: "ITEM_key (mem c n) = ITEM_key (mem c p)"
  shows "\<exists>c'. do_item_replace p n (item_hash hash (mem c p)) c = Some c' \<and> next_ok hash c v L {p, n} c' v (insert n (L - {p})) \<and>
     core (mem c' n) = core (linked_item c (mem c n)) \<and> n \<notin> L \<and> cfg c' = cfg c \<and>
     (0 < client_refs v p \<longrightarrow> content (mem c' p) = content (mem c p))"
proof -
  note i = cache_invD [OF inv]
  let ?G = "all_refs c (client_refs v)"
  have nL: "n \<notin> L" using mc_inv_item(5) [OF i(1) client_held(1) [OF n(1)]] n(2) by simp
  obtain c' where r: "do_item_replace p n (item_hash hash (mem c p)) c = Some c'"
      "mc_inv hash c' (insert n (L - {p})) (crawlers v) ?G (owned v)" "kept (held L ?G - {p, n}) c c'"
      "core (mem c' n) = core (linked_item c (mem c n))" "0 < ?G p \<longrightarrow> content (mem c' p) = content (mem c p)"
    using do_item_replace_inv [OF i(1) p nL client_held(2) [OF n(1)] few_refsD(3) [OF few] n(3,4) key refl] by (elim exE conjE) (rule that)
  have "next_ok hash c v L {p, n} c' v (insert n (L - {p}))"
    by (rule next_okI [OF inv r(2) kept_calm [OF r(3)]]) (auto simp: held_def)
  then show ?thesis using r(1,4,5) nL keptD(1) [OF r(3)] client_held(2) [of v p c] by (intro exI [of _ c']) simp
qed

text \<open>The outcome of a lookup: the item, the linked items left, and what is known of the item.\<close>

definition get_ok :: "hash_fn \<Rightarrow> mc \<Rightarrow> view \<Rightarrow> ptr set \<Rightarrow> byte list \<Rightarrow> ptr \<Rightarrow> mc \<Rightarrow> ptr set \<Rightarrow> bool" where
  "get_ok hash c v L key it c' L' \<longleftrightarrow> next_ok hash c v L {it} c' (take_ref it v) L' \<and>
     (case assoc_abs (mem c) L key of
        None \<Rightarrow> it = NULL \<and> c' = c \<and> L' = L
      | Some p \<Rightarrow> if dead c (mem c p) then it = NULL \<and> L' = L - {p}
                  else it = p \<and> p \<noteq> NULL \<and> L' = L \<and> p \<in> L \<and> content (mem c' p) = content (mem c p))"

text \<open>A lookup that leaves the LRU alone.\<close>

lemma item_is_flushed_ref: "item_is_flushed st now (x\<lparr>refcount := r\<rparr>) = item_is_flushed st now x"
  by (simp add: item_is_flushed_def ITEM_get_cas_def has_flag_def)

lemma do_item_get_missed:
  assumes "do_item_get bump_ok key nk hv False c = Some (NULL, c')"
  shows "do_item_get bump_ok key nk hv True c = Some (NULL, c')"
proof (cases "assoc_find key nk hv (mem c) (ht c)")
  case (Some p)
  then show ?thesis using assms unfolding do_item_get_def Let_def by (simp split: if_split_asm)
qed (use assms in \<open>simp add: do_item_get_def\<close>)

lemma step_lookup:
  assumes inv: "cache_inv hash c v L" and few: "few_refs c v" and nk: "length key = nk"
  shows "\<exists>it c' L'. do_item_get bump_ok key nk (hash key nk) False c = Some (it, c') \<and> get_ok hash c v L key it c' L' \<and>
     bump_bufs c' = bump_bufs c \<and> cfg c' = cfg c"
proof -
  note i = cache_invD [OF inv]
  let ?G = "all_refs c (client_refs v)"
  note h = mc_repD(2) [OF i(1) [unfolded mc_inv_rep]]
  show ?thesis
  proof (cases "assoc_abs (mem c) L key")
    case None
    have "next_ok hash c v L {NULL} c v L" using inv by (auto simp: next_ok_def)
    then have "get_ok hash c v L key NULL c L" using None by (simp add: get_ok_def take_ref_def)
    then show ?thesis using do_item_get_miss [OF i(1) nk None] by blast
  next
    case (Some p)
    have pL: "p \<in> L" using Some by (simp add: assoc_abs_eq_Some [OF assoc_rep_inj [OF h]])
    have pn: "p \<noteq> NULL" using assoc_rep_nonnull [OF h pL] .
    show ?thesis
    proof (cases "dead c (mem c p)")
      case True
      obtain c' where g: "do_item_get bump_ok key nk (hash key nk) False c = Some (NULL, c')"
          "mc_inv hash c' (L - {p}) (crawlers v) ?G (owned v)" "kept (held L ?G - {p}) c c'"
          "0 < ?G p \<longrightarrow> content (mem c' p) = content (mem c p)"
        using do_item_get_dead [OF i(1) nk Some few_refsD(1) [OF few] True] by blast
      have calm: "calm (held (L - {p}) ?G) c c'" by (rule calm_without [OF g(3,4)]) auto
      then have "next_ok hash c v L {NULL} c' v (L - {p})" by (rule next_okI [OF inv g(2)]) auto
      then have "get_ok hash c v L key NULL c' (L - {p})" using Some True by (simp add: get_ok_def take_ref_def)
      then show ?thesis using g(1) calmD(1,4) [OF calm] by blast
    next
      case False
      let ?c = "upd_item p (\<lambda>x. x\<lparr>refcount := refcount x + 1\<rparr>) c"
      have run: "do_item_get bump_ok key nk (hash key nk) False c = Some (p, ?c)"
        using False pn assoc_find_correct [OF h nk] Some
        by (auto simp: do_item_get_def dead_def Let_def item_is_flushed_ref)
      have "mc_inv hash ?c L (crawlers v) (?G(p := ?G p + 1)) (owned v)"
        by (rule mc_inv_ref [OF i(1) _ few_refsD(1) [OF few]]) (use pL in \<open>simp add: held_def\<close>)
      then have "next_ok hash c v L {p} ?c (take_ref p v) L"
        using pn all_refs_upd(1) [of c "client_refs v" p 1]
        by (intro next_okI [OF inv _ kept_calm [OF kept_upd_item [of p "- {p}"]]]) (auto simp: take_ref_def)
      then have "get_ok hash c v L key p ?c L" using Some False pn pL by (simp add: get_ok_def)
      then show ?thesis using run by auto
    qed
  qed
qed

lemma step_get:
  assumes inv: "cache_inv hash c v L" and few: "few_refs c v" and j: "do_update \<longrightarrow> fst bump_ok < length (bump_bufs c)" and nk: "length key = nk"
  shows "\<exists>it c' L'. do_item_get bump_ok key nk (hash key nk) do_update c = Some (it, c') \<and> get_ok hash c v L key it c' L'"
proof (cases "do_update \<and> (\<exists>p. assoc_abs (mem c) L key = Some p \<and> \<not> dead c (mem c p))")
  case True
  then obtain p where Some: "assoc_abs (mem c) L key = Some p" and alive: "\<not> dead c (mem c p)" by blast
  note i = cache_invD [OF inv]
  let ?G = "all_refs c (client_refs v)"
  note h = mc_repD(2) [OF i(1) [unfolded mc_inv_rep]]
  have pL: "p \<in> L" using Some by (simp add: assoc_abs_eq_Some [OF assoc_rep_inj [OF h]])
  have pn: "p \<noteq> NULL" using assoc_rep_nonnull [OF h pL] .
  obtain c' b where g: "do_item_get bump_ok key nk (hash key nk) do_update c = Some (p, c')"
      "mc_inv hash c' L (crawlers v) (?G(p := ?G p + 1 + (if b then 1 else 0))) (owned v)"
      "kept (- {p}) c (c'\<lparr>bump_bufs := bump_bufs c\<rparr>)" "bumped (if b then 1 else 0) p (bump_bufs c) (bump_bufs c')"
      "content (mem c' p) = content (mem c p)"
    using do_item_get_hit [OF i(1) nk Some few_refsD(2) [OF few] alive] j True by blast
  have "all_refs c' (client_refs (take_ref p v)) = ?G(p := ?G p + 1 + (if b then 1 else 0))"
    using g(4) pn by (auto simp: all_refs_def fun_eq_iff take_ref_def bumped_def)
  then have "cache_inv hash c' (take_ref p v) L"
    using g(2) keptD(1,3) [OF g(3)] by (intro cache_invI [OF inv]) simp_all
  moreover have "content (mem c' q) = content (mem c q)" if "q \<noteq> p" for q
    using content_core [OF keptD(4) [OF g(3), of q]] that by simp
  ultimately have "next_ok hash c v L {p} c' (take_ref p v) L" by (auto simp: next_ok_def)
  then have "get_ok hash c v L key p c' L" using Some alive pn pL g(5) by (simp add: get_ok_def)
  then show ?thesis using g(1) by blast
next
  case False
  obtain it c' L' where g: "do_item_get bump_ok key nk (hash key nk) False c = Some (it, c')" "get_ok hash c v L key it c' L'"
    using step_lookup [OF inv few nk] by blast
  have "it = NULL \<or> \<not> do_update" using g(2) False by (auto simp: get_ok_def split: option.splits if_splits)
  then have "do_item_get bump_ok key nk (hash key nk) do_update c = Some (it, c')"
    using g(1) do_item_get_missed [of bump_ok key nk "hash key nk" c c'] by (cases do_update) simp_all
  then show ?thesis using g(2) by blast
qed

lemma step_touch:
  assumes inv: "cache_inv hash c v L" and few: "few_refs c v" and j: "fst bump_ok < length (bump_bufs c)" and nk: "length key = nk"
  shows "\<exists>it c' L'. do_item_touch bump_ok key nk exp (hash key nk) c = Some (it, c') \<and> next_ok hash c v L {it} c' (take_ref it v) L'"
proof -
  obtain it c1 L' where g: "do_item_get bump_ok key nk (hash key nk) True c = Some (it, c1)" "get_ok hash c v L key it c1 L'"
    using step_get [OF inv few _ nk, of True bump_ok] j by blast
  have n: "next_ok hash c v L {it} c1 (take_ref it v) L'" using g(2) by (simp add: get_ok_def)
  show ?thesis
  proof (cases "it = NULL")
    case True
    then show ?thesis using g(1) n by (auto simp: do_item_touch_def)
  next
    case False
    let ?c = "upd_item it (exptime_update (\<lambda>_. exp)) c1"
    have i1: "cache_inv hash c1 (take_ref it v) L'" using n by (simp add: next_ok_def)
    have h: "it \<in> held L' (all_refs c1 (client_refs (take_ref it v)))" using False by (simp add: held_def all_refs_def take_ref_def)
    have "mc_inv hash ?c L' (crawlers (take_ref it v)) (all_refs c1 (client_refs (take_ref it v))) (owned (take_ref it v))"
      by (rule mc_inv_write [OF cache_invD(1) [OF i1] h]) simp_all
    then have "cache_inv hash ?c (take_ref it v) L'"
      using all_refs_cong [of ?c c1] by (intro cache_invI [OF i1]) simp_all
    then have "next_ok hash c v L {it} ?c (take_ref it v) L'" using n by (simp add: next_ok_def)
    then show ?thesis using g(1) False by (auto simp: do_item_touch_def)
  qed
qed

lemma step_update:
  assumes inv: "cache_inv hash c v L" and p: "0 < client_refs v p"
  shows "\<exists>c'. do_item_update p c = Some c' \<and> next_ok hash c v L {} c' v L"
proof -
  note i = cache_invD [OF inv]
  obtain c' where u: "do_item_update p c = Some c'" "mc_inv hash c' L (crawlers v) (all_refs c (client_refs v)) (owned v)"
      "kept (- {p}) c c'" "content (mem c' p) = content (mem c p)"
    using do_item_update_inv [OF i(1) client_held(1) [OF p]] by blast
  have "calm UNIV c c'" by (rule kept_calm_insert [OF u(3,4)]) auto
  then have "next_ok hash c v L {} c' v L" by (rule next_okI [OF inv u(2)]) auto
  then show ?thesis using u(1) by blast
qed

lemma step_pull:
  assumes inv: "cache_inv hash c v L" and few: "few_refs c v" and fl: "flags AND LRU_PULL_RETURN_ITEM = 0"
  shows "\<exists>n c' L'. lru_pull_tail hash lk rl orig_id cur_lru total_bytes flags max_age c = Some (n, None, c') \<and> L' \<subseteq> L \<and>
     next_ok hash c v L {} c' v L'"
proof -
  note i = cache_invD [OF inv]
  obtain n c' L' where p: "lru_pull_tail hash lk rl orig_id cur_lru total_bytes flags max_age c = Some (n, None, c')" "L' \<subseteq> L"
      "mc_inv hash c' L' (crawlers v) (all_refs c (client_refs v)) (owned v)" "calm (held L' (all_refs c (client_refs v))) c c'"
    using lru_pull_tail_inv [OF i(1) few_refsD(1) [OF few] i(2) fl locked_empty, where P = "{}" and lk = lk] by blast
  have "next_ok hash c v L {} c' v L'" by (rule next_okI [OF inv p(3,4)]) (use p(2) in auto)
  then show ?thesis using p(1,2) by blast
qed

text \<open>The pending bumps: every entry of the buffer carries one reference.\<close>

lemma lru_bump_entries_inv:
  assumes "mc_inv hash c L K (\<lambda>p. G p + count_list (map fst es) p) A"
  shows "\<exists>c'. lru_bump_entries es c = Some c' \<and> mc_inv hash c' L K G A \<and> calm (held L G) c c'"
  using assms
proof (induction es arbitrary: c)
  case Nil
  then show ?case by auto
next
  case (Cons e es)
  obtain p hv where e: "e = (p, hv)" by (cases e)
  let ?G = "\<lambda>q. G q + count_list (map fst (e # es)) q" and ?G' = "\<lambda>q. G q + count_list (map fst es) q"
  have p: "0 < ?G p" by (simp add: e)
  have G': "?G(p := ?G p - 1) = ?G'" by (auto simp: e fun_eq_iff)
  obtain c1 where u: "do_item_update p c = Some c1" "mc_inv hash c1 L K ?G A" "kept (- {p}) c c1" "content (mem c1 p) = content (mem c p)"
    using do_item_update_inv [OF Cons.prems, of p] p by (auto simp: held_def)
  obtain c2 where r: "do_item_remove p c1 = Some c2" "mc_inv hash c2 L K ?G' A" "kept (held L ?G - {p}) c1 c2"
      "p \<in> held L ?G' \<longrightarrow> c2 = upd_item p (\<lambda>x. x\<lparr>refcount := refcount x - 1\<rparr>) c1"
    using do_item_remove_inv [OF u(2) p] unfolding G' by blast
  obtain c3 where t: "lru_bump_entries es c2 = Some c3" "mc_inv hash c3 L K G A" "calm (held L G) c2 c3"
    using Cons.IH [OF r(2)] by blast
  have "calm UNIV c c1" by (rule kept_calm_insert [OF u(3,4)]) auto
  moreover have "calm (held L ?G') c1 c2"
  proof (cases "p \<in> held L ?G'")
    case True
    then have "content (mem c2 p) = content (mem c1 p)" using r(4) by simp
    then show ?thesis by (rule kept_calm_insert [OF r(3)]) (auto simp: held_def)
  next
    case False
    then show ?thesis by (intro calm_mono [OF kept_calm [OF r(3)]]) (auto simp: held_def)
  qed
  ultimately have "calm (held L ?G') c c2" by (rule calm_trans) auto
  then have "calm (held L G) c c3" by (rule calm_trans [OF _ t(3)]) (auto simp: held_def)
  then show ?case using u(1) r(1) t(1,2) e by auto
qed

lemma next_ok_trans:
  "next_ok hash c v L {} c1 v L \<Longrightarrow> next_ok hash c1 v L {} c' v L \<Longrightarrow> next_ok hash c v L {} c' v L"
  by (simp add: next_ok_def)

lemma step_bump_buffer:
  assumes inv: "cache_inv hash c v L" and j: "j < length (bump_bufs c)"
    and es: "bump_entries (bump_bufs c ! j) = es @ fs"
  shows "\<exists>c1. lru_bump_entries es c = Some c1 \<and>
     next_ok hash c v L {} (upd_bump j (\<lambda>y. y\<lparr>bump_entries := drop (length es) (bump_entries y)\<rparr>) c1) v L \<and>
     length (bump_bufs c1) = length (bump_bufs c)"
proof -
  note i = cache_invD [OF inv]
  let ?bs = "(bump_bufs c)[j := (bump_bufs c ! j)\<lparr>bump_entries := fs\<rparr>]"
  let ?G = "\<lambda>p. client_refs v p + pending ?bs p"
  have "pending (bump_bufs c) p = pending ?bs p + count_list (map fst es) p" for p
    using pending_update [OF j, of "(bump_bufs c ! j)\<lparr>bump_entries := fs\<rparr>" p] es by simp
  then have "all_refs c (client_refs v) = (\<lambda>p. ?G p + count_list (map fst es) p)" by (simp add: all_refs_def fun_eq_iff)
  then obtain c1 where b: "lru_bump_entries es c = Some c1" "mc_inv hash c1 L (crawlers v) ?G (owned v)" "calm (held L ?G) c c1"
    using lru_bump_entries_inv [of hash c L "crawlers v" ?G es] i(1) by auto
  note k = calmD [OF b(3)]
  let ?c = "upd_bump j (\<lambda>y. y\<lparr>bump_entries := drop (length es) (bump_entries y)\<rparr>) c1"
  have e: "bump_bufs ?c = ?bs" using k(4) es by (simp add: upd_bump_def)
  have "all_refs ?c (client_refs v) = ?G" unfolding all_refs_def e ..
  moreover have "mc_inv hash ?c L (crawlers v) ?G (owned v)" using b(2) by (simp add: upd_bump_def)
  ultimately have "cache_inv hash ?c v L" using k(1,3) by (intro cache_invI [OF inv]) (simp_all add: upd_bump_def)
  then have "next_ok hash c v L {} ?c v L" using k(5) by (simp add: next_ok_def held_def upd_bump_def)
  then show ?thesis using b(1) k(4) by simp
qed

lemma step_bump_buffers:
  assumes "cache_inv hash c v L" "set js \<subseteq> {..< length (bump_bufs c)}"
  shows "\<exists>b c'. lru_bump_buffers peek js d c = Some (b, c') \<and> next_ok hash c v L {} c' v L"
  using assms
proof (induction js arbitrary: c d)
  case Nil
  then show ?case by (simp add: next_ok_def)
next
  case (Cons j js)
  let ?es = "take (peek j) (bump_entries (bump_bufs c ! j))"
  show ?case
  proof (cases "?es = []")
    case True
    then have e: "lru_bump_buffers peek (j # js) d c = lru_bump_buffers peek js d c" by simp
    show ?thesis unfolding e by (rule Cons.IH) (use Cons.prems in auto)
  next
    case False
    let ?f = "\<lambda>y. y\<lparr>bump_entries := drop (length ?es) (bump_entries y)\<rparr>"
    obtain c1 where b: "lru_bump_entries ?es c = Some c1" "next_ok hash c v L {} (upd_bump j ?f c1) v L"
        "length (bump_bufs c1) = length (bump_bufs c)"
      using step_bump_buffer [OF Cons.prems(1), of j ?es "drop (peek j) (bump_entries (bump_bufs c ! j))"] Cons.prems(2) by auto
    have inv1: "cache_inv hash (upd_bump j ?f c1) v L" using b(2) by (simp add: next_ok_def)
    obtain b' c' where r: "lru_bump_buffers peek js True (upd_bump j ?f c1) = Some (b', c')" "next_ok hash (upd_bump j ?f c1) v L {} c' v L"
      using Cons.IH [OF inv1, of True] Cons.prems(2) b(3) by (auto simp: upd_bump_def)
    have "lru_bump_buffers peek (j # js) d c = Some (b', c')" using False b(1) r(1) by (simp add: Let_def)
    then show ?thesis using next_ok_trans [OF b(2) r(2)] by blast
  qed
qed

lemma step_bumps:
  assumes inv: "cache_inv hash c v L"
  shows "\<exists>b c'. lru_maintainer_bumps peek c = Some (b, c') \<and> next_ok hash c v L {} c' v L"
  unfolding lru_maintainer_bumps_def by (rule step_bump_buffers [OF inv]) auto

section \<open>Hash table expansion, clock, crawlers\<close>

lemma assoc_move_loop_fields:
  assumes "assoc_move_loop hash it m a = Some (m', a')"
  shows "(m' q)\<lparr>h_next := NULL\<rparr> = (m q)\<lparr>h_next := NULL\<rparr>"
proof -
  have "\<forall>q. (fst r q)\<lparr>h_next := NULL\<rparr> = (m q)\<lparr>h_next := NULL\<rparr>" if "assoc_move_loop hash it m a = Some r" for r
    using that
  proof (rule assoc_move_loop.raw_induct [rotated])
    fix loop :: "hash_fn \<Rightarrow> ptr \<Rightarrow> heap \<Rightarrow> assoc \<Rightarrow> (heap \<times> assoc) option" and hash it m a y
    assume IH: "\<And>hash it m a y. loop hash it m a = Some y \<Longrightarrow> \<forall>q. (fst y q)\<lparr>h_next := NULL\<rparr> = (m q)\<lparr>h_next := NULL\<rparr>"
      and run: "(if it = NULL then Some (m, a)
        else let nxt = h_next (m it);
                 bucket = unat (ucast (hash (ITEM_key (m it)) (unat (nkey (m it)))) AND hashmask (hashpower a))
             in loop hash nxt (hupd it (h_next_update (\<lambda>_. primary_hashtable a ! bucket)) m)
                  (a\<lparr>primary_hashtable := (primary_hashtable a)[bucket := it]\<rparr>)) = Some y"
    show "\<forall>q. (fst y q)\<lparr>h_next := NULL\<rparr> = (m q)\<lparr>h_next := NULL\<rparr>"
    proof (cases "it = NULL")
      case True
      then show ?thesis using run by auto
    next
      case False
      from IH [OF run [unfolded if_not_P [OF False] Let_def]] show ?thesis by (simp add: hupd_apply)
    qed
  qed
  from this [OF assms] show ?thesis by simp
qed

lemma assoc_bulk_move_fields:
  "assoc_bulk_move hash ls m a = Some (m', a') \<Longrightarrow> (m' q)\<lparr>h_next := NULL\<rparr> = (m q)\<lparr>h_next := NULL\<rparr>"
proof (induction ls arbitrary: m a)
  case (Cons l ls)
  show ?case
  proof (cases "expanding a \<and> l")
    case True
    then obtain m1 a1 where mv: "assoc_move_bucket hash m a = Some (m1, a1)" "assoc_bulk_move hash ls m1 a1 = Some (m', a')"
      using Cons.prems by (auto split: option.splits)
    then obtain a2 where "assoc_move_loop hash (old_hashtable a ! unat (expand_bucket a)) m a = Some (m1, a2)"
      by (auto simp: assoc_move_bucket_def Let_def split: option.splits if_splits)
    then show ?thesis using Cons.IH [OF mv(2)] assoc_move_loop_fields by metis
  next
    case False
    then show ?thesis using Cons by (auto split: if_splits)
  qed
qed simp

lemma step_expand:
  assumes inv: "cache_inv hash c v L" and hp: "hashpower (ht c) + 1 < 64"
  shows "\<exists>m' a'. assoc_maintenance_round hash locks do_run calloc_ok (mem c) (ht c) = Some (m', a') \<and>
     next_ok hash c v L {} (c\<lparr>mem := m', ht := a'\<rparr>) v L"
proof -
  note i = cache_invD [OF inv]
  note rep = i(1) [unfolded mc_inv_rep]
  obtain m' a' where r: "assoc_maintenance_round hash locks do_run calloc_ok (mem c) (ht c) = Some (m', a')" "assoc_rep hash m' a' L"
    using assoc_maintenance_round_correct [OF mc_repD(2) [OF rep] hp] by metis
  have g: "(m' q)\<lparr>h_next := NULL\<rparr> = (mem c q)\<lparr>h_next := NULL\<rparr>" for q
    using r(1) assoc_bulk_move_fields by (auto simp: assoc_maintenance_round_def split: option.splits)
  have l: "L \<subseteq> {p. 0 < refs_of L (all_refs c (client_refs v)) p}" by (auto simp: refs_of_def)
  note m = mc_rep_rehash [OF rep g r(2) l]
  have "next_ok hash c v L {} (c\<lparr>mem := m', ht := a'\<rparr>) v L"
    by (rule next_okI [OF inv m(1) [folded mc_inv_rep] kept_calm [OF m(2), of UNIV]]) auto
  then show ?thesis using r(1) by blast
qed

lemma step_rewrite:
  assumes inv: "cache_inv hash c v L" and p: "0 < client_refs v p" and f: "client_rewrite f"
  shows "next_ok hash c v L {p} (upd_item p f c) v L"
proof -
  have "mc_inv hash (upd_item p f c) L (crawlers v) (all_refs c (client_refs v)) (owned v)"
    by (rule mc_inv_write [OF cache_invD(1) [OF inv] client_held(1) [OF p]]) (use f in \<open>simp_all add: client_rewrite_def\<close>)
  then show ?thesis by (rule next_okI [OF inv _ kept_calm [OF kept_upd_item [of p "- {p}"]]]) auto
qed

lemma step_book:
  assumes "cache_inv hash c v L"
  shows "next_ok hash c v L {} (c\<lparr>cas_id := w, stats_sizes_hist := h\<rparr>) v L"
  using assms by (simp add: next_ok_def cache_inv_def mc_inv_rep all_refs_def [abs_def])

lemma step_fill:
  assumes inv: "cache_inv hash c v L" and p: "0 < client_refs v p" "\<not> has_flag ITEM_LINKED (mem c p)" and w: "client_write f"
  shows "next_ok hash c v L {p} (upd_item p f c) v L"
proof -
  note i = cache_invD [OF inv]
  have pL: "p \<notin> L" using mc_inv_item(5) [OF i(1) client_held(1) [OF p(1)]] p(2) by simp
  have "mc_inv hash (upd_item p f c) L (crawlers v) (all_refs c (client_refs v)) (owned v)"
    unfolding mc_inv_rep
    by (rule mc_rep_write_private [OF i(1) [unfolded mc_inv_rep]])
      (use pL p client_held(2) [OF p(1), of c] mc_inv_item(3,4) [OF i(1) client_held(1) [OF p(1)]] w in \<open>simp_all add: refs_of_def client_write_def\<close>)
  then show ?thesis by (rule next_okI [OF inv _ kept_calm [OF kept_upd_item [of p "- {p}"]]]) auto
qed

lemma mc_inv_clock:
  "mc_inv hash (c\<lparr>current_time := t\<rparr>) L K G A = mc_inv hash c L K G A"
  by (simp add: mc_inv_def mc_rep_def lru_ok_def counted_def)

lemma slab_inv_settings: "slab_page_size st' = slab_page_size st \<Longrightarrow> slab_inv st' m s U A = slab_inv st m s U A"
  by (simp add: slab_inv_def slabs_rep_def classes_ok_def memory_of_def spare_regions_def)

lemma mc_inv_flush:
  "mc_inv hash (c\<lparr>cfg := (cfg c)\<lparr>oldest_live := t, oldest_cas := w\<rparr>\<rparr>) L K G A = mc_inv hash c L K G A"
  using slab_inv_settings [of "(cfg c)\<lparr>oldest_live := t, oldest_cas := w\<rparr>" "cfg c"]
  by (simp add: mc_inv_def mc_rep_def lru_ok_def counted_def)

lemma step_clock:
  assumes "cache_inv hash c v L"
  shows "next_ok hash c v L {} (c\<lparr>current_time := t\<rparr>) v L"
    "next_ok hash c v L {} (c\<lparr>cfg := (cfg c)\<lparr>oldest_live := t, oldest_cas := w\<rparr>\<rparr>) v L"
  using assms all_refs_cong [of "c\<lparr>current_time := t\<rparr>" c] all_refs_cong [of "c\<lparr>cfg := (cfg c)\<lparr>oldest_live := t, oldest_cas := w\<rparr>\<rparr>" c]
  by (simp_all add: next_ok_def cache_inv_def mc_inv_clock mc_inv_flush)

lemma next_ok_requeue:
  assumes inv: "cache_inv hash c v L" and ok: "lru_ok c L (crawlers v) Q" and fr: "lru_frame S c c'"
    and S: "S \<inter> owned v \<subseteq> held L (all_refs c (client_refs v))" and q: "lru_ok c' L K' Q'" and K': "K' \<inter> owned v = {}"
  shows "next_ok hash c v L T c' (v\<lparr>crawlers := K'\<rparr>) L"
proof -
  note m = mc_inv_requeue [OF cache_invD(1) [OF inv] ok fr S q K']
  show ?thesis by (rule next_okI [OF inv _ kept_calm [OF conjunct2 [OF m]]]) (use m in auto)
qed

lemma cache_inv_queues:
  assumes "cache_inv hash c v L"
  obtains Q where "lru_ok c L (crawlers v) Q" "crawlers v \<inter> owned v = {}"
    "(L \<union> crawlers v) \<inter> owned v \<subseteq> held L (all_refs c (client_refs v))"
  using mc_repD(1,6) [OF cache_invD(1) [OF assms, unfolded mc_inv_rep]] queued_held [OF cache_invD(1) [OF assms]] by blast

lemma step_crawl_start:
  assumes inv: "cache_inv hash c v L" and k: "k \<notin> owned v" "k \<notin> crawlers v" "k \<noteq> NULL"
  shows "\<exists>c'. do_item_linktail_q k (upd_item k (\<lambda>_. crawler_item i) c) = Some c' \<and>
     next_ok hash c v L {k} c' (v\<lparr>crawlers := insert k (crawlers v)\<rparr>) L"
proof -
  let ?c = "upd_item k (\<lambda>_. crawler_item i) c"
  note w = mc_inv_write_foreign [OF cache_invD(1) [OF inv] k(1,2), of "\<lambda>_. crawler_item i"]
  have n0: "next_ok hash c v L {k} ?c v L" by (rule next_okI [OF inv w(1) kept_calm [OF w(2)]]) auto
  then have inv1: "cache_inv hash ?c v L" by (simp add: next_ok_def)
  obtain Q where Q: "lru_ok ?c L (crawlers v) Q" "crawlers v \<inter> owned v = {}"
      "(L \<union> crawlers v) \<inter> owned v \<subseteq> held L (all_refs ?c (client_refs v))" by (rule cache_inv_queues [OF inv1])
  have "L \<subseteq> owned v" using mc_rep_item(2) [OF cache_invD(1) [OF inv, unfolded mc_inv_rep]] by (auto simp: refs_of_pos)
  then have kn: "k \<notin> L \<union> crawlers v" using k by auto
  have "is_crawler (mem ?c k)" by (simp add: is_crawler_def crawler_item_def zero_item_def)
  from do_item_linktail_q_ok [OF Q(1) k(3) kn this] obtain c' Q' where
    l: "do_item_linktail_q k ?c = Some c'" "lru_ok c' L (insert k (crawlers v)) Q'" "lru_frame (insert k (L \<union> crawlers v)) ?c c'" by blast
  have "next_ok hash ?c v L {k} c' (v\<lparr>crawlers := insert k (crawlers v)\<rparr>) L"
    by (rule next_ok_requeue [OF inv1 Q(1) l(3) _ l(2)]) (use Q(2,3) k(1) in auto)
  then have "next_ok hash c v L {k} c' (v\<lparr>crawlers := insert k (crawlers v)\<rparr>) L"
    using n0 unfolding next_ok_def by auto
  then show ?thesis using l(1) by blast
qed

lemma step_crawl_stop:
  assumes inv: "cache_inv hash c v L" and k: "k \<in> crawlers v"
  shows "\<exists>c'. do_item_unlinktail_q k c = Some c' \<and> next_ok hash c v L {k} c' (v\<lparr>crawlers := crawlers v - {k}\<rparr>) L"
proof -
  obtain Q where Q: "lru_ok c L (crawlers v) Q" "crawlers v \<inter> owned v = {}"
      "(L \<union> crawlers v) \<inter> owned v \<subseteq> held L (all_refs c (client_refs v))" by (rule cache_inv_queues [OF inv])
  obtain c' Q' where u: "do_item_unlinktail_q k c = Some c'" "lru_ok c' L (crawlers v - {k}) Q'" "lru_frame (L \<union> crawlers v) c c'"
    using do_item_unlinktail_q_ok [OF Q(1) k] by blast
  have "next_ok hash c v L {k} c' (v\<lparr>crawlers := crawlers v - {k}\<rparr>) L"
    by (rule next_ok_requeue [OF inv Q(1) u(3) Q(3) u(2)]) (use Q(2) in auto)
  then show ?thesis using u(1) by blast
qed

lemma step_crawl:
  assumes inv: "cache_inv hash c v L" and k: "k \<in> crawlers v"
  shows "\<exists>r c'. do_item_crawl_q k c = Some (r, c') \<and>
     next_ok hash c v L {k} c' (if r = NULL \<and> it_next (mem c k) \<noteq> NULL then v\<lparr>crawlers := crawlers v - {k}\<rparr> else v) L"
proof -
  obtain Q where Q: "lru_ok c L (crawlers v) Q" "crawlers v \<inter> owned v = {}"
      "(L \<union> crawlers v) \<inter> owned v \<subseteq> held L (all_refs c (client_refs v))" by (rule cache_inv_queues [OF inv])
  let ?i = "slabs_clsid (mem c k)"
  have "k \<in> set (Q ?i)" using lru_ok_in [OF Q(1)] k by blast
  then obtain ys zs where s: "Q ?i = ys @ k # zs" by (meson split_list)
  show ?thesis
  proof (cases ys rule: rev_cases)
    case Nil
    then have s0: "Q ?i = k # zs" using s by simp
    obtain c' where e: "do_item_crawl_q k c = Some (NULL, c')" "lru_frame (L \<union> crawlers v) c c'"
        "if zs = [] then c' = c else lru_ok c' L (crawlers v - {k}) (Q(?i := zs))"
      using do_item_crawl_q_end [OF Q(1) k s0] by blast
    have n: "it_next (mem c k) = (if zs = [] then NULL else hd zs)"
      using item_queue_neighbours(1) [of "mem c" _ _ "[]" k zs] lru_okD(1) [OF Q(1), of ?i] s0 by auto
    have "hd zs \<noteq> NULL" if "zs \<noteq> []"
      using item_queue_nonnull [OF lru_okD(1) [OF Q(1), of ?i]] s0 that by (metis hd_in_set list.set_intros(2))
    then have nz: "it_next (mem c k) \<noteq> NULL \<longleftrightarrow> zs \<noteq> []" using n by simp
    show ?thesis
    proof (cases "zs = []")
      case True
      then have "next_ok hash c v L {k} c' v L" using e(3) inv by (auto simp: next_ok_def)
      then show ?thesis using e(1) nz True by (intro exI [of _ NULL] exI [of _ c']) simp
    next
      case False
      then have q: "lru_ok c' L (crawlers v - {k}) (Q(?i := zs))" using e(3) by simp
      have "next_ok hash c v L {k} c' (v\<lparr>crawlers := crawlers v - {k}\<rparr>) L"
        by (rule next_ok_requeue [OF inv Q(1) e(2) Q(3) q]) (use Q(2) in auto)
      then show ?thesis using e(1) nz False by (intro exI [of _ NULL] exI [of _ c']) simp
    qed
  next
    case (snoc ys' b)
    then have s1: "Q ?i = ys' @ b # k # zs" using s by simp
    obtain c' where e: "do_item_crawl_q k c = Some (b, c')" "lru_ok c' L (crawlers v) (Q(?i := ys' @ k # b # zs))"
        "lru_frame (L \<union> crawlers v) c c'"
      using do_item_crawl_q_swap [OF Q(1) k s1] by blast
    have bn: "b \<noteq> NULL" using item_queue_nonnull [OF lru_okD(1) [OF Q(1), of ?i]] s1 by auto
    have "next_ok hash c v L {k} c' (v\<lparr>crawlers := crawlers v\<rparr>) L" by (rule next_ok_requeue [OF inv Q(1) e(3) Q(3) e(2) Q(2)])
    then show ?thesis using e(1) bn by (intro exI [of _ b] exI [of _ c']) simp
  qed
qed

section \<open>Reachable states\<close>

lemma cache_start_inv:
  assumes "cache_start hash c" shows "cache_inv hash c empty_view {}"
proof -
  have s: "slab_inv (cfg c) (mem c) (sl c) {} {}" using assms by (intro slab_inv_init) (simp add: cache_start_def)
  have "lru_ok c {} {} (\<lambda>_. [])" using assms by (simp add: lru_ok_def cache_start_def)
  then have "mc_rep hash c {} {} {} {} (refs_of {} (\<lambda>_. 0)) {}"
    using assms s unfolding mc_rep_def by (auto simp: cache_start_def live_def refs_of_def refs_ok_def counted_def)
  moreover have "all_refs c (\<lambda>_. 0) = (\<lambda>_. 0)" 
    using assms by (simp add: all_refs_def cache_start_def fun_eq_iff pending_def sum_list_eq_0_iff)
  ultimately show ?thesis using assms by (simp add: cache_inv_def empty_view_def mc_inv_rep cache_start_def)
qed

lemma cache_step_ok:
  assumes st: "cache_step hash c v T c' v'" and inv: "cache_inv hash c v L"
  shows "\<exists>L'. next_ok hash c v L T c' v' L'"
  using st
proof cases
  case (link p)
  have "cache_map hash c (ITEM_key (mem c p)) = None"
    using link(8) key_ok_length [OF link(6)] by (simp add: cache_map_def item_hash_def)
  from step_link [OF inv link(3-7) this] link show ?thesis by auto
next
  case (unlink p)
  show ?thesis
  proof (cases "p \<in> L")
    case True
    then show ?thesis using step_unlink [OF inv True] unlink by auto
  next
    case False
    then have "\<not> has_flag ITEM_LINKED (mem c p)"
      using mc_inv_item(5) [OF cache_invD(1) [OF inv] client_held(1)] unlink by auto
    then show ?thesis using unlink inv by (auto simp: do_item_unlink_def next_ok_def)
  qed
next
  case (replace p n)
  have "p \<in> L" using mc_inv_item(5) [OF cache_invD(1) [OF inv] client_held(1) [OF replace(4)]] replace(5) by simp
  from step_replace [OF inv replace(3) this replace(6-10)] replace show ?thesis by auto
next
  case (update p)
  from step_update [OF inv update(3)] update obtain "next_ok hash c v L {} c' v L" by auto
  then show ?thesis using update by (auto simp: next_ok_def)
next
  case (alloc env key nk fl nb exp it)
  from step_alloc [OF inv alloc(3-7), of exp] alloc show ?thesis by auto
next
  case (remove p)
  then show ?thesis using step_remove [OF inv, of p] by auto
next
  case (get bump_ok key nk do_update it)
  then show ?thesis using step_get [OF inv, of bump_ok key nk do_update] by (auto simp: get_ok_def)
next
  case (touch bump_ok key nk exp it)
  then show ?thesis using step_touch [OF inv, of bump_ok key nk exp] by auto
next
  case (pull flags lk rl orig_id cur_lru total_bytes max_age n ret)
  then show ?thesis using step_pull [OF inv, of flags lk rl orig_id cur_lru total_bytes max_age] by auto
next
  case (bumps peek b)
  then show ?thesis using step_bumps [OF inv, of peek] by auto
next
  case (expand locks do_run calloc_ok m' a')
  then show ?thesis using step_expand [OF inv, of locks do_run calloc_ok] by auto
next
  case (crawl_start k i)
  then show ?thesis using step_crawl_start [OF inv, of k i] by auto
next
  case (crawl k r)
  then show ?thesis using step_crawl [OF inv, of k] by auto
next
  case (crawl_stop k)
  then show ?thesis using step_crawl_stop [OF inv, of k] by auto
next
  case flush
  then show ?thesis using step_clock(2) [OF inv] by (intro exI [of _ L]) simp
next
  case (fill p f)
  then show ?thesis using step_fill [OF inv, of p f] by (intro exI [of _ L]) simp
next
  case (rewrite p f)
  then show ?thesis using step_rewrite [OF inv, of p f] by (intro exI [of _ L]) simp
next
  case (book w h)
  then show ?thesis using step_book [OF inv, of w h] by (intro exI [of _ L]) simp
next
  case (tick t)
  then show ?thesis using step_clock(1) [OF inv, of t] by (intro exI [of _ L]) simp
qed

lemma cache_reach_inv: "cache_reach hash c v \<Longrightarrow> \<exists>L. cache_inv hash c v L"
proof (induction rule: cache_reach.induct)
  case (start c)
  then show ?case using cache_start_inv by blast
next
  case (step c v T c' v')
  then show ?case using cache_step_ok [OF step.hyps(2)] unfolding next_ok_def by blast
qed

end
