(* ===== verification/Cache_Sample.thy ===== *)
theory Cache_Sample
  imports Cache
begin

text \<open>
  A small cache to evaluate the definitions on: one slab class of 96-byte chunks, pages of 200 bytes, a hash table
  of two buckets. One item with the key \<open>k\<close> is allocated, linked and still referenced.
\<close>

definition sample_cache :: mc where
  "sample_cache = \<lparr>mem = (\<lambda>_. zero_item),
     ht = \<lparr>hashpower = 1, primary_hashtable = [NULL, NULL], old_hashtable = [], expanding = False, expand_bucket = 0,
           hash_power_level = 1, hash_bytes = 16, hash_is_expanding = False\<rparr>,
     sl = sample_slabs,
     rebal = \<lparr>slab_start = NULL, slab_end = NULL, slab_pos = NULL, s_clsid = 0, d_clsid = 0, busy_items = 0, rescues = 0,
              evictions_nomem = 0, inline_reclaim = 0, chunk_rescues = 0, busy_deletes = 0, busy_loops = 0, rebal_done = 0,
              completed = [], slab_rebalance_signal = 0, pick_cur = 0\<rparr>,
     cfg = sample_slab_settings, current_time = 10, heads = (\<lambda>_. NULL), tails = (\<lambda>_. NULL), lru_sizes = (\<lambda>_. 0),
     sizes_bytes = (\<lambda>_. 0),
     itemstats = (\<lambda>_. \<lparr>evicted = 0, evicted_nonzero = 0, reclaimed = 0, outofmemory = 0, tailrepairs = 0, expired_unfetched = 0,
              evicted_unfetched = 0, evicted_active = 0, crawler_reclaimed = 0, crawler_items_checked = 0, lrutail_reflocked = 0,
              moves_to_cold = 0, moves_to_warm = 0, moves_within_lru = 0, direct_reclaims = 0, evicted_time = 0\<rparr>),
     stats_sizes_hist = None, stats_sizes_cas_min = 0, cas_id = 0, curr_bytes = 0, curr_items = 0, total_items = 0,
     get_flushed = 0, get_expired = 0, bump_bufs = [\<lparr>bump_entries = [], dropped = 0\<rparr>]\<rparr>"

definition zero_hash :: hash_fn where
  "zero_hash key n = 0"

definition sample_pulls :: "nat \<Rightarrow> pull_env" where
  "sample_pulls t = \<lparr>pe_lock = (\<lambda>_ _ _. True), pe_reassign = (\<lambda>_. True),
     pe_alloc = \<lparr>realloc_ok = True, malloc_ret = 1000 + 1000 * t\<rparr>\<rparr>"

lemma sample_cache_fields [simp]:
  "mem sample_cache = (\<lambda>_. zero_item)" "sl sample_cache = sample_slabs" "cfg sample_cache = sample_slab_settings"
  "bump_bufs sample_cache = [\<lparr>bump_entries = [], dropped = 0\<rparr>]" "current_time sample_cache = 10" "cas_id sample_cache = 0"
  by (simp_all add: sample_cache_def)

lemma sample_cfg [simp]:
  "tail_repair_time sample_slab_settings = 0" "slab_chunk_size_max sample_slab_settings = 96" "slab_page_size sample_slab_settings = 200"
  "lru_segmented sample_slab_settings" "use_cas sample_slab_settings" "oldest_live sample_slab_settings = 0"
  "item_size_max sample_slab_settings = 1048576"
  by (simp_all add: sample_slab_settings_def sample_settings_def)

lemma sample_start: "cache_start zero_hash sample_cache"
proof -
  have "assoc_rep zero_hash (mem sample_cache) (ht sample_cache) {}"
    by (auto simp: assoc_rep_def assoc_shape_def sample_cache_def less_Suc_eq numeral_2_eq_2 elim!: valid_slot.elims(2))
  moreover have "slabs_fresh (cfg sample_cache) (sl sample_cache)" using sample_slabs_fresh by simp
  ultimately show ?thesis unfolding cache_start_def by (auto simp: sample_slabclass) (auto simp: sample_cache_def sample_slabclass)
qed

lemma sample_slab_alloc:
  "\<exists>m' s'. do_slabs_alloc sample_slab_settings (pe_alloc (sample_pulls 0)) 62 1 0 (\<lambda>_. zero_item) sample_slabs = Some (1096, m', s')"
  by (simp add: slab_run_defs sample_slabclass sample_slab_settings_def sample_settings_def split_two sample_pulls_def)

lemma sample_size: "item_total_size sample_slab_settings 1 0 4 = 62"
  by (simp add: item_total_size_def item_make_header_def sizeof_item_def)

lemma sample_class: "slabs_clsid_for sample_slab_settings sample_slabs 62 = 1"
  unfolding slabs_clsid_for_def by (subst slabs_clsid_loop.simps) (simp add: sample_slabclass mk_class_def)

lemma do_item_alloc_address:
  assumes "do_item_alloc hash env key nk fl exp nb c = Some (it, c')"
    and "do_item_alloc_pull hash env (item_total_size (cfg c) nk fl nb)
           (of_nat (slabs_clsid_for (cfg c) (sl c) (item_total_size (cfg c) nk fl nb))) c = Some (p, c1)"
    and "slabs_clsid_for (cfg c) (sl c) (item_total_size (cfg c) nk fl nb) \<noteq> 0" "2 \<le> nb" "p \<noteq> NULL"
    "item_total_size (cfg c) nk fl nb \<le> slab_chunk_size_max (cfg c)"
  shows "it = p"
  using assms by (auto simp: do_item_alloc_def Let_def not_less split: if_splits)

lemma sample_pull: "\<exists>c. do_item_alloc_pull zero_hash sample_pulls 62 1 sample_cache = Some (1096, c)"
proof -
  obtain m' s' where a: "do_slabs_alloc sample_slab_settings (pe_alloc (sample_pulls 0)) 62 1 0 (\<lambda>_. zero_item) sample_slabs = Some (1096, m', s')"
    using sample_slab_alloc by blast
  have ten: "(10 :: nat) = Suc 9" by simp
  have l: "do_item_alloc_pull_loop zero_hash sample_pulls 10 62 1 0 sample_cache = Some (1096, 0, sample_cache\<lparr>mem := m', sl := s'\<rparr>)"
    using a unfolding ten do_item_alloc_pull_loop.simps by (simp add: Let_def)
  show ?thesis by (simp add: do_item_alloc_pull_def l)
qed

lemma sample_region: "turn_region sample_slab_settings sample_pulls t = {1000 + 1000 * t ..< 1200 + 1000 * t}"
  by (simp add: turn_region_def malloc_region_def region_def sample_pulls_def)

lemma sample_env: "env_fresh sample_slab_settings sample_pulls 0 {}"
  unfolding env_fresh_def sample_region by auto

lemma sample_start_inv: "cache_inv zero_hash sample_cache empty_view {}" "few_refs sample_cache empty_view"
  using cache_start_inv [OF sample_start] by (simp_all add: few_refs_def all_refs_def empty_view_def pending_def)

text \<open>The item just allocated, and the same item once linked.\<close>

lemma sample_fresh:
  "\<exists>c v. cache_reach zero_hash c v \<and> cache_inv zero_hash c v {} \<and> few_refs c v \<and> client_refs v = (\<lambda>_. 0)(1096 := 1) \<and>
     bump_bufs c = [\<lparr>bump_entries = [], dropped = 0\<rparr>] \<and> cfg c = sample_slab_settings \<and> \<not> has_flag ITEM_LINKED (mem c 1096) \<and> new_item sample_slab_settings [107] 0 0 4 (mem c 1096) \<and> cache_map zero_hash c = Map.empty \<and>
     do_item_alloc zero_hash sample_pulls [107] 1 0 0 4 sample_cache = Some (1096, c)"
proof -
  let ?B = "owned empty_view \<union> obtained (cfg sample_cache) sample_pulls 0 10"
  obtain it c L' where a: "do_item_alloc zero_hash sample_pulls [107] 1 0 0 4 sample_cache = Some (it, c)" "L' \<subseteq> {}"
      "next_ok zero_hash sample_cache empty_view {} {it} c (take_ref it (empty_view\<lparr>owned := ?B\<rparr>)) L'"
      "it \<noteq> NULL \<longrightarrow> it \<notin> L' \<and> client_refs empty_view it = 0 \<and> new_item sample_slab_settings [107] 0 0 4 (mem c it)"
    using step_alloc [OF sample_start_inv, of sample_pulls "[107]" 1 0 4 0] sample_env sample_size
    by (auto simp: empty_view_def)
  obtain c1 where p: "do_item_alloc_pull zero_hash sample_pulls 62 1 sample_cache = Some (1096, c1)" using sample_pull by blast
  have it: "it = 1096" by (rule do_item_alloc_address [OF a(1)]) (use p in \<open>simp_all add: sample_size [simplified] sample_class\<close>)
  let ?v = "take_ref 1096 (empty_view\<lparr>owned := ?B\<rparr>)"
  have L: "L' = {}" using a(2) by simp
  have inv: "cache_inv zero_hash c ?v {}" using a(3) unfolding next_ok_def it L by simp
  have v: "client_refs ?v = (\<lambda>_. 0)(1096 := 1)" by (simp add: take_ref_def empty_view_def)
  have l: "\<not> has_flag ITEM_LINKED (mem c 1096)"
    using mc_inv_item(5) [OF cache_invD(1) [OF inv] client_held(1)] v by simp
  have "cache_step zero_hash sample_cache empty_view {1096} c ?v"
    by (rule cache_step.alloc) (use a(1) it sample_start_inv(2) sample_env sample_size in \<open>simp_all add: empty_view_def\<close>)
  then have r: "cache_reach zero_hash c ?v" by (rule cache_reach.step [OF cache_reach.start [OF sample_start]])
  have "cache_map zero_hash c = Map.empty" using cache_map_Some [OF inv] by (metis empty_iff ext not_Some_eq)
  moreover have "bump_bufs c = [\<lparr>bump_entries = [], dropped = 0\<rparr>] \<and> cfg c = sample_slab_settings"
    using step_alloc_locked [OF sample_start_inv, of sample_pulls "[107]" 1 0 4 "{}" "{}" 0] a(1) sample_env sample_size
    by (auto simp: empty_view_def)
  moreover from this have "few_refs c ?v" using v by (simp add: few_refs_def all_refs_def pending_def)
  ultimately show ?thesis using r inv v l a(1,4) it by (intro exI [of _ c] exI [of _ ?v]) simp
qed

lemma sample_linked:
  "\<exists>c v. cache_reach zero_hash c v \<and> cache_inv zero_hash c v {1096} \<and> few_refs c v \<and> client_refs v = (\<lambda>_. 0)(1096 := 1) \<and>
     has_flag ITEM_LINKED (mem c 1096) \<and> ITEM_key (mem c 1096) = [107] \<and> exptime (mem c 1096) = 0 \<and> nbytes (mem c 1096) = 4 \<and>
     key_ok (mem c 1096) \<and> cfg c = sample_slab_settings \<and> bump_bufs c = [\<lparr>bump_entries = [], dropped = 0\<rparr>]"
proof -
  obtain c v where f: "cache_reach zero_hash c v" "cache_inv zero_hash c v {}" "few_refs c v" "client_refs v = (\<lambda>_. 0)(1096 := 1)"
     "\<not> has_flag ITEM_LINKED (mem c 1096)" "new_item sample_slab_settings [107] 0 0 4 (mem c 1096)" "cache_map zero_hash c = Map.empty" "bump_bufs c = [\<lparr>bump_entries = [], dropped = 0\<rparr>]"
     "cfg c = sample_slab_settings"
    using sample_fresh by blast
  have n: "key_ok (mem c 1096)" "nbytes (mem c 1096) = 4" "ITEM_key (mem c 1096) = [107]" "exptime (mem c 1096) = 0"
    using f(6) by (simp_all add: new_item_def)
  obtain c' where l: "do_item_link 1096 (item_hash zero_hash (mem c 1096)) c = Some c'"
      "next_ok zero_hash c v {} {1096} c' v (insert 1096 {})" "kept (- {1096}) c c'" "core (mem c' 1096) = core (linked_item c (mem c 1096))"
    using step_link [OF f(2,3), of 1096] f(4,5,7) n by auto
  have find: "assoc_find [107] 1 (zero_hash [107] 1) (mem c) (ht c) = Some NULL" by (rule cache_map_None [OF f(2)]) (simp_all add: f(7))
  have k1: "unat (nkey (mem c 1096)) = 1" using key_ok_length [OF n(1)] n(3) by simp
  then have h: "item_hash zero_hash (mem c 1096) = zero_hash [107] 1" by (simp add: item_hash_def n(3))
  have r: "cache_reach zero_hash c' v"
    by (rule cache_reach.step [OF f(1) cache_step.link [OF f(3) _ f(5) n(1) _ _ l(1)]]) (use f(4) n find k1 h in simp_all)
  note cf = core_fields [OF l(4)]
  have b: "cfg c' = sample_slab_settings" "bump_bufs c' = [\<lparr>bump_entries = [], dropped = 0\<rparr>]" using l(3) f(8,9) by (simp_all add: kept_def)
  have i: "cache_inv zero_hash c' v {1096}" using l(2) by (simp add: next_ok_def)
  have lk: "has_flag ITEM_LINKED (mem c' 1096)"
    using mc_inv_item(5) [OF cache_invD(1) [OF i] client_held(1)] f(4) by simp
  have "few_refs c' v" using f(4) b(2) by (simp add: few_refs_def all_refs_def pending_def)
  moreover have "ITEM_key (mem c' 1096) = [107]" "exptime (mem c' 1096) = 0" "nbytes (mem c' 1096) = 4" "key_ok (mem c' 1096)"
    unfolding cf using n by (simp_all add: linked_item_def ITEM_set_cas_def set_flag_def ITEM_key_def key_ok_def)
  ultimately show ?thesis using r i f(4) lk b by (intro exI [of _ c'] exI [of _ v]) simp
qed

end
