(* ===== verification/Cache_Spec.thy ===== *)
theory Cache_Spec
  imports Cache_Sample
begin

text \<open>
  How the steps of the cache act on the map a client sees: the lemmas behind the properties of the root theory.
\<close>

lemma next_ok_map:
  assumes inv: "cache_inv hash c v L" and n: "next_ok hash c v L T c' v' L'"
  shows "p \<in> L' - T \<Longrightarrow> content (mem c' p) = content (mem c p)" "cache_inv hash c' v' L'"
  using n unfolding next_ok_def by simp_all

lemma cache_find:
  assumes inv: "cache_inv hash c v L" and nk: "length key = nk"
  obtains p where "assoc_find key nk (hash key nk) (mem c) (ht c) = Some p"
    "assoc_abs (mem c) L key = (if p = NULL then None else Some p)" "p \<noteq> NULL \<longrightarrow> p \<in> L \<and> ITEM_key (mem c p) = key"
proof -
  note h = mc_repD(2) [OF cache_inv_mc [OF inv, unfolded mc_inv_rep]]
  let ?p = "case assoc_abs (mem c) L key of None \<Rightarrow> NULL | Some p \<Rightarrow> p"
  have s: "q \<in> L \<and> ITEM_key (mem c q) = key" "q \<noteq> NULL" if "assoc_abs (mem c) L key = Some q" for q
    using that assoc_rep_nonnull [OF h] by (auto simp: assoc_abs_eq_Some [OF assoc_rep_inj [OF h]])
  show ?thesis
  proof (rule that [of ?p])
    show "assoc_find key nk (hash key nk) (mem c) (ht c) = Some ?p" by (rule assoc_find_correct [OF h nk])
  qed (auto split: option.split dest: s)
qed

text \<open>Adding an item under a new key, removing one, and swapping the item of a key.\<close>

lemma cache_map_other:
  assumes inv: "cache_inv hash c v L" "cache_inv hash c' v' L'" and k: "k \<noteq> key"
    and L: "\<And>q. q \<in> L \<Longrightarrow> ITEM_key (mem c q) \<noteq> key \<Longrightarrow> q \<in> L' \<and> content (mem c' q) = content (mem c q)"
    and L': "\<And>q. q \<in> L' \<Longrightarrow> ITEM_key (mem c' q) \<noteq> key \<Longrightarrow> q \<in> L \<and> content (mem c' q) = content (mem c q)"
  shows "cache_map hash c' k = cache_map hash c k"
proof -
  have "cache_map hash c k = Some e" if "cache_map hash c' k = Some e" for e
    using that L' k content_keep unfolding cache_map_Some [OF inv(1)] cache_map_Some [OF inv(2)] by metis
  moreover have "cache_map hash c' k = Some e" if "cache_map hash c k = Some e" for e
    using that L k content_keep unfolding cache_map_Some [OF inv(1)] cache_map_Some [OF inv(2)] by metis
  ultimately show ?thesis by (cases "cache_map hash c k"; cases "cache_map hash c' k") auto
qed

lemma cache_map_absent:
  "cache_inv hash c v L \<Longrightarrow> cache_map hash c key = None \<longleftrightarrow> (\<forall>q\<in>L. ITEM_key (mem c q) \<noteq> key)"
  using cache_map_Some [of hash c v L key] by (metis not_Some_eq)

lemma cache_keys_distinct:
  assumes "cache_inv hash c v L" "p \<in> L" "q \<in> L" "ITEM_key (mem c p) = ITEM_key (mem c q)"
  shows "p = q"
  using inj_onD [OF assoc_rep_inj [OF mc_repD(2) [OF cache_inv_mc [OF assms(1), unfolded mc_inv_rep]]]] assms(2-4) by simp

lemma cache_nonnull: "cache_inv hash c v L \<Longrightarrow> p \<in> L \<Longrightarrow> p \<noteq> NULL"
  by (rule assoc_rep_nonnull [OF mc_repD(2) [OF cache_inv_mc [unfolded mc_inv_rep]]])

lemma cache_map_insert:
  assumes inv: "cache_inv hash c v L" and n: "next_ok hash c v L {p} c' v' (insert p L)"
    and p: "ITEM_key (mem c' p) = key" "p \<notin> L"
  shows "cache_map hash c' = (cache_map hash c)(key \<mapsto> entry (mem c' p))"
proof
  fix k
  note m = next_ok_map [OF inv n]
  have e: "content (mem c' q) = content (mem c q)" if "q \<in> L" for q using m(1) [of q] p(2) that by auto
  show "cache_map hash c' k = ((cache_map hash c)(key \<mapsto> entry (mem c' p))) k"
  proof (cases "k = key")
    case True
    then show ?thesis using p(1) cache_map_Some [OF m(2)] by simp
  next
    case False
    then have "cache_map hash c' k = cache_map hash c k" by (rule cache_map_other [OF inv m(2)]) (use e p in auto)
    then show ?thesis using False by simp
  qed
qed

lemma cache_map_delete:
  assumes inv: "cache_inv hash c v L" and n: "next_ok hash c v L T c' v' (L - {p})" and T: "T \<subseteq> {p, NULL}"
    and p: "p \<in> L" "ITEM_key (mem c p) = key"
  shows "cache_map hash c' = (cache_map hash c)(key := None)"
proof
  fix k
  note m = next_ok_map [OF inv n]
  have e: "content (mem c' q) = content (mem c q)" if "q \<in> L - {p}" for q
    using m(1) [of q] T cache_nonnull [OF inv, of q] that by auto
  have nokey: "ITEM_key (mem c q) \<noteq> key" if "q \<in> L - {p}" for q using cache_keys_distinct [OF inv p(1), of q] p(2) that by auto
  show "cache_map hash c' k = ((cache_map hash c)(key := None)) k"
  proof (cases "k = key")
    case True
    have "cache_map hash c' key = None" unfolding cache_map_absent [OF m(2)] using nokey content_fields(8) [OF e] by simp
    then show ?thesis using True by simp
  next
    case False
    then have "cache_map hash c' k = cache_map hash c k" by (rule cache_map_other [OF inv m(2)]) (use e p in auto)
    then show ?thesis using False by simp
  qed
qed

lemma cache_map_swap:
  assumes inv: "cache_inv hash c v L" and n: "next_ok hash c v L {p, n} c' v' (insert n (L - {p}))"
    and p: "p \<in> L" "ITEM_key (mem c p) = key" "ITEM_key (mem c' n) = key" "n \<notin> L"
  shows "cache_map hash c' = (cache_map hash c)(key \<mapsto> entry (mem c' n))"
proof
  fix k
  note m = next_ok_map [OF inv n]
  have e: "content (mem c' q) = content (mem c q)" if "q \<in> L - {p}" for q using m(1) [of q] p(4) that by auto
  show "cache_map hash c' k = ((cache_map hash c)(key \<mapsto> entry (mem c' n))) k"
  proof (cases "k = key")
    case True
    then show ?thesis using p(3) cache_map_Some [OF m(2)] by simp
  next
    case False
    then have "cache_map hash c' k = cache_map hash c k" by (rule cache_map_other [OF inv m(2)]) (use e p in auto)
    then show ?thesis using False by simp
  qed
qed

text \<open>The entry of an item just linked: what was filled in, under a fresh CAS value.\<close>

definition stored_entry :: "mc \<Rightarrow> item \<Rightarrow> byte list \<times> int \<times> byte list \<times> u32 \<times> u32 \<times> u64" where
  "stored_entry c x = (ITEM_key x, nbytes x, take (nat (nbytes x)) (data_value x), (if has_flag ITEM_CFLAGS x then data_suffix x else 0), exptime x,
     (if has_flag ITEM_CAS x then if use_cas (cfg c) then cas_id c + 1 else 0 else 0))"

lemma linked_stored: "core y = core (linked_item c x) \<Longrightarrow> entry y = stored_entry c x"
proof -
  assume "core y = core (linked_item c x)"
  then have "entry y = entry (linked_item c x)" by (intro entry_content content_core)
  moreover have "has_flag ITEM_CAS (set_flag ITEM_LINKED x) = has_flag ITEM_CAS x"
    "has_flag ITEM_CFLAGS (set_flag ITEM_LINKED x) = has_flag ITEM_CFLAGS x"
    by (rule has_flag_set_other; simp)+
  moreover from this have "entry (linked_item c x) = stored_entry c x"
    by (cases "it_flags x AND ITEM_CAS = 0")
      (simp_all add: entry_def linked_item_def stored_entry_def ITEM_key_def ITEM_get_cas_def ITEM_set_cas_def has_flag_def)
  ultimately show ?thesis by simp
qed

end
