(* ===== verification/Itoa.thy ===== *)
theory Itoa
  imports Prelude "HOL-Library.Monad_Syntax"
begin

text \<open>
  Printing integers (\<^verbatim>\<open>itoa_ljust.c\<close>): two digits at a time from a table, by a fall-through switch on the number of
  digits left. The buffer is the list of bytes written so far; the closing NUL byte is not part of it. Reading behind the
  table is \<open>None\<close>. Every function prints the usual decimal digits.
\<close>

unbundle bit_operations_syntax

section \<open>The code\<close>

definition bytes :: "string \<Rightarrow> byte list" where
  "bytes s = map of_char s"

definition lut :: "byte list" where
  "lut = bytes (''0001020304050607080910111213141516171819'' @
                ''2021222324252627282930313233343536373839'' @
                ''4041424344454647484950515253545556575859'' @
                ''6061626364656667686970717273747576777879'' @
                ''8081828384858687888990919293949596979899'')"

definition out2 :: "u32 \<Rightarrow> byte list \<Rightarrow> byte list option" where
  "out2 d p = (if 2 * unat d + 1 < length lut then Some (p @ [lut ! (2 * unat d), lut ! (2 * unat d + 1)]) else None)"

definition out1 :: "byte \<Rightarrow> byte list \<Rightarrow> byte list" where
  "out1 ch p = p @ [ch]"

text \<open>The digits left to print, the leading digit and the buffer, when \<open>u\<close> has an odd number of digits.\<close>

definition digits :: "u32 \<Rightarrow> u32 \<Rightarrow> u32 \<Rightarrow> byte list \<Rightarrow> nat \<Rightarrow> nat \<times> u32 \<times> byte list" where
  "digits u k d p n = (if u < k * 10 then let d = u div k in (n - 1, d, out1 (48 + ucast d) p) else (n, d, p))"

definition itoa :: "u32 \<Rightarrow> byte list \<Rightarrow> u32 \<Rightarrow> nat \<Rightarrow> byte list option" where
  "itoa u p d n = do {
     let d = (if n = 10 then u div 100000000 else d);
     p \<leftarrow> (if n = 10 then out2 d p else Some p);
     let u = (if n \<ge> 9 then u - d * 100000000 else u);
     let d = (if n \<ge> 8 then u div 1000000 else d);
     p \<leftarrow> (if n \<ge> 8 then out2 d p else Some p);
     let u = (if n \<ge> 7 then u - d * 1000000 else u);
     let d = (if n \<ge> 6 then u div 10000 else d);
     p \<leftarrow> (if n \<ge> 6 then out2 d p else Some p);
     let u = (if n \<ge> 5 then u - d * 10000 else u);
     let d = (if n \<ge> 4 then u div 100 else d);
     p \<leftarrow> (if n \<ge> 4 then out2 d p else Some p);
     let u = (if n \<ge> 3 then u - d * 100 else u);
     let d = (if n \<ge> 2 then u div 1 else d);
     if n \<ge> 2 then out2 d p else Some p }"

definition itoa_u32 :: "u32 \<Rightarrow> byte list \<Rightarrow> byte list option" where
  "itoa_u32 u p =
     (let (n, d, p) = (if u \<ge> 100000000 then digits u 100000000 0 p 10
                       else if u < 100 then digits u 1 0 p 2
                       else if u < 10000 then digits u 100 0 p 4
                       else if u < 1000000 then digits u 10000 0 p 6
                       else digits u 1000000 0 p 8)
      in itoa u p d n)"

definition itoa_32 :: "32 word \<Rightarrow> byte list \<Rightarrow> byte list option" where
  "itoa_32 i p = (if sint i < 0 then itoa_u32 (- i) (p @ [45]) else itoa_u32 i p)"

function itoa_u64 :: "u64 \<Rightarrow> byte list \<Rightarrow> byte list option" where
  "itoa_u64 u p =
     (let lower = (ucast u :: u32)
      in if ucast lower = u then itoa_u32 lower p
         else do {
           let upper = u div 1000000000;
           p \<leftarrow> itoa_u64 upper p;
           let lower = (ucast (u - upper * 1000000000) :: u32);
           let d = lower div 100000000;
           itoa lower (out1 (48 + ucast d) p) d 9 })"
  by pat_completeness auto
termination
proof (relation "measure (\<lambda>(u, p). unat u)", simp, clarsimp simp: unat_div)
  fix u :: u64
  assume "ucast (ucast u :: u32) \<noteq> u"
  then have "unat u \<noteq> 0" by (metis ucast_0 unat_eq_zero)
  then show "unat u div 1000000000 < unat u" by simp
qed

declare itoa_u64.simps [simp del]

definition itoa_64 :: "64 word \<Rightarrow> byte list \<Rightarrow> byte list option" where
  "itoa_64 i p = (if sint i < 0 then itoa_u64 (- i) (p @ [45]) else itoa_u64 i p)"

section \<open>Decimal digits\<close>

fun dec :: "nat \<Rightarrow> byte list" where
  "dec n = (if n < 10 then [48 + of_nat n] else dec (n div 10) @ [48 + of_nat (n mod 10)])"

declare dec.simps [simp del]

text \<open>The last \<open>k\<close> digits.\<close>

fun pad :: "nat \<Rightarrow> nat \<Rightarrow> byte list" where
  "pad 0 n = []"
| "pad (Suc k) n = pad k (n div 10) @ [48 + of_nat (n mod 10)]"

lemma pad_add: "pad (a + b) n = pad a (n div 10 ^ b) @ pad b (n mod 10 ^ b)"
proof (induction b arbitrary: n)
  case (Suc b)
  have "n mod 10 ^ Suc b div 10 = n div 10 mod 10 ^ b" "n mod 10 ^ Suc b mod 10 = n mod 10"
    by (simp_all add: mod_mult2_eq)
  then show ?case using Suc [of "n div 10"] by (simp add: div_mult2_eq)
qed simp

lemma dec_pad: "10 ^ k \<le> n \<Longrightarrow> n < 10 ^ Suc k \<Longrightarrow> dec n = pad (Suc k) n"
proof (induction k arbitrary: n)
  case 0
  then show ?case by (simp add: dec.simps [of n])
next
  case (Suc k)
  have "10 ^ k * 10 \<le> n" "n < 10 ^ Suc k * 10" using Suc.prems by (simp_all add: mult.commute)
  then have "10 ^ k \<le> n div 10" "n div 10 < 10 ^ Suc k"
    by (simp add: less_eq_div_iff_mult_less_eq, simp add: div_less_iff_less_mult)
  moreover have "1 \<le> (10 :: nat) ^ k" by simp
  then have "10 \<le> n" using Suc.prems(1) unfolding power_Suc by linarith
  ultimately have "10 ^ k \<le> n div 10" "n div 10 < 10 ^ Suc k" "10 \<le> n" by simp_all
  then show ?case using Suc.IH [of "n div 10"] by (simp add: dec.simps [of n])
qed

definition pair :: "nat \<Rightarrow> nat list" where
  "pair d = [48 + d div 10, 48 + d mod 10]"

lemma bytes_codes: "bytes s = map of_nat (map (of_char :: char \<Rightarrow> nat) s)"
  by (simp add: bytes_def of_nat_of_char)

lemma bytes_append: "bytes (s @ t) = bytes s @ bytes t"
  by (simp add: bytes_def)

lemma lut_codes:
  "map (of_char :: char \<Rightarrow> nat) ''0001020304050607080910111213141516171819'' = concat (map pair [0 ..< 20])"
  "map (of_char :: char \<Rightarrow> nat) ''2021222324252627282930313233343536373839'' = concat (map pair [20 ..< 40])"
  "map (of_char :: char \<Rightarrow> nat) ''4041424344454647484950515253545556575859'' = concat (map pair [40 ..< 60])"
  "map (of_char :: char \<Rightarrow> nat) ''6061626364656667686970717273747576777879'' = concat (map pair [60 ..< 80])"
  "map (of_char :: char \<Rightarrow> nat) ''8081828384858687888990919293949596979899'' = concat (map pair [80 ..< 100])"
  by (simp add: pair_def upt_conv_Cons)+

lemma lut_pairs: "lut = map of_nat (concat (map pair [0 ..< 100]))"
proof -
  have "[0 ..< 100] = [0 ..< 20] @ [20 ..< 40] @ [40 ..< 60] @ [60 ..< 80] @ [80 ..< 100 :: nat]"
    by (simp add: upt_conv_Cons)
  then show ?thesis unfolding lut_def bytes_append bytes_codes by (simp only: map_append concat_append lut_codes)
qed

lemma concat_pairs:
  "length (concat (map pair [0 ..< n])) = 2 * n"
  "d < n \<Longrightarrow> concat (map pair [0 ..< n]) ! (2 * d) = 48 + d div 10"
  "d < n \<Longrightarrow> concat (map pair [0 ..< n]) ! (2 * d + 1) = 48 + d mod 10"
proof -
  show l: "length (concat (map pair [0 ..< n])) = 2 * n" for n by (induction n) (simp_all add: pair_def)
  show "d < n \<Longrightarrow> concat (map pair [0 ..< n]) ! (2 * d) = 48 + d div 10"
    "d < n \<Longrightarrow> concat (map pair [0 ..< n]) ! (2 * d + 1) = 48 + d mod 10"
    by (induction n) (auto simp: nth_append l pair_def less_Suc_eq)
qed

lemma pad_two: "n < 100 \<Longrightarrow> pad 2 n = [48 + of_nat (n div 10), 48 + of_nat (n mod 10)]"
  by (simp add: numeral_2_eq_2)

lemma out2_pad:
  assumes "unat d < 100" shows "out2 d p = Some (p @ pad 2 (unat d))"
proof -
  have "lut ! (2 * unat d) = 48 + of_nat (unat d div 10)" "lut ! (2 * unat d + 1) = 48 + of_nat (unat d mod 10)"
    using assms unfolding lut_pairs by (simp_all only: nth_map concat_pairs of_nat_add of_nat_numeral)
  moreover have "length lut = 200" by (simp add: lut_pairs concat_pairs)
  ultimately show ?thesis using assms by (simp add: out2_def pad_two)
qed

section \<open>Fixed numbers of digits\<close>

text \<open>The switch, entered at an even number of digits, and at an odd one after the leading digit \<open>u div 10 ^ (n - 1)\<close>.\<close>

lemma itoa_even:
  "itoa u p d 2 = out2 u p"
  "itoa u p d 4 = out2 (u div 100) p \<bind> (\<lambda>p. itoa (u mod 100) p 0 2)"
  "itoa u p d 6 = out2 (u div 10000) p \<bind> (\<lambda>p. itoa (u mod 10000) p 0 4)"
  "itoa u p d 8 = out2 (u div 1000000) p \<bind> (\<lambda>p. itoa (u mod 1000000) p 0 6)"
  "itoa u p d 10 = out2 (u div 100000000) p \<bind> (\<lambda>p. itoa (u mod 100000000) p 0 8)"
  by (simp_all add: itoa_def minus_div_mult_eq_mod Let_def cong: option.case_cong)

lemma itoa_odd:
  "itoa u p d 1 = Some p"
  "itoa u p (u div 100) 3 = itoa (u mod 100) p 0 2"
  "itoa u p (u div 10000) 5 = itoa (u mod 10000) p 0 4"
  "itoa u p (u div 1000000) 7 = itoa (u mod 1000000) p 0 6"
  "itoa u p (u div 100000000) 9 = itoa (u mod 100000000) p 0 8"
  by (simp_all add: itoa_def minus_div_mult_eq_mod Let_def)

lemma out2_then:
  assumes "unat u < 100 * unat K" "K \<noteq> 0" "\<And>p. g p = Some (p @ pad n (unat u mod unat K))" "unat K = 10 ^ n" "m = 2 + n"
  shows "out2 (u div K) p \<bind> g = Some (p @ pad m (unat u))"
proof -
  have "unat (u div K) = unat u div unat K" by (simp add: unat_div)
  moreover have "unat u div unat K < 100" using assms(1,2) by (simp add: less_mult_imp_div_less)
  ultimately show ?thesis using assms(3-5) pad_add [of 2 n "unat u"] by (simp add: out2_pad)
qed

lemma itoa_pad:
  "unat u < 10 ^ 2 \<Longrightarrow> itoa u p d 2 = Some (p @ pad 2 (unat u))"
  "unat u < 10 ^ 4 \<Longrightarrow> itoa u p d 4 = Some (p @ pad 4 (unat u))"
  "unat u < 10 ^ 6 \<Longrightarrow> itoa u p d 6 = Some (p @ pad 6 (unat u))"
  "unat u < 10 ^ 8 \<Longrightarrow> itoa u p d 8 = Some (p @ pad 8 (unat u))"
  "itoa u p d 10 = Some (p @ pad 10 (unat u))"
proof -
  show i2: "unat u < 10 ^ 2 \<Longrightarrow> itoa u p d 2 = Some (p @ pad 2 (unat u))" for u p d
    by (simp add: itoa_even out2_pad)
  show i4: "unat u < 10 ^ 4 \<Longrightarrow> itoa u p d 4 = Some (p @ pad 4 (unat u))" for u p d
    unfolding itoa_even(2) by (rule out2_then [where n = 2]) (simp_all add: i2 unat_mod)
  show i6: "unat u < 10 ^ 6 \<Longrightarrow> itoa u p d 6 = Some (p @ pad 6 (unat u))" for u p d
    unfolding itoa_even(3) by (rule out2_then [where n = 4]) (simp_all add: i4 unat_mod)
  show i8: "unat u < 10 ^ 8 \<Longrightarrow> itoa u p d 8 = Some (p @ pad 8 (unat u))" for u p d
    unfolding itoa_even(4) by (rule out2_then [where n = 6]) (simp_all add: i6 unat_mod)
  have "unat u < 2 ^ 32" using unsigned_less [of u] by simp
  then show "itoa u p d 10 = Some (p @ pad 10 (unat u))"
    unfolding itoa_even(5) by (intro out2_then [where n = 8]) (simp_all add: i8 unat_mod)
qed

section \<open>Whole numbers\<close>

lemma dec_length:
  assumes "n < 10 ^ Suc k" "k = 0 \<or> 10 ^ k \<le> n" shows "dec n = pad (Suc k) n"
proof (cases "k = 0")
  case True
  then show ?thesis using assms(1) by (simp add: dec.simps [of n])
qed (use assms dec_pad in blast)

text \<open>One arm of the dispatch in \<open>itoa_u32\<close>: numbers of \<open>j + 1\<close> or \<open>j + 2\<close> digits.\<close>

lemma itoa_digits:
  assumes k: "unat k = 10 ^ j" "unat (k * 10) = 10 ^ Suc j" "k \<noteq> 0" and u: "j = 0 \<or> 10 ^ j \<le> unat u" "unat u < 10 ^ Suc (Suc j)"
    and n: "n = j + 2" and odd: "\<And>q. itoa u q (u div k) (n - 1) = Some (q @ pad j (unat u mod 10 ^ j))"
    and even: "\<And>q. itoa u q 0 n = Some (q @ pad n (unat u))"
  shows "(case digits u k 0 p n of (n, d, p) \<Rightarrow> itoa u p d n) = Some (p @ dec (unat u))"
proof (cases "u < k * 10")
  case True
  then have s: "unat u < 10 ^ Suc j" using k(2) by (simp add: word_less_nat_alt)
  then have "unat u div 10 ^ j < 10" by (simp add: div_less_iff_less_mult mult.commute)
  moreover have "unat (u div k) = unat u div 10 ^ j" using k(1) by (simp add: unat_div)
  then have "(ucast (u div k) :: byte) = of_nat (unat u div 10 ^ j)" by (metis of_nat_unat)
  ultimately have "[48 + ucast (u div k)] = pad 1 (unat u div 10 ^ j)" by simp
  then have "[48 + ucast (u div k)] @ pad j (unat u mod 10 ^ j) = pad (Suc j) (unat u)" using pad_add [of 1 j "unat u"] by simp
  then show ?thesis using True odd n dec_length [OF s u(1)] by (simp add: digits_def out1_def Let_def)
next
  case False
  then have "10 ^ Suc j \<le> unat u" using k(2) by (simp add: word_less_nat_alt not_less)
  then show ?thesis using False even n dec_length [OF u(2)] by (simp add: digits_def)
qed

lemma itoa_u32_dec: "itoa_u32 u p = Some (p @ dec (unat u))"
proof -
  have m: "unat u < 2 ^ 32" using unsigned_less [of u] by simp
  let ?r = "\<lambda>x. (case x of (n, d, p) \<Rightarrow> itoa u p d n) = Some (p @ dec (unat u))"
  have d2: "unat u < 10 ^ 2 \<Longrightarrow> ?r (digits u 1 0 p 2)"
    by (rule itoa_digits [where j = 0]) (use m in \<open>simp_all add: itoa_odd(1) [simplified] itoa_pad(1) unat_mod\<close>)
  have d4: "unat u < 10 ^ 4 \<Longrightarrow> 10 ^ 2 \<le> unat u \<Longrightarrow> ?r (digits u 100 0 p 4)"
    by (rule itoa_digits [where j = 2]) (use m in \<open>simp_all add: itoa_odd(2) itoa_pad(1,2) unat_mod\<close>)
  have d6: "unat u < 10 ^ 6 \<Longrightarrow> 10 ^ 4 \<le> unat u \<Longrightarrow> ?r (digits u 10000 0 p 6)"
    by (rule itoa_digits [where j = 4]) (use m in \<open>simp_all add: itoa_odd(3) itoa_pad(2,3) unat_mod\<close>)
  have d8: "unat u < 10 ^ 8 \<Longrightarrow> 10 ^ 6 \<le> unat u \<Longrightarrow> ?r (digits u 1000000 0 p 8)"
    by (rule itoa_digits [where j = 6]) (use m in \<open>simp_all add: itoa_odd(4) itoa_pad(3,4) unat_mod\<close>)
  have d10: "10 ^ 8 \<le> unat u \<Longrightarrow> ?r (digits u 100000000 0 p 10)"
    by (rule itoa_digits [where j = 8]) (use m in \<open>simp_all add: itoa_odd(5) itoa_pad(4,5) unat_mod\<close>)
  consider "10 ^ 8 \<le> unat u" | "unat u < 10 ^ 2" | "10 ^ 2 \<le> unat u" "unat u < 10 ^ 4" | "10 ^ 4 \<le> unat u" "unat u < 10 ^ 6"
    | "10 ^ 6 \<le> unat u" "unat u < 10 ^ 8" by linarith
  then show ?thesis
  proof cases
    case 1
    then show ?thesis using d10 [OF 1] by (simp add: itoa_u32_def word_le_nat_alt word_less_nat_alt)
  next
    case 2
    then show ?thesis using d2 [OF 2] by (simp add: itoa_u32_def word_le_nat_alt word_less_nat_alt)
  next
    case 3
    then show ?thesis using d4 [OF 3(2,1)] by (simp add: itoa_u32_def word_le_nat_alt word_less_nat_alt)
  next
    case 4
    then show ?thesis using d6 [OF 4(2,1)] by (simp add: itoa_u32_def word_le_nat_alt word_less_nat_alt)
  next
    case 5
    then show ?thesis using d8 [OF 5(2,1)] by (simp add: itoa_u32_def word_le_nat_alt word_less_nat_alt)
  qed
qed

lemma dec_split:
  assumes "0 < n div 10 ^ k" shows "dec n = dec (n div 10 ^ k) @ pad k (n mod 10 ^ k)"
  using assms
proof (induction k arbitrary: n)
  case (Suc k)
  have e: "n div 10 ^ Suc k = n div 10 div 10 ^ k" by (simp add: div_mult2_eq)
  then have "dec (n div 10) = dec (n div 10 ^ Suc k) @ pad k (n div 10 mod 10 ^ k)" using Suc.IH [of "n div 10"] Suc.prems by simp
  moreover have "10 \<le> n" using Suc.prems unfolding e by (cases "n < 10") simp_all
  ultimately show ?case using mod_mult2_eq [of n 10 "10 ^ k"] by (simp add: dec.simps [of n])
qed simp

lemma unat_ucast_u64: "unat (ucast (v :: u32) :: u64) = unat v"
  using unsigned_less [of v] by (simp add: unsigned_ucast_eq take_bit_nat_eq_self)

lemma itoa_nine:
  assumes "unat l < 10 ^ 9"
  shows "itoa l (out1 (48 + ucast (l div 100000000)) p) (l div 100000000) 9 = Some (p @ pad 9 (unat l))"
proof -
  have d: "unat l div 10 ^ 8 < 10" using assms by (simp add: div_less_iff_less_mult)
  have e: "unat (l div 100000000) = unat l div 10 ^ 8" by (simp add: unat_div)
  have "(ucast (l div 100000000) :: byte) = of_nat (unat l div 10 ^ 8)" by (simp only: e [symmetric] of_nat_unat)
  then have "[48 + ucast (l div 100000000)] = pad 1 (unat l div 10 ^ 8)" using d by simp
  then have "[48 + ucast (l div 100000000)] @ pad 8 (unat l mod 10 ^ 8) = pad 9 (unat l)" using pad_add [of 1 8 "unat l"] by simp
  moreover have "itoa l q (l div 100000000) 9 = Some (q @ pad 8 (unat l mod 10 ^ 8))" for q
    using itoa_odd(5) itoa_pad(4) [of "l mod 100000000" q 0] by (simp add: unat_mod)
  ultimately show ?thesis by (simp add: out1_def)
qed

lemma low_nine:
  fixes u :: u64 assumes "unat u mod 10 ^ 9 < 2 ^ 32"
  shows "unat (ucast (u mod 1000000000) :: u32) = unat u mod 10 ^ 9"
proof -
  have "unat (ucast (u mod 1000000000) :: u32) = take_bit 32 (unat u mod 10 ^ 9)" by (simp only: unsigned_ucast_eq unat_mod) simp
  then show ?thesis using assms by (simp only: take_bit_nat_eq_self)
qed

lemma itoa_u64_dec: "itoa_u64 u p = Some (p @ dec (unat u))"
proof (induction u p rule: itoa_u64.induct)
  case (1 u p)
  show ?case
  proof (cases "ucast (ucast u :: u32) = u")
    case True
    then have "unat (ucast u :: u32) = unat u" using unat_ucast_u64 [of "ucast u"] by (simp only:)
    then show ?thesis using True by (subst itoa_u64.simps) (simp only: Let_def if_True itoa_u32_dec simp_thms)
  next
    case False
    let ?b = "u div 1000000000" and ?l = "ucast (u mod 1000000000) :: u32"
    have "unat u mod 10 ^ 9 < 10 ^ 9" by simp
    then have "unat u mod 10 ^ 9 < 2 ^ 32" by (rule less_trans) simp
    then have l: "unat ?l = unat u mod 10 ^ 9" by (rule low_nine)
    have "2 ^ 32 \<le> unat u"
    proof (rule ccontr)
      assume "\<not> 2 ^ 32 \<le> unat u"
      then have "unat (ucast u :: u32) = unat u" by (simp add: unsigned_ucast_eq take_bit_nat_eq_self)
      then have "unat (ucast (ucast u :: u32) :: u64) = unat u" unfolding unat_ucast_u64 .
      then have "ucast (ucast u :: u32) = u" by (rule unsigned_word_eqI)
      then show False using False by (rule notE [rotated])
    qed
    then have b: "0 < unat u div 10 ^ 9" by (simp add: div_greater_zero_iff)
    define low where "low = ?l"
    have "unat low < 10 ^ 9" unfolding low_def l by simp
    note nine = itoa_nine [OF this]
    have "itoa_u64 u p = (itoa_u64 ?b p \<bind> (\<lambda>p. itoa low (out1 (48 + ucast (low div 100000000)) p) (low div 100000000) 9))"
      unfolding low_def using False by (subst itoa_u64.simps) (simp only: Let_def minus_div_mult_eq_mod if_False)
    also have "itoa_u64 ?b p = Some (p @ dec (unat u div 10 ^ 9))" using "1.IH" [OF refl False refl] by (simp only: unat_div) simp
    also have "Some (p @ dec (unat u div 10 ^ 9)) \<bind> (\<lambda>p. itoa low (out1 (48 + ucast (low div 100000000)) p) (low div 100000000) 9)
        = Some (p @ dec (unat u div 10 ^ 9) @ pad 9 (unat low))" by (simp add: nine)
    also have "pad 9 (unat low) = pad 9 (unat u mod 10 ^ 9)" unfolding low_def l ..
    finally show ?thesis unfolding dec_split [OF b] .
  qed
qed

section \<open>Signed numbers\<close>

lemma unat_minus_sint:
  fixes i :: "'a :: len word"
  assumes "sint i < 0" shows "unat (- i) = nat (- sint i)"
proof -
  have "uint (- i) = take_bit LENGTH('a) (- sint i)"
    using uint_word_arith_bintrs(4) [of i] unfolding uint_sint [of i] take_bit_minus .
  moreover have "- sint i \<le> 2 ^ (LENGTH('a) - 1)" using sint_ge [of i] by simp
  then have "- sint i < 2 ^ LENGTH('a)" by (rule le_less_trans) (simp add: power_strict_increasing)
  ultimately show ?thesis using assms by (simp add: take_bit_int_eq_self unat_eq_nat_uint)
qed

lemma unat_sint: "0 \<le> sint (i :: 'a :: len word) \<Longrightarrow> unat i = nat (sint i)"
proof -
  assume i: "0 \<le> sint i"
  have "sint i < 2 ^ LENGTH('a)" by (rule less_trans [OF sint_lt]) (simp add: power_strict_increasing)
  then show ?thesis using i by (simp add: unat_eq_nat_uint uint_sint take_bit_int_eq_self)
qed

text \<open>C23: All four printing functions return (they never read behind the two-digit table) and append exactly the decimal digits of the number, with
  a minus sign first for negative ones, for every 32-bit and 64-bit value, the most negative ones included.\<close>

theorem itoa_prints_decimal:
  "itoa_u32 u p = Some (p @ dec (unat u)) \<and> itoa_u64 v p = Some (p @ dec (unat v)) \<and>
   itoa_32 i p = Some (p @ (if sint i < 0 then [45] else []) @ dec (nat \<bar>sint i\<bar>)) \<and>
   itoa_64 j p = Some (p @ (if sint j < 0 then [45] else []) @ dec (nat \<bar>sint j\<bar>))"
  using unat_minus_sint [of i] unat_minus_sint [of j] unat_sint [of i] unat_sint [of j]
  by (auto simp: itoa_u32_dec itoa_u64_dec itoa_32_def itoa_64_def)

end
