(* ===== verification/Util.thy ===== *)
theory Util
  imports Itoa
begin

text \<open>
  The helpers of \<^verbatim>\<open>util.c\<close>: parsing numbers on top of the C library's \<open>strto*\<close> functions, URI encoding, string copy, constant-time
  comparison, byte order. A pointer to characters is the list of bytes from there on; the end of the list reads as the NUL byte.
\<close>

section \<open>The C library\<close>

definition isspace :: "byte \<Rightarrow> bool" where
  "isspace b \<longleftrightarrow> b = 32 \<or> (9 \<le> b \<and> b \<le> 13)"

definition isdigit :: "byte \<Rightarrow> bool" where
  "isdigit b \<longleftrightarrow> 48 \<le> b \<and> b \<le> 57"

definition isalnum :: "byte \<Rightarrow> bool" where
  "isalnum b \<longleftrightarrow> isdigit b \<or> (65 \<le> b \<and> b \<le> 90) \<or> (97 \<le> b \<and> b \<le> 122)"

text \<open>The value of a digit, 36 and more if it is none.\<close>

definition digit_value :: "byte \<Rightarrow> nat" where
  "digit_value b = (if isdigit b then unat b - 48 else if 65 \<le> b \<and> b \<le> 90 then unat b - 55
                    else if 97 \<le> b \<and> b \<le> 122 then unat b - 87 else 36)"

definition char_at :: "byte list \<Rightarrow> byte" where
  "char_at s = (case s of [] \<Rightarrow> 0 | b # _ \<Rightarrow> b)"

fun strto_digits :: "nat \<Rightarrow> nat \<Rightarrow> byte list \<Rightarrow> nat \<times> byte list" where
  "strto_digits base acc [] = (acc, [])"
| "strto_digits base acc (b # s) =
     (if digit_value b < base then strto_digits base (base * acc + digit_value b) s else (acc, b # s))"

text \<open>
  Sign, magnitude and the rest of the input (\<open>endptr\<close>) of the subject sequence of \<open>strtol\<close> and its relatives: white space, an optional
  sign, for base 16 an optional \<^verbatim>\<open>0x\<close>, digits. Without digits the rest is the whole input.
\<close>

definition strto_parse :: "nat \<Rightarrow> byte list \<Rightarrow> bool \<times> nat \<times> byte list" where
  "strto_parse base str =
     (let s = dropWhile isspace str;
          neg = (char_at s = 45);
          s1 = (if char_at s = 45 \<or> char_at s = 43 then tl s else s);
          s2 = (if base = 16 \<and> char_at s1 = 48 \<and> (char_at (tl s1) = 120 \<or> char_at (tl s1) = 88) \<and> digit_value (char_at (tl (tl s1))) < 16
                then drop 2 s1 else s1);
          (n, rest) = strto_digits base 0 s2
      in if rest = s2 then (False, 0, str) else (neg, n, rest))"

text \<open>The value, \<open>endptr\<close>, and whether \<open>errno\<close> is \<open>ERANGE\<close>. \<open>unsigned long\<close> has 64 bits.\<close>

definition strtoull :: "nat \<Rightarrow> byte list \<Rightarrow> u64 \<times> byte list \<times> bool" where
  "strtoull base str = (case strto_parse base str of (neg, n, rest) \<Rightarrow>
     if n \<ge> 2 ^ 64 then (- 1, rest, True) else (if neg then - of_nat n else of_nat n, rest, False))"

definition strtoll :: "byte list \<Rightarrow> int \<times> byte list \<times> bool" where
  "strtoll str = (case strto_parse 10 str of (neg, n, rest) \<Rightarrow>
     if neg then (if n > 2 ^ 63 then (- (2 ^ 63), rest, True) else (- int n, rest, False))
     else if n \<ge> 2 ^ 63 then (2 ^ 63 - 1, rest, True) else (int n, rest, False))"

definition strchr_found :: "byte list \<Rightarrow> byte \<Rightarrow> bool" where
  "strchr_found s b \<longleftrightarrow> b \<in> set (takeWhile (\<lambda>x. x \<noteq> 0) s)"

section \<open>Numbers\<close>

text \<open>\<open>Some out\<close> is the return value true with \<open>*out\<close>.\<close>

definition safe_strtoull_base :: "nat \<Rightarrow> byte list \<Rightarrow> u64 option" where
  "safe_strtoull_base base str = (case strtoull base str of (ull, endptr, erange) \<Rightarrow>
     if erange \<or> endptr = str then None
     else if isspace (char_at endptr) \<or> (char_at endptr = 0 \<and> endptr \<noteq> str)
     then (if sint ull < 0 \<and> strchr_found str 45 then None else Some ull)
     else None)"

definition safe_strtoull :: "byte list \<Rightarrow> u64 option" where
  "safe_strtoull str = safe_strtoull_base 10 str"

definition safe_strtoull_hex :: "byte list \<Rightarrow> u64 option" where
  "safe_strtoull_hex str = safe_strtoull_base 16 str"

definition safe_strtoll :: "byte list \<Rightarrow> 64 word option" where
  "safe_strtoll str = (case strtoll str of (ll, endptr, erange) \<Rightarrow>
     if erange \<or> endptr = str then None
     else if isspace (char_at endptr) \<or> (char_at endptr = 0 \<and> endptr \<noteq> str) then Some (of_int ll) else None)"

text \<open>The result of \<open>strtoul\<close> and \<open>strtol\<close> has 64 bits and is truncated to the 32 bits of \<open>*out\<close>.\<close>

definition safe_strtoul :: "byte list \<Rightarrow> u32 option" where
  "safe_strtoul str = (case strtoull 10 str of (l, endptr, erange) \<Rightarrow>
     if erange \<or> endptr = str then None
     else if isspace (char_at endptr) \<or> (char_at endptr = 0 \<and> endptr \<noteq> str)
     then (if sint l < 0 \<and> strchr_found str 45 then None else Some (ucast l))
     else None)"

definition safe_strtol :: "byte list \<Rightarrow> 32 word option" where
  "safe_strtol str = (case strtoll str of (l, endptr, erange) \<Rightarrow>
     if erange \<or> endptr = str then None
     else if isspace (char_at endptr) \<or> (char_at endptr = 0 \<and> endptr \<noteq> str) then Some (of_int l) else None)"

section \<open>Strings\<close>

definition hex_digit :: "nat \<Rightarrow> byte" where
  "hex_digit d = (if d < 10 then 48 + of_nat d else 55 + of_nat d)"

text \<open>The table built by \<open>uriencode_init\<close>: \<open>None\<close> for a byte that stands for itself.\<close>

definition uriencode_map :: "byte \<Rightarrow> byte list option" where
  "uriencode_map x = (if isalnum x \<or> x = 45 \<or> x = 46 \<or> x = 95 \<or> x = 126 then None
                      else Some [37, hex_digit (unat x div 16), hex_digit (unat x mod 16)])"

text \<open>The bytes written to \<open>dst\<close> (without the NUL), and whether they are all.\<close>

fun uriencode_loop :: "byte list \<Rightarrow> byte list \<Rightarrow> nat \<Rightarrow> bool \<times> byte list" where
  "uriencode_loop [] dst dstlen = (True, dst)"
| "uriencode_loop (x # src) dst dstlen =
     (if length dst + 4 > dstlen then (False, dst)
      else uriencode_loop src (dst @ (case uriencode_map x of Some e \<Rightarrow> e | None \<Rightarrow> [x])) dstlen)"

definition uriencode :: "byte list \<Rightarrow> nat \<Rightarrow> bool \<times> byte list" where
  "uriencode src dstlen = uriencode_loop src [] dstlen"

text \<open>\<open>dstmax - 1\<close> is an unsigned subtraction.\<close>

fun safe_strcpy_loop :: "nat \<Rightarrow> byte list \<Rightarrow> byte list \<Rightarrow> byte list \<times> byte list" where
  "safe_strcpy_loop n dst [] = (dst, [])"
| "safe_strcpy_loop n dst (b # src) = (if length dst < n \<and> b \<noteq> 0 then safe_strcpy_loop n (dst @ [b]) src else (dst, b # src))"

definition safe_strcpy :: "byte list \<Rightarrow> u64 \<Rightarrow> bool \<times> byte list" where
  "safe_strcpy src dstmax = (case safe_strcpy_loop (unat (dstmax - 1)) [] src of (dst, rest) \<Rightarrow> (char_at rest = 0, dst))"

fun safe_memcmp_loop :: "u32 \<Rightarrow> byte list \<Rightarrow> byte list \<Rightarrow> u32" where
  "safe_memcmp_loop delta (x # ua) (y # ub) = safe_memcmp_loop (delta OR ucast (x XOR y)) ua ub"
| "safe_memcmp_loop delta _ _ = delta"

definition safe_memcmp :: "byte list \<Rightarrow> byte list \<Rightarrow> nat \<Rightarrow> bool" where
  "safe_memcmp a b len \<longleftrightarrow> safe_memcmp_loop 0 (take len a) (take len b) = 0"

section \<open>Byte order\<close>

fun mc_swap64_loop :: "nat \<Rightarrow> u64 \<Rightarrow> u64 \<Rightarrow> u64" where
  "mc_swap64_loop 0 rv inp = rv"
| "mc_swap64_loop (Suc i) rv inp = mc_swap64_loop i (push_bit 8 rv OR (inp AND 0xff)) (drop_bit 8 inp)"

definition mc_swap64 :: "u64 \<Rightarrow> u64" where
  "mc_swap64 v = mc_swap64_loop 8 0 v"

definition ntohll :: "u64 \<Rightarrow> u64" where "ntohll v = mc_swap64 v"

definition htonll :: "u64 \<Rightarrow> u64" where "htonll v = mc_swap64 v"

section \<open>Parsing what was printed\<close>

lemma unat_sint_neg:
  fixes v :: u64 assumes n: "sint v < 0" shows "2 ^ 63 \<le> unat v"
proof -
  have g: "- (2 ^ 63) \<le> sint v" using sint_ge [of v] by simp
  have "uint v = (sint v + 2 ^ 64) mod 2 ^ 64" unfolding uint_sint [of v] by (simp add: take_bit_eq_mod)
  also have "\<dots> = sint v + 2 ^ 64" using n g by (intro mod_pos_pos_trivial) simp_all
  finally have "2 ^ 63 \<le> uint v" using g by simp
  then have "nat (2 ^ 63) \<le> nat (uint v)" by (rule nat_mono)
  then show ?thesis by (simp add: nat_power_eq)
qed

lemma dec_digit:
  assumes "d < 10" shows "digit_value (48 + of_nat d) = d" "\<not> isspace (48 + of_nat d)" "48 + of_nat d \<noteq> (45 :: byte)" "48 + of_nat d \<noteq> (43 :: byte)"
    "48 + of_nat d \<noteq> (0 :: byte)"
proof -
  have "d \<in> {0, 1, 2, 3, 4, 5, 6, 7, 8, 9}" using assms by auto
  then show "digit_value (48 + of_nat d) = d" "\<not> isspace (48 + of_nat d)" "48 + of_nat d \<noteq> (45 :: byte)" "48 + of_nat d \<noteq> (43 :: byte)"
    "48 + of_nat d \<noteq> (0 :: byte)"
    by (auto simp: digit_value_def isdigit_def isspace_def)
qed

lemma strto_digits_append:
  assumes "\<And>b. b \<in> set ds \<Longrightarrow> digit_value b < base"
  shows "strto_digits base acc (ds @ s) = strto_digits base (fst (strto_digits base acc ds)) s"
  using assms by (induction ds arbitrary: acc) auto

lemma strto_digits_stop: "\<not> digit_value (char_at s) < base \<Longrightarrow> strto_digits base acc s = (acc, s)"
  by (cases s) (auto simp: char_at_def)

lemma dec_digits: "b \<in> set (dec n) \<Longrightarrow> \<exists>d<10. b = 48 + of_nat d"
proof (induction n rule: dec.induct)
  case (1 n)
  show ?case
  proof (cases "n < 10")
    case True
    then show ?thesis using "1.prems" by (auto simp: dec.simps [of n])
  next
    case False
    then have "b \<in> set (dec (n div 10)) \<or> b = 48 + of_nat (n mod 10)" using "1.prems" by (auto simp: dec.simps [of n])
    then show ?thesis
    proof
      assume "b = 48 + of_nat (n mod 10)"
      then show ?thesis by (intro exI [of _ "n mod 10"]) simp
    qed (rule "1.IH" [OF False])
  qed
qed

lemma dec_nonempty: "dec n \<noteq> []"
  by (subst dec.simps) simp

lemma strto_digits_dec: "fst (strto_digits 10 acc (dec n)) = acc * 10 ^ length (dec n) + n"
proof (induction n arbitrary: acc rule: dec.induct)
  case (1 n)
  show ?case
  proof (cases "n < 10")
    case True
    then show ?thesis by (simp add: dec.simps [of n] dec_digit)
  next
    case False
    then have e: "dec n = dec (n div 10) @ [48 + of_nat (n mod 10)]" by (simp add: dec.simps [of n])
    have "digit_value b < 10" if "b \<in> set (dec (n div 10))" for b using dec_digits [OF that] dec_digit(1) by auto
    from strto_digits_append [OF this, of "dec (n div 10)"] show ?thesis
      using 1 [OF False, of acc] unfolding e by (simp add: dec_digit algebra_simps)
  qed
qed

lemma strto_parse_dec:
  assumes "\<not> digit_value (char_at s) < 10"
  shows "strto_parse 10 (dec n @ s) = (False, n, s)"
proof -
  obtain b bs where d: "dec n = b # bs" using dec_nonempty by (cases "dec n") auto
  have all: "digit_value x < 10" "\<not> isspace x" "x \<noteq> 45" "x \<noteq> 43" if "x \<in> set (dec n)" for x
    using dec_digits [OF that] dec_digit by auto
  have b: "\<not> isspace b" "b \<noteq> 45" "b \<noteq> 43" using all [of b] d by simp_all
  have "strto_digits 10 0 (dec n @ s) = (n, s)"
    using strto_digits_append [OF all(1), of "dec n" 0 s] strto_digits_dec [of 0 n] strto_digits_stop [OF assms] by simp
  then show ?thesis using b unfolding strto_parse_def by (simp add: d char_at_def)
qed

text \<open>C24: Reading back what \<open>itoa_u64\<close> printed: for every 64-bit value, the digits followed by white space or the end of the string parse to the
  value. (From 2 to the 63 on this needs that no minus sign stands anywhere in the rest of the string.)\<close>

theorem strtoull_itoa_roundtrip:
  assumes "isspace (char_at s) \<or> char_at s = 0" and "2 ^ 63 \<le> unat v \<longrightarrow> \<not> strchr_found s 45"
  shows "\<exists>out. itoa_u64 v [] = Some out \<and> safe_strtoull (out @ s) = Some v"
proof -
  have nd: "\<not> digit_value (char_at s) < 10"
    using assms(1) by (auto simp: isspace_def digit_value_def isdigit_def word_le_nat_alt)
  have v: "unat v < 2 ^ 64" using unsigned_less [of v] by simp
  have "strtoull 10 (dec (unat v) @ s) = (v, s, False)"
    unfolding strtoull_def strto_parse_dec [OF nd] using v by simp
  moreover have "\<not> strchr_found (dec (unat v) @ s) 45" if "sint v < 0"
  proof -
    have "2 ^ 63 \<le> unat v" using that unat_sint_neg [of v] by simp
    then have "\<not> strchr_found s 45" using assms(2) by simp
    moreover have "b \<noteq> 0 \<and> b \<noteq> 45" if "b \<in> set (dec (unat v))" for b using dec_digits [OF that] dec_digit by auto
    then have "takeWhile (\<lambda>x. x \<noteq> 0) (dec (unat v) @ s) = dec (unat v) @ takeWhile (\<lambda>x. x \<noteq> 0) s"
        "45 \<notin> set (dec (unat v))" by (auto simp: takeWhile_append2)
    ultimately show ?thesis by (simp add: strchr_found_def)
  qed
  ultimately have "safe_strtoull (dec (unat v) @ s) = Some v"
    using assms(1) dec_nonempty [of "unat v"] by (auto simp: safe_strtoull_def safe_strtoull_base_def)
  then show ?thesis using itoa_u64_dec [of v "[]"] by simp
qed

theorem strtoull_itoa_roundtrip_witness:
  "\<exists>out. itoa_u64 42 [] = Some out \<and> safe_strtoull (out @ [13, 10]) = Some 42"
proof -
  have "isspace (char_at [13, 10]) \<or> char_at [13, 10] = 0" "2 ^ 63 \<le> unat (42 :: u64) \<longrightarrow> \<not> strchr_found [13, 10] 45"
    by (simp_all add: isspace_def char_at_def)
  from strtoull_itoa_roundtrip [OF this] show ?thesis .
qed

section \<open>Numbers that are accepted although they do not fit\<close>

lemma strto_parse_minus: "strto_parse 10 (45 # dec n) = (True, n, [])"
proof -
  obtain b bs where d: "dec n = b # bs" using dec_nonempty by (cases "dec n") auto
  have all: "digit_value x < 10" if "x \<in> set (dec n)" for x using dec_digits [OF that] dec_digit by auto
  have "strto_digits 10 0 (dec n) = (n, [])"
    using strto_digits_append [OF all, of "dec n" 0 "[]"] strto_digits_dec [of 0 n] by simp
  then show ?thesis unfolding strto_parse_def by (simp add: d char_at_def isspace_def word_le_nat_alt)
qed

lemma sint_small: "unat v < 2 ^ 63 \<Longrightarrow> \<not> sint (v :: u64) < 0"
  using unat_sint_neg [of v] by linarith

text \<open>C25: The parsers accept numbers that do not fit. \<open>safe_strtoul\<close> takes every number below 2 to the 63 and keeps its low 32 bits;
  \<open>safe_strtoull\<close> takes a negative number below minus 2 to the 63 as its value modulo 2 to the 64 (the sign is only looked for when the
  result has its top bit set).\<close>

theorem safe_strto_wraps:
  assumes "n < 2 ^ 63" and "2 ^ 63 < k" and "k < 2 ^ 64"
  shows "safe_strtoul (dec n) = Some (of_nat n) \<and> safe_strtoull (45 # dec k) = Some (of_nat (2 ^ 64 - k))"
proof
  have n: "unat (of_nat n :: u64) = n" using assms(1) by (simp add: unat_of_nat)
  have "(of_nat (unat (of_nat n :: u64)) :: u32) = ucast (of_nat n :: u64)" by (rule of_nat_unat)
  then have u: "ucast (of_nat n :: u64) = (of_nat n :: u32)" unfolding n by (rule sym)
  have e: "\<not> digit_value (char_at []) < 10" by (simp add: char_at_def digit_value_def isdigit_def word_le_nat_alt)
  have "strtoull 10 (dec n) = (of_nat n, [], False)"
    using assms(1) strto_parse_dec [OF e, of n] by (simp add: strtoull_def)
  moreover have "\<not> sint (of_nat n :: u64) < 0" using sint_small [of "of_nat n"] n assms(1) by simp
  ultimately show "safe_strtoul (dec n) = Some (of_nat n)"
    using dec_nonempty [of n] u by (auto simp: safe_strtoul_def char_at_def)
next
  have "of_nat k + of_nat (2 ^ 64 - k) = (of_nat (k + (2 ^ 64 - k)) :: u64)" by (rule of_nat_add [symmetric])
  also have "k + (2 ^ 64 - k) = 2 ^ 64" using assms(3) by simp
  finally have "of_nat k + of_nat (2 ^ 64 - k) = (0 :: u64)" by simp
  then have w: "- of_nat k = (of_nat (2 ^ 64 - k) :: u64)" by (rule minus_unique)
  have "2 ^ 64 - k < 2 ^ 63" using assms by simp
  then have "unat (of_nat (2 ^ 64 - k) :: u64) < 2 ^ 63" unfolding unat_of_nat by (rule le_less_trans [OF mod_less_eq_dividend])
  then have "\<not> sint (- of_nat k :: u64) < 0" unfolding w by (rule sint_small)
  moreover have "strtoull 10 (45 # dec k) = (- of_nat k, [], False)"
    using assms(3) by (simp add: strtoull_def strto_parse_minus)
  ultimately show "safe_strtoull (45 # dec k) = Some (of_nat (2 ^ 64 - k))"
    unfolding w by (auto simp: safe_strtoull_def safe_strtoull_base_def char_at_def)
qed

theorem safe_strto_wraps_witness:
  "safe_strtoul (dec 4294967296) = Some 0 \<and> safe_strtoull (45 # dec 18446744073709551615) = Some 1"
  using safe_strto_wraps [of 4294967296 18446744073709551615] by simp

section \<open>URI encoding, comparison, byte order\<close>

text \<open>Reading an encoded string.\<close>

definition hex_value :: "byte \<Rightarrow> nat" where
  "hex_value b = digit_value b"

fun uridecode :: "byte list \<Rightarrow> byte list" where
  "uridecode (b # h # l # s) = (if b = 37 then of_nat (16 * hex_value h + hex_value l) # uridecode s else b # uridecode (h # l # s))"
| "uridecode s = s"

lemma unat_hex_digit: "d < 16 \<Longrightarrow> unat (hex_digit d) = (if d < 10 then 48 + d else 55 + d)"
  by (simp add: hex_digit_def unat_word_ariths unat_of_nat)

lemma hex_value_digit: "d < 16 \<Longrightarrow> hex_value (hex_digit d) = d"
  by (simp add: hex_value_def digit_value_def isdigit_def word_le_nat_alt unat_hex_digit)

definition uri_char :: "byte \<Rightarrow> byte list" where
  "uri_char x = (case uriencode_map x of Some e \<Rightarrow> e | None \<Rightarrow> [x])"

lemma uridecode_plain: "b \<noteq> 37 \<Longrightarrow> uridecode (b # s) = b # uridecode s"
  by (cases s; cases "tl s") auto

lemma uridecode_char: "uridecode (uri_char x @ s) = x # uridecode s"
proof (cases "uriencode_map x")
  case None
  then have "x \<noteq> 37" by (auto simp: uriencode_map_def isalnum_def isdigit_def word_le_nat_alt split: if_splits)
  then show ?thesis using None by (simp add: uri_char_def uridecode_plain)
next
  case (Some e)
  have "unat x < 256" using unsigned_less [of x] by simp
  then have "unat x div 16 < 16" by (simp add: div_less_iff_less_mult)
  moreover have "16 * (unat x div 16) + unat x mod 16 = unat x" by simp
  ultimately show ?thesis using Some
    by (auto simp: uri_char_def uriencode_map_def hex_value_digit split: if_splits)
qed

lemma uriencode_loop_Cons:
  "uriencode_loop (x # src) dst n = (if length dst + 4 > n then (False, dst) else uriencode_loop src (dst @ uri_char x) n)"
  by (simp add: uri_char_def)

declare uriencode_loop.simps(2) [simp del] uriencode_loop_Cons [simp]

lemma uriencode_loop_chars:
  "uriencode_loop src dst n = (True, out) \<Longrightarrow> out = dst @ concat (map uri_char src)"
  by (induction src arbitrary: dst) (fastforce split: if_splits)+

lemma uri_char_length: "length (uri_char x) \<le> 3"
  by (auto simp: uri_char_def uriencode_map_def)

lemma uriencode_loop_bound:
  "length dst < n \<Longrightarrow> length (snd (uriencode_loop src dst n)) < n"
proof (induction src arbitrary: dst)
  case (Cons x src)
  show ?case
  proof (cases "length dst + 4 > n")
    case False
    then have "length (dst @ uri_char x) < n" using uri_char_length [of x] by simp
    then show ?thesis using Cons.IH [of "dst @ uri_char x"] False by simp
  qed (use Cons.prems in simp)
qed simp

lemma uridecode_chars: "uridecode (concat (map uri_char src)) = src"
  by (induction src) (simp_all add: uridecode_char)

text \<open>C26: \<open>uriencode\<close> never writes more than its buffer holds, the closing NUL byte included. When it returns true the output decodes to the source;
  a buffer of three bytes per source byte and one more is always enough.\<close>

theorem uriencode_roundtrip:
  assumes "0 < dstlen"
  shows "(case uriencode src dstlen of (ok, out) \<Rightarrow> length out + 1 \<le> dstlen \<and> (ok \<longrightarrow> uridecode out = src)) \<and>
    (3 * length src + 1 \<le> dstlen \<longrightarrow> fst (uriencode src dstlen))"
proof (intro conjI impI)
  show "case uriencode src dstlen of (ok, out) \<Rightarrow> length out + 1 \<le> dstlen \<and> (ok \<longrightarrow> uridecode out = src)"
    using uriencode_loop_bound [of "[]" dstlen src] uriencode_loop_chars [of src "[]" dstlen] assms
    by (auto simp: uriencode_def uridecode_chars)
  have "fst (uriencode_loop src dst n)" if "length dst + 3 * length src + 1 \<le> n" for dst n
    using that
  proof (induction src arbitrary: dst)
    case (Cons x src)
    then show ?case using Cons.IH [of "dst @ uri_char x"] uri_char_length [of x] by simp
  qed simp
  then show "fst (uriencode src dstlen)" if "3 * length src + 1 \<le> dstlen" using that by (simp add: uriencode_def)
qed

theorem uriencode_roundtrip_witness:
  "case uriencode [97, 47] 7 of (ok, out) \<Rightarrow> ok \<and> length out + 1 \<le> 7 \<and> uridecode out = [97, 47]"
  using uriencode_roundtrip [of 7 "[97, 47]"] by (auto split: prod.splits)

lemma safe_memcmp_loop_or: "safe_memcmp_loop delta a b = delta OR safe_memcmp_loop 0 a b"
proof (induction a b arbitrary: delta rule: list_induct2')
  case (4 x a y b)
  show ?case using "4.IH" [of "delta OR ucast (x XOR y)"] "4.IH" [of "ucast (x XOR y)"] by (simp add: or.assoc)
qed simp_all

lemma ucast_xor_zero: "(ucast (x XOR y :: byte) :: u32) = 0 \<longleftrightarrow> x = y"
proof -
  have "unat (x XOR y) < 2 ^ LENGTH(8)" by (rule unsigned_less)
  then have "unat (ucast (x XOR y) :: u32) = unat (x XOR y)" by (simp add: unsigned_ucast_eq take_bit_nat_eq_self)
  then have "(ucast (x XOR y :: byte) :: u32) = 0 \<longleftrightarrow> x XOR y = 0" by (simp only: unat_eq_zero [symmetric])
  also have "\<dots> \<longleftrightarrow> x = y" by (auto simp: bit_eq_iff bit_simps)
  finally show ?thesis .
qed

lemma safe_memcmp_loop_zero: "length a = length b \<Longrightarrow> safe_memcmp_loop 0 a b = 0 \<longleftrightarrow> a = b"
proof (induction a b rule: list_induct2)
  case (Cons x a y b)
  have "safe_memcmp_loop 0 (x # a) (y # b) = ucast (x XOR y) OR safe_memcmp_loop 0 a b"
    using safe_memcmp_loop_or [of "ucast (x XOR y)" a b] by simp
  then show ?case using Cons.IH ucast_xor_zero [of x y] by (simp add: or_eq_0_iff)
qed simp

lemma mc_swap64_loop_bit:
  "n < 64 \<Longrightarrow> bit (mc_swap64_loop i rv inp) n =
     (if n < 8 * i then bit inp (8 * (i - 1 - n div 8) + n mod 8) else bit rv (n - 8 * i))"
proof (induction i arbitrary: rv inp)
  case (Suc i)
  have m: "(0xff :: u64) = mask 8" by (simp add: mask_eq_exp_minus_1)
  show ?case
  proof (cases "n < 8 * i")
    case True
    then have "n div 8 < i" by (simp add: div_less_iff_less_mult mult.commute)
    then have "8 + (8 * (i - Suc (n div 8)) + n mod 8) = 8 * (i - n div 8) + n mod 8" by simp
    then have e: "bit inp (8 + (8 * (i - Suc (n div 8)) + n mod 8)) = bit inp (8 * (i - n div 8) + n mod 8)" by (rule arg_cong)
    show ?thesis using True Suc by (simp add: bit_drop_bit_eq e)
  next
    case False
    show ?thesis
    proof (cases "n < 8 * Suc i")
      case lt: True
      then have q: "n div 8 = i" using False by (intro div_nat_eqI) simp_all
      then have "n - 8 * i = n mod 8" using minus_mult_div_eq_mod [of n 8] by simp
      moreover have "\<not> 8 \<le> n mod 8" "n mod 8 < 64" using mod_less_divisor [of 8 n] by linarith+
      ultimately show ?thesis using False lt q Suc by (simp add: m bit_simps)
    next
      case ge: False
      then show ?thesis using False Suc by (auto simp: m bit_simps add.commute)
    qed
  qed
qed simp



end
