(* ===== verification/Store.thy ===== *)
theory Store
  imports Cache_Spec Util
begin

text \<open>
  The storage commands on top of the item layer: \<open>do_store_item\<close> (set, add, replace, append, prepend, cas) and
  \<open>do_add_delta\<close> (incr, decr) of \<^verbatim>\<open>memcached.c\<close>, with their data copies, the conversion of expiry times, and the
  wrappers of \<^verbatim>\<open>thread.c\<close> that take the item lock of a key. A connection is the part of \<^verbatim>\<open>struct conn\<close> and of its
  thread's statistics these functions use. Copies to standard error and the logger are left out; objects of external storage
  are not part of the state, so \<open>STORAGE_delete\<close> has no effect here.
\<close>

section \<open>Data\<close>

datatype nread = NREAD_ADD | NREAD_SET | NREAD_REPLACE | NREAD_APPEND | NREAD_PREPEND | NREAD_CAS

datatype store_item_type = NOT_STORED | STORED | EXISTS | NOT_FOUND | TOO_LARGE | NO_MEMORY

datatype delta_result_type = OK | NON_NUMERIC | EOM | DELTA_ITEM_NOT_FOUND | DELTA_ITEM_CAS_MISMATCH

datatype cas_result = CAS_NONE | CAS_MATCH | CAS_BADVAL | CAS_STALE | CAS_MISS

record slab_stats =
  set_cmds :: u64
  get_hits :: u64
  touch_hits :: u64
  delete_hits :: u64
  cas_hits :: u64
  cas_badval :: u64
  incr_hits :: u64
  decr_hits :: u64

text \<open>\<open>c->cas\<close>, \<open>c->set_stale\<close> and the counters of \<open>c->thread->stats\<close>.\<close>

record conn =
  conn_cas :: u64
  set_stale :: bool
  thread_slab_stats :: "u8 \<Rightarrow> slab_stats"
  thread_cas_misses :: u64

definition upd_slab_stats :: "u8 \<Rightarrow> (slab_stats \<Rightarrow> slab_stats) \<Rightarrow> conn \<Rightarrow> conn" where
  "upd_slab_stats i f cn = cn\<lparr>thread_slab_stats := (thread_slab_stats cn)(i := f (thread_slab_stats cn i))\<rparr>"

definition FLAGS_CONV :: "item \<Rightarrow> u32" where
  "FLAGS_CONV x = (if has_flag ITEM_CFLAGS x then data_suffix x else 0)"

text \<open>\<open>memcpy(dst + off, src, n)\<close> with the bytes \<open>src\<close>.\<close>

definition memcpy_at :: "nat \<Rightarrow> byte list \<Rightarrow> byte list \<Rightarrow> byte list" where
  "memcpy_at off src dst = take off (dst @ replicate (off - length dst) 0) @ src @ drop (off + length src) dst"

abbreviation REALTIME_MAXDELTA :: int where "REALTIME_MAXDELTA \<equiv> 60 * 60 * 24 * 30"

definition realtime :: "int \<Rightarrow> u32 \<Rightarrow> int \<Rightarrow> u32" where
  "realtime process_started now t =
     (if t = 0 then 0
      else if t > REALTIME_MAXDELTA then (if t \<le> process_started then 1 else of_int (t - process_started))
      else of_int (t + uint now))"

section \<open>Copying values\<close>

text \<open>
  Chunk headers share the item layout: \<open>size\<close> is \<open>time\<close>, \<open>used\<close> is \<open>exptime\<close>. A walk that does not end, and a failed \<open>assert\<close>,
  are \<open>None\<close>. \<open>envs k\<close> is what the environment answers the \<open>k\<close>-th allocation of a chunk.
\<close>

abbreviation ch_size :: "item \<Rightarrow> int" where "ch_size x \<equiv> sint (it_time x)"
abbreviation ch_used :: "item \<Rightarrow> int" where "ch_used x \<equiv> sint (exptime x)"

type_synonym pull_envs = "nat \<Rightarrow> (nat \<Rightarrow> pull_env) \<times> (nat \<Rightarrow> pull_env)"

partial_function (option) chunk_with_space :: "ptr \<Rightarrow> heap \<Rightarrow> ptr option" where
  "chunk_with_space dch m =
     (if ch_size (m dch) = ch_used (m dch) \<and> it_next (m dch) \<noteq> NULL then chunk_with_space (it_next (m dch)) m else Some dch)"

definition fill_chunk :: "ptr \<Rightarrow> byte list \<Rightarrow> int \<Rightarrow> mc \<Rightarrow> mc" where
  "fill_chunk dch src todo c =
     upd_item dch (\<lambda>x. x\<lparr>data_value := memcpy_at (nat (ch_used x)) src (data_value x), exptime := exptime x + of_int todo\<rparr>) c"

partial_function (option) copy_chunked_loop ::
    "hash_fn \<Rightarrow> pull_envs \<Rightarrow> nat \<Rightarrow> ptr \<Rightarrow> ptr \<Rightarrow> int \<Rightarrow> int \<Rightarrow> mc \<Rightarrow> (bool \<times> mc) option" where
  "copy_chunked_loop hash envs k sch dch copied remain c =
     (if sch = NULL \<or> dch = NULL \<or> remain = 0 then (if remain = 0 then Some (True, c) else None)
      else if ch_used (item_at c dch) > ch_size (item_at c dch) then None
      else let todo = min remain (min (ch_size (item_at c dch) - ch_used (item_at c dch)) (ch_used (item_at c sch) - copied));
               c1 = fill_chunk dch (take (nat todo) (drop (nat copied) (data_value (item_at c sch)))) todo c;
               copied' = copied + todo;
               remain' = remain - todo
           in if ch_used (item_at c1 dch) > ch_size (item_at c1 dch) then None
              else do {
                (dch', k', c2) \<leftarrow>
                  (if ch_size (item_at c1 dch) = ch_used (item_at c1 dch)
                   then do { (tch, c2) \<leftarrow> do_item_alloc_chunk hash (fst (envs k)) (snd (envs k)) dch (nat remain') c1;
                             Some (tch, k + 1, c2) }
                   else Some (dch, k, c1));
                if dch' = NULL then Some (False, c2)
                else if copied' > ch_used (item_at c2 sch) then None
                else if copied' = ch_used (item_at c2 sch)
                then copy_chunked_loop hash envs k' (it_next (item_at c2 sch)) dch' 0 remain' c2
                else copy_chunked_loop hash envs k' sch dch' copied' remain' c2 })"

partial_function (option) copy_plain_loop ::
    "hash_fn \<Rightarrow> pull_envs \<Rightarrow> nat \<Rightarrow> byte list \<Rightarrow> int \<Rightarrow> ptr \<Rightarrow> int \<Rightarrow> mc \<Rightarrow> (bool \<times> mc) option" where
  "copy_plain_loop hash envs k src len dch copied c =
     (if \<not> (len > copied \<and> dch \<noteq> NULL) then (if len = copied then Some (True, c) else None)
      else let todo = min (ch_size (item_at c dch) - ch_used (item_at c dch)) (len - copied);
               c1 = fill_chunk dch (take (nat todo) (drop (nat copied) src)) todo c;
               copied' = copied + todo
           in if ch_used (item_at c1 dch) > ch_size (item_at c1 dch) then None
              else do {
                (dch', k', c2) \<leftarrow>
                  (if ch_size (item_at c1 dch) = ch_used (item_at c1 dch)
                   then do { (tch, c2) \<leftarrow> do_item_alloc_chunk hash (fst (envs k)) (snd (envs k)) dch (nat (len - copied')) c1;
                             Some (tch, k + 1, c2) }
                   else Some (dch, k, c1));
                if dch' = NULL then Some (False, c2) else copy_plain_loop hash envs k' src len dch' copied' c2 })"

definition store_item_copy_chunks :: "hash_fn \<Rightarrow> pull_envs \<Rightarrow> ptr \<Rightarrow> ptr \<Rightarrow> int \<Rightarrow> mc \<Rightarrow> (bool \<times> mc) option" where
  "store_item_copy_chunks hash envs d_it s_it len c = do {
     dch \<leftarrow> chunk_with_space (ITEM_schunk d_it (item_at c d_it)) (mem c);
     if has_flag ITEM_CHUNKED (item_at c s_it)
     then copy_chunked_loop hash envs 0 (ITEM_schunk s_it (item_at c s_it)) dch 0 len c
     else copy_plain_loop hash envs 0 (data_value (item_at c s_it)) len dch 0 c }"

text \<open>\<open>memcpy(ITEM_data(d) + off, ITEM_data(s), n)\<close>.\<close>

definition copy_value :: "ptr \<Rightarrow> int \<Rightarrow> ptr \<Rightarrow> int \<Rightarrow> mc \<Rightarrow> mc" where
  "copy_value d off s n c = upd_item d (data_value_update (memcpy_at (nat off) (take (nat n) (data_value (item_at c s))))) c"

text \<open>True for 0, false for -1.\<close>

definition store_item_copy_data :: "hash_fn \<Rightarrow> (bool \<Rightarrow> pull_envs) \<Rightarrow> nread \<Rightarrow> ptr \<Rightarrow> ptr \<Rightarrow> ptr \<Rightarrow> mc \<Rightarrow> (bool \<times> mc) option" where
  "store_item_copy_data hash envs comm old_it new_it add_it c =
     (let old_n = nbytes (item_at c old_it);
          add_n = nbytes (item_at c add_it);
          (first, n1, second, n2) = (if comm = NREAD_APPEND then (old_it, old_n, add_it, add_n) else (add_it, add_n, old_it, old_n))
      in if has_flag ITEM_CHUNKED (item_at c new_it)
         then do {
           (ok, c1) \<leftarrow> store_item_copy_chunks hash (envs False) new_it first (n1 - 2) c;
           if \<not> ok then Some (False, c1) else store_item_copy_chunks hash (envs True) new_it second n2 c1 }
         else Some (True, copy_value new_it (n1 - 2) second n2 (copy_value new_it 0 first n1 c)))"

section \<open>Storing an item\<close>

definition cas_check :: "bool \<Rightarrow> u64 \<Rightarrow> u64 \<Rightarrow> cas_result" where
  "cas_check stale it_cas old_cas =
     (if it_cas = 0 then CAS_NONE else if it_cas = old_cas then CAS_MATCH
      else if stale \<and> it_cas < old_cas then CAS_STALE else CAS_BADVAL)"

text \<open>
  The switch over the command when there is an item under the key. The result is the answer so far, \<open>do_store\<close>, the item to store and
  the item \<open>new_it\<close> allocated for an append or prepend.
\<close>

definition store_over_old :: "hash_fn \<Rightarrow> (nat \<Rightarrow> pull_env) \<Rightarrow> (bool \<Rightarrow> pull_envs) \<Rightarrow> ptr \<Rightarrow> ptr \<Rightarrow> nread \<Rightarrow> conn \<Rightarrow> mc \<Rightarrow>
    (store_item_type \<times> bool \<times> ptr \<times> ptr \<times> conn \<times> mc) option" where
  "store_over_old hash env envs it old_it comm cn c =
     (let cas_res = cas_check (set_stale cn) (ITEM_get_cas (item_at c it)) (ITEM_get_cas (item_at c old_it));
          hit = upd_slab_stats (ITEM_clsid (item_at c old_it)) (\<lambda>s. s\<lparr>cas_hits := cas_hits s + 1\<rparr>) cn;
          bad = upd_slab_stats (ITEM_clsid (item_at c old_it)) (\<lambda>s. s\<lparr>cas_badval := cas_badval s + 1\<rparr>) cn
      in case comm of
           NREAD_ADD \<Rightarrow> do { c1 \<leftarrow> do_item_update old_it c; Some (NOT_STORED, False, it, NULL, cn, c1) }
         | NREAD_CAS \<Rightarrow>
             (if cas_res = CAS_MATCH then Some (NOT_STORED, True, it, NULL, hit, c)
              else if cas_res = CAS_STALE
              then Some (NOT_STORED, True, it, NULL, hit,
                     upd_item it (\<lambda>x. let x1 = set_flag ITEM_STALE (x\<lparr>exptime := exptime (item_at c old_it)\<rparr>)
                                      in if has_flag ITEM_TOKEN_SENT (item_at c old_it) then set_flag ITEM_TOKEN_SENT x1 else x1) c)
              else Some (EXISTS, False, it, NULL, bad, c))
         | NREAD_REPLACE \<Rightarrow> Some (NOT_STORED, True, it, NULL, cn, c)
         | NREAD_SET \<Rightarrow> Some (NOT_STORED, True, it, NULL, cn, c)
         | _ \<Rightarrow>
             (if cas_res \<noteq> CAS_NONE \<and> cas_res \<noteq> CAS_MATCH then Some (EXISTS, False, it, NULL, cn, c)
              else if has_flag ITEM_HDR (item_at c old_it) then Some (NOT_STORED, False, it, NULL, cn, c)
              else do {
                (new_it, c1) \<leftarrow> do_item_alloc hash env (ITEM_key (item_at c it)) (unat (nkey (item_at c it)))
                    (FLAGS_CONV (item_at c old_it)) (exptime (item_at c old_it)) (nbytes (item_at c it) + nbytes (item_at c old_it) - 2) c;
                if new_it = NULL then Some (NOT_STORED, False, it, NULL, cn, c1)
                else do {
                  (ok, c2) \<leftarrow> store_item_copy_data hash envs comm old_it new_it it c1;
                  if ok then Some (NOT_STORED, True, new_it, new_it, cn, c2) else Some (NOT_STORED, False, it, new_it, cn, c2) } }))"

text \<open>The lookup does not bump (\<open>DONT_UPDATE\<close>), so the answer of the bump buffer is not looked at.\<close>

definition do_store_item :: "hash_fn \<Rightarrow> (nat \<Rightarrow> pull_env) \<Rightarrow> (bool \<Rightarrow> pull_envs) \<Rightarrow> ptr \<Rightarrow> nread \<Rightarrow> conn \<Rightarrow> u32 \<Rightarrow> mc \<Rightarrow>
    (store_item_type \<times> conn \<times> mc) option" where
  "do_store_item hash env envs it comm cn hv c = do {
     (old_it, c1) \<leftarrow> do_item_get (0, False) (ITEM_key (item_at c it)) (unat (nkey (item_at c it))) hv False c;
     (stored, it', cn', c') \<leftarrow>
       (if old_it \<noteq> NULL
        then do {
          (answer, do_store, it', new_it, cn1, c2) \<leftarrow> store_over_old hash env envs it old_it comm cn c1;
          c3 \<leftarrow> (if do_store then do_item_replace old_it it' hv c2 else Some c2);
          c4 \<leftarrow> do_item_remove old_it c3;
          c5 \<leftarrow> (if new_it \<noteq> NULL then do_item_remove new_it c4 else Some c4);
          Some (if do_store then STORED else answer, it', cn1, c5) }
        else case comm of
            NREAD_CAS \<Rightarrow> Some (NOT_FOUND, it, cn\<lparr>thread_cas_misses := thread_cas_misses cn + 1\<rparr>, c1)
          | NREAD_ADD \<Rightarrow> do { c2 \<leftarrow> do_item_link it hv c1; Some (STORED, it, cn, c2) }
          | NREAD_SET \<Rightarrow> do { c2 \<leftarrow> do_item_link it hv c1; Some (STORED, it, cn, c2) }
          | _ \<Rightarrow> Some (NOT_STORED, it, cn, c1));
     Some (stored, if stored = STORED then cn'\<lparr>conn_cas := ITEM_get_cas (item_at c' it')\<rparr> else cn', c') }"

section \<open>Arithmetic on a value\<close>

text \<open>
  \<open>safe_strtoull\<close> is handed the start of the value, which is not terminated: \<open>behind\<close> are the bytes in memory after the value, up to
  a NUL byte. \<open>cas\<close> is \<open>None\<close> for a NULL pointer, and so is the caller's \<open>it_ret\<close> when \<open>want_it\<close> is false. The result is the answer,
  the printed value, \<open>*cas\<close> and \<open>*it_ret\<close>.
\<close>

definition delta_value :: "bool \<Rightarrow> u64 \<Rightarrow> u64 \<Rightarrow> u64" where
  "delta_value incr delta v = (if incr then v + delta else if delta > v then 0 else v - delta)"

definition delta_in_place :: "ptr \<Rightarrow> byte list \<Rightarrow> mc \<Rightarrow> mc option" where
  "delta_in_place it buf c =
     (let c1 = item_stats_sizes_remove it c;
          (w, c2) = (if use_cas (cfg c1) then get_cas_id c1 else (0, c1));
          c3 = item_stats_sizes_add it (upd_item it (ITEM_set_cas w) c2);
          res = length buf;
          c4 = upd_item it (data_value_update (memcpy_at 0 buf)) c3;
          c5 = upd_item it (\<lambda>x. x\<lparr>data_value := memcpy_at res (replicate (nat (nbytes x - int res - 2)) 32) (data_value x)\<rparr>) c4
      in do_item_update it c5)"

text \<open>False when there was no memory for the new item.\<close>

definition delta_replace :: "hash_fn \<Rightarrow> (nat \<Rightarrow> pull_env) \<Rightarrow> ptr \<Rightarrow> byte list \<Rightarrow> u32 \<Rightarrow> mc \<Rightarrow> (bool \<times> mc) option" where
  "delta_replace hash env it buf hv c = do {
     (new_it, c1) \<leftarrow> do_item_alloc hash env (ITEM_key (item_at c it)) (unat (nkey (item_at c it))) (FLAGS_CONV (item_at c it))
        (exptime (item_at c it)) (int (length buf) + 2) c;
     if new_it = NULL then do { c2 \<leftarrow> do_item_remove it c1; Some (False, c2) }
     else do {
       let c2 = upd_item new_it (data_value_update (memcpy_at (length buf) [13, 10] \<circ> memcpy_at 0 buf)) c1;
       c3 \<leftarrow> do_item_replace it new_it hv c2;
       let c4 = upd_item it (ITEM_set_cas (if use_cas (cfg c3) then ITEM_get_cas (item_at c3 new_it) else 0)) c3;
       c5 \<leftarrow> do_item_remove new_it c4;
       Some (True, c5) } }"

definition do_add_delta :: "hash_fn \<Rightarrow> (nat \<Rightarrow> pull_env) \<Rightarrow> byte list \<Rightarrow> conn \<Rightarrow> byte list \<Rightarrow> nat \<Rightarrow> bool \<Rightarrow> u64 \<Rightarrow> u64 option \<Rightarrow> bool \<Rightarrow> u32 \<Rightarrow> mc \<Rightarrow>
    (delta_result_type \<times> byte list \<times> u64 option \<times> ptr \<times> conn \<times> mc) option" where
  "do_add_delta hash env behind cn key nk incr delta cas want_it hv c = do {
     (it, c1) \<leftarrow> do_item_get (0, False) key nk hv False c;
     let x = item_at c1 it;
     let fail = (\<lambda>r. do { c2 \<leftarrow> do_item_remove it c1; Some (r, [], cas, NULL, cn, c2) });
     if it = NULL then Some (DELTA_ITEM_NOT_FOUND, [], cas, NULL, cn, c1)
     else if nbytes x \<le> 2 \<or> it_flags x AND (ITEM_CHUNKED OR ITEM_HDR) \<noteq> 0 then fail NON_NUMERIC
     else if (case cas of None \<Rightarrow> False | Some w \<Rightarrow> w \<noteq> 0 \<and> ITEM_get_cas x \<noteq> w) then fail DELTA_ITEM_CAS_MISMATCH
     else case safe_strtoull (data_value x @ behind) of
       None \<Rightarrow> fail NON_NUMERIC
     | Some v0 \<Rightarrow> do {
         let cn1 = upd_slab_stats (ITEM_clsid x)
               (\<lambda>s. if incr then s\<lparr>incr_hits := incr_hits s + 1\<rparr> else s\<lparr>decr_hits := decr_hits s + 1\<rparr>) cn;
         buf \<leftarrow> itoa_u64 (delta_value incr delta v0) [];
         if int (length buf) + 2 \<le> nbytes x \<and> refcount x = 2 \<or> refcount x > 1
         then do {
           (ok, c2) \<leftarrow> (if int (length buf) + 2 \<le> nbytes x \<and> refcount x = 2
                        then map_option (Pair True) (delta_in_place it buf c1)
                        else delta_replace hash env it buf hv c1);
           if \<not> ok then Some (EOM, buf, cas, NULL, cn1, c2)
           else do {
             let cas' = map_option (\<lambda>_. ITEM_get_cas (item_at c2 it)) cas;
             if want_it then Some (OK, buf, cas', it, cn1, c2)
             else do { c3 \<leftarrow> do_item_remove it c2; Some (OK, buf, cas', NULL, cn1, c3) } } }
         else do {
           c2 \<leftarrow> (if refcount x = 1 then do_item_remove it c1 else Some c1);
           Some (DELTA_ITEM_NOT_FOUND, buf, cas, NULL, cn1, c2) } } }"

section \<open>The interface of the worker threads\<close>

text \<open>Each takes the item lock of the key's hash value, so it is one atomic step.\<close>

definition item_alloc :: "hash_fn \<Rightarrow> (nat \<Rightarrow> pull_env) \<Rightarrow> byte list \<Rightarrow> nat \<Rightarrow> u32 \<Rightarrow> u32 \<Rightarrow> int \<Rightarrow> mc \<Rightarrow> (ptr \<times> mc) option" where
  "item_alloc hash env key nk flags exp nb c = do_item_alloc hash env key nk flags exp nb c"

definition item_get :: "hash_fn \<Rightarrow> nat \<times> bool \<Rightarrow> byte list \<Rightarrow> nat \<Rightarrow> bool \<Rightarrow> mc \<Rightarrow> (ptr \<times> mc) option" where
  "item_get hash bump_ok key nk do_update c = do_item_get bump_ok key nk (hash key nk) do_update c"

definition item_get_locked :: "hash_fn \<Rightarrow> nat \<times> bool \<Rightarrow> byte list \<Rightarrow> nat \<Rightarrow> bool \<Rightarrow> mc \<Rightarrow> (u32 \<times> ptr \<times> mc) option" where
  "item_get_locked hash bump_ok key nk do_update c =
     (let hv = hash key nk in map_option (Pair hv) (do_item_get bump_ok key nk hv do_update c))"

definition item_touch :: "hash_fn \<Rightarrow> nat \<times> bool \<Rightarrow> byte list \<Rightarrow> nat \<Rightarrow> u32 \<Rightarrow> mc \<Rightarrow> (ptr \<times> mc) option" where
  "item_touch hash bump_ok key nk exp c = do_item_touch bump_ok key nk exp (hash key nk) c"

definition item_link :: "hash_fn \<Rightarrow> ptr \<Rightarrow> mc \<Rightarrow> mc option" where
  "item_link hash it c = do_item_link it (item_hash hash (item_at c it)) c"

definition item_remove :: "ptr \<Rightarrow> mc \<Rightarrow> mc option" where
  "item_remove it c = do_item_remove it c"

definition item_replace :: "ptr \<Rightarrow> ptr \<Rightarrow> u32 \<Rightarrow> mc \<Rightarrow> mc option" where
  "item_replace old_it new_it hv c = do_item_replace old_it new_it hv c"

definition item_unlink :: "hash_fn \<Rightarrow> ptr \<Rightarrow> mc \<Rightarrow> mc option" where
  "item_unlink hash it c = do_item_unlink it (item_hash hash (item_at c it)) c"

definition add_delta :: "hash_fn \<Rightarrow> (nat \<Rightarrow> pull_env) \<Rightarrow> byte list \<Rightarrow> conn \<Rightarrow> byte list \<Rightarrow> nat \<Rightarrow> bool \<Rightarrow> u64 \<Rightarrow> u64 option \<Rightarrow> mc \<Rightarrow>
    (delta_result_type \<times> byte list \<times> u64 option \<times> ptr \<times> conn \<times> mc) option" where
  "add_delta hash env behind cn key nk incr delta cas c =
     do_add_delta hash env behind cn key nk incr delta cas False (hash key nk) c"

definition store_item :: "hash_fn \<Rightarrow> (nat \<Rightarrow> pull_env) \<Rightarrow> (bool \<Rightarrow> pull_envs) \<Rightarrow> ptr \<Rightarrow> nread \<Rightarrow> conn \<Rightarrow> mc \<Rightarrow> (store_item_type \<times> conn \<times> mc) option" where
  "store_item hash env envs it comm cn c = do_store_item hash env envs it comm cn (item_hash hash (item_at c it)) c"

text \<open>True in second place: the item has too many references, and the lookup gives none.\<close>

abbreviation IT_REFCOUNT_LIMIT :: u16 where "IT_REFCOUNT_LIMIT \<equiv> 60000"

definition limited_get :: "hash_fn \<Rightarrow> nat \<times> bool \<Rightarrow> byte list \<Rightarrow> nat \<Rightarrow> u32 \<Rightarrow> bool \<Rightarrow> bool \<Rightarrow> mc \<Rightarrow> (ptr \<times> bool \<times> mc) option" where
  "limited_get hash bump_ok key nk exp should_touch do_update c = do {
     (it, c1) \<leftarrow> (if should_touch then item_touch hash bump_ok key nk exp c else item_get hash bump_ok key nk do_update c);
     if it \<noteq> NULL \<and> refcount (item_at c1 it) > IT_REFCOUNT_LIMIT
     then do { c2 \<leftarrow> item_remove it c1; Some (NULL, True, c2) }
     else Some (it, False, c1) }"

definition limited_get_locked :: "hash_fn \<Rightarrow> nat \<times> bool \<Rightarrow> byte list \<Rightarrow> nat \<Rightarrow> bool \<Rightarrow> mc \<Rightarrow> (u32 \<times> ptr \<times> bool \<times> mc) option" where
  "limited_get_locked hash bump_ok key nk do_update c = do {
     (hv, it, c1) \<leftarrow> item_get_locked hash bump_ok key nk do_update c;
     if it \<noteq> NULL \<and> refcount (item_at c1 it) > IT_REFCOUNT_LIMIT
     then do { c2 \<leftarrow> do_item_remove it c1; Some (hv, NULL, True, c2) }
     else Some (hv, it, False, c1) }"

end
