(* ===== verification/Store_Laws.thy ===== *)
theory Store_Laws
  imports Store
begin

text \<open>
  What the storage commands do to the map a client sees. Every command is a sequence of steps of the cache, so the state it leaves is
  reachable again; the lemmas here give the effect of each step on the map, and the properties put them together.
\<close>

section \<open>Steps with their effect on the map\<close>

definition good :: "hash_fn \<Rightarrow> mc \<Rightarrow> view \<Rightarrow> ptr set \<Rightarrow> bool" where
  "good hash c v L \<longleftrightarrow> cache_reach hash c v \<and> cache_inv hash c v L"

text \<open>How many more references the 16-bit counters can take.\<close>

definition room :: "nat \<Rightarrow> mc \<Rightarrow> view \<Rightarrow> bool" where
  "room n c v \<longleftrightarrow> (\<forall>p. all_refs c (client_refs v) p + n < 2 ^ 16)"

lemma room_few: "room n c v \<Longrightarrow> 3 \<le> n \<Longrightarrow> few_refs c v"
  unfolding room_def few_refs_def by (meson add_le_mono le_less_trans order_refl)

lemma room_bufs: "room n c v \<Longrightarrow> bump_bufs c' = bump_bufs c \<Longrightarrow> client_refs v' = client_refs v \<Longrightarrow> room n c' v'"
  by (simp add: room_def all_refs_def)

lemma room_take:
  assumes "room (Suc n) c v" "bump_bufs c' = bump_bufs c"
  shows "room n c' (take_ref p v)"
  unfolding room_def
proof
  fix q
  have "all_refs c' (client_refs (take_ref p v)) q \<le> all_refs c (client_refs v) q + 1"
    using assms(2) by (simp add: all_refs_def take_ref_def)
  moreover have "all_refs c (client_refs v) q + Suc n < 2 ^ 16" using assms(1) unfolding room_def by blast
  ultimately show "all_refs c' (client_refs (take_ref p v)) q + n < 2 ^ 16" by linarith
qed

lemma drop_take [simp]: "p \<noteq> NULL \<Longrightarrow> drop_ref p (take_ref p v) = v"
  by (simp add: drop_ref_def take_ref_def)

lemma take_ref_refs [simp]: "p \<noteq> NULL \<Longrightarrow> 0 < client_refs (take_ref p v) p" "0 < client_refs v q \<Longrightarrow> 0 < client_refs (take_ref p v) q"
  by (simp_all add: take_ref_def)

text \<open>The item a lookup of the key finds: not expired, not flushed.\<close>

definition live_item :: "hash_fn \<Rightarrow> mc \<Rightarrow> byte list \<Rightarrow> ptr" where
  "live_item hash c key = (case assoc_find key (length key) (hash key (length key)) (mem c) (ht c) of
     None \<Rightarrow> NULL | Some q \<Rightarrow> if q = NULL \<or> dead c (mem c q) then NULL else q)"

definition live_map :: "hash_fn \<Rightarrow> mc \<Rightarrow> byte list \<Rightarrow> byte list \<Rightarrow> (byte list \<times> int \<times> byte list \<times> u32 \<times> u32 \<times> u64) option" where
  "live_map hash c key = (if live_item hash c key = NULL then (cache_map hash c)(key := None) else cache_map hash c)"

lemma good_held:
  assumes "good hash c v L" "0 < client_refs v p"
  shows "has_flag ITEM_LINKED (mem c p) \<longleftrightarrow> p \<in> L" "p \<noteq> NULL" "\<not> has_flag ITEM_CHUNKED (mem c p)"
    "unat (refcount (mem c p)) = refs_of L (all_refs c (client_refs v)) p"
proof -
  note m = mc_inv_item [OF cache_inv_mc [OF conjunct2 [OF assms(1) [unfolded good_def]]] client_held(1) [OF assms(2)]]
  show "has_flag ITEM_LINKED (mem c p) \<longleftrightarrow> p \<in> L" "p \<noteq> NULL" "\<not> has_flag ITEM_CHUNKED (mem c p)"
    "unat (refcount (mem c p)) = refs_of L (all_refs c (client_refs v)) p" by (rule m(5,1,3,6))+
qed

lemma good_lookup:
  assumes g: "good hash c v L" and r: "room 4 c v" and nk: "length key = nk"
  shows "\<exists>it c1 L1. do_item_get b key nk (hash key nk) False c = Some (it, c1) \<and> it = live_item hash c key \<and>
    good hash c1 (take_ref it v) L1 \<and> L1 \<subseteq> L \<and> bump_bufs c1 = bump_bufs c \<and> cfg c1 = cfg c \<and> cache_map hash c1 = live_map hash c key \<and>
    (\<forall>p. 0 < client_refs v p \<or> p = it \<and> it \<noteq> NULL \<longrightarrow> content (mem c1 p) = content (mem c p)) \<and>
    (it \<noteq> NULL \<longrightarrow> it \<in> L1 \<and> ITEM_key (mem c1 it) = key)"
proof -
  note few = room_few [OF r, simplified]
  have inv: "cache_inv hash c v L" and reach: "cache_reach hash c v" using g by (simp_all add: good_def)
  obtain it c1 L1 where s: "do_item_get b key nk (hash key nk) False c = Some (it, c1)" "get_ok hash c v L key it c1 L1"
      "bump_bufs c1 = bump_bufs c" "cfg c1 = cfg c"
    using step_lookup [OF inv few nk] by blast
  have n: "next_ok hash c v L {it} c1 (take_ref it v) L1" using s(2) by (simp add: get_ok_def)
  have st: "cache_step hash c v {it} c1 (take_ref it v)" by (rule cache_step.get) (use few nk s(1) in simp_all)
  have g1: "good hash c1 (take_ref it v) L1"
    using cache_reach.step [OF reach st] n by (simp add: good_def next_ok_def)
  obtain q where q: "assoc_find key nk (hash key nk) (mem c) (ht c) = Some q"
      "assoc_abs (mem c) L key = (if q = NULL then None else Some q)" "q \<noteq> NULL \<longrightarrow> q \<in> L \<and> ITEM_key (mem c q) = key"
    by (rule cache_find [OF inv nk])
  have live: "live_item hash c key = (if q = NULL \<or> dead c (mem c q) then NULL else q)" using q(1) nk by (simp add: live_item_def)
  have it: "it = live_item hash c key" using s(2) q(2) by (auto simp: get_ok_def live split: if_splits)
  have hit: "L1 = L \<and> q \<in> L \<and> it = q \<and> content (mem c1 it) = content (mem c it)" if "it \<noteq> NULL"
    using s(2) q(2,3) that by (auto simp: get_ok_def split: if_splits)
  have others: "content (mem c1 p) = content (mem c p)" if "0 < client_refs v p \<or> p = it \<and> it \<noteq> NULL" for p
    using that n hit good_held(2) [OF g, of it] by (cases "p = it") (auto simp: next_ok_def)
  have map: "cache_map hash c1 = live_map hash c key"
  proof (cases "it = NULL")
    case True
    show ?thesis
    proof (cases "q = NULL")
      case True
      then have "c1 = c" "cache_map hash c key = None" using s(2) q(2) cache_map_abs [OF inv] by (auto simp: get_ok_def)
      then show ?thesis using \<open>it = NULL\<close> it by (auto simp: live_map_def)
    next
      case False
      then have "L1 = L - {q}" using s(2) q(2) \<open>it = NULL\<close> by (auto simp: get_ok_def split: if_splits)
      then have "cache_map hash c1 = (cache_map hash c)(key := None)"
        using n \<open>it = NULL\<close> False q(3) by (intro cache_map_delete [OF inv, of "{NULL}" c1 v q key]) auto
      then show ?thesis using \<open>it = NULL\<close> it by (simp add: live_map_def)
    qed
  next
    case False
    have "cache_map hash c1 = cache_map hash c"
    proof (rule cache_map_same [OF inv])
      show "cache_inv hash c1 (take_ref it v) L" using g1 hit [OF False] by (simp add: good_def)
      show "content (mem c1 p) = content (mem c p)" if "p \<in> L" for p
        using n hit [OF False] that by (cases "p = it") (auto simp: next_ok_def)
    qed
    then show ?thesis using False it by (simp add: live_map_def)
  qed
  have "it \<in> L1 \<and> ITEM_key (mem c1 it) = key" if "it \<noteq> NULL"
    using hit [OF that] q(3) that content_fields(8) by metis
  moreover have "L1 \<subseteq> L" using s(2) by (auto simp: get_ok_def split: option.splits if_splits)
  ultimately show ?thesis using s(1,3,4) it g1 map others by blast
qed

lemma good_step:
  assumes "good hash c v L" "cache_step hash c v T c' v'" "next_ok hash c v L T c' v' L'"
  shows "good hash c' v' L'" "\<And>p. p \<notin> T \<Longrightarrow> p \<in> L' \<or> 0 < client_refs v p \<Longrightarrow> content (mem c' p) = content (mem c p)"
  using assms cache_reach.step [of hash c v T c' v'] unfolding good_def next_ok_def by blast+

lemma good_update:
  assumes g: "good hash c v L" and p: "0 < client_refs v p"
  shows "\<exists>c'. do_item_update p c = Some c' \<and> good hash c' v L \<and> cache_map hash c' = cache_map hash c \<and>
    (\<forall>q\<in>L. content (mem c' q) = content (mem c q))"
proof -
  obtain c' where u: "do_item_update p c = Some c'" "next_ok hash c v L {} c' v L"
    using step_update [of hash c v L p] g p by (auto simp: good_def)
  have "next_ok hash c v L {p} c' v L" using u(2) by (auto simp: next_ok_def)
  from good_step(1) [OF g cache_step.update [OF p u(1)] this] have "good hash c' v L" .
  moreover have "cache_map hash c' = cache_map hash c"
    by (rule cache_map_same) (use g u(2) in \<open>auto simp: good_def next_ok_def\<close>)
  ultimately show ?thesis using u by (auto simp: next_ok_def)
qed

lemma good_remove:
  assumes g: "good hash c v L" and p: "0 < client_refs v p"
  shows "\<exists>c'. do_item_remove p c = Some c' \<and> good hash c' (drop_ref p v) L \<and> cache_map hash c' = cache_map hash c \<and>
    (\<forall>q. q \<in> L \<or> q \<noteq> p \<and> 0 < client_refs v q \<longrightarrow> content (mem c' q) = content (mem c q))"
proof -
  obtain c' where r: "do_item_remove p c = Some c'" "next_ok hash c v L {p} c' (drop_ref p v) L"
      "p \<in> L \<longrightarrow> content (mem c' p) = content (mem c p)"
    using step_remove [of hash c v L p] g p by (auto simp: good_def)
  note s = good_step [OF g cache_step.remove [OF p r(1)] r(2)]
  have e: "content (mem c' q) = content (mem c q)" if "q \<in> L" for q using s(2) [of q] r(3) that by (cases "q = p") auto
  have "cache_map hash c' = cache_map hash c"
    by (rule cache_map_same [OF _ _ e]) (use g s(1) in \<open>auto simp: good_def\<close>)
  then show ?thesis using r(1) s e by auto
qed

text \<open>The entry of an item under the CAS id \<open>w\<close>.\<close>

definition entry_with :: "u64 \<Rightarrow> item \<Rightarrow> byte list \<times> int \<times> byte list \<times> u32 \<times> u32 \<times> u64" where
  "entry_with w x = (ITEM_key x, nbytes x, take (nat (nbytes x)) (data_value x), FLAGS_CONV x, exptime x, w)"

lemma entry_with_linked:
  assumes "core y = core (linked_item c x)"
  shows "entry y = entry_with (ITEM_get_cas y) x" "ITEM_get_cas y = (if has_flag ITEM_CAS x \<and> use_cas (cfg c) then cas_id c + 1 else 0)"
    "ITEM_key y = ITEM_key x"
  using linked_stored [OF assms] arg_cong [OF linked_stored [OF assms], of fst]
    arg_cong [OF linked_stored [OF assms], of "\<lambda>(_, _, _, _, _, w). w"]
  by (auto simp: entry_def stored_entry_def entry_with_def FLAGS_CONV_def)

lemma entry_with_content: "content x = content y \<Longrightarrow> entry_with w x = entry_with w y"
  using content_fields [of x y] content_has_flag [of x y ITEM_CFLAGS] by (simp add: entry_with_def FLAGS_CONV_def)

lemma good_link:
  assumes g: "good hash c v L" and few: "few_refs c v" and p: "0 < client_refs v p" "\<not> has_flag ITEM_LINKED (mem c p)"
      "key_ok (mem c p)" "2 \<le> nbytes (mem c p)" and new: "cache_map hash c (ITEM_key (mem c p)) = None"
  shows "\<exists>c'. do_item_link p (item_hash hash (mem c p)) c = Some c' \<and> good hash c' v (insert p L) \<and>
    cache_map hash c' = (cache_map hash c)(ITEM_key (mem c p) \<mapsto> entry_with (ITEM_get_cas (mem c' p)) (mem c p))"
proof -
  have inv: "cache_inv hash c v L" using g by (simp add: good_def)
  obtain c' where l: "do_item_link p (item_hash hash (mem c p)) c = Some c'" "next_ok hash c v L {p} c' v (insert p L)"
      "core (mem c' p) = core (linked_item c (mem c p))" "p \<notin> L"
    using step_link [OF inv few p new] by blast
  have f: "assoc_find (ITEM_key (mem c p)) (unat (nkey (mem c p))) (item_hash hash (mem c p)) (mem c) (ht c) = Some NULL"
    using cache_map_None [OF inv new key_ok_length [OF p(3)]] by (simp add: item_hash_def)
  note e = entry_with_linked [OF l(3)]
  from good_step(1) [OF g cache_step.link [OF few p f l(1)] l(2)] have "good hash c' v (insert p L)" .
  moreover have "cache_map hash c' = (cache_map hash c)(ITEM_key (mem c p) \<mapsto> entry (mem c' p))"
    by (rule cache_map_insert [OF inv l(2) e(3) l(4)])
  ultimately show ?thesis using l(1) e(1) by auto
qed

lemma good_replace:
  assumes g: "good hash c v L" and few: "few_refs c v" and p: "p \<in> L" "0 < client_refs v p"
    and n: "0 < client_refs v n" "\<not> has_flag ITEM_LINKED (mem c n)" "key_ok (mem c n)" "2 \<le> nbytes (mem c n)"
    and key: "ITEM_key (mem c n) = ITEM_key (mem c p)"
  shows "\<exists>c'. do_item_replace p n (item_hash hash (mem c p)) c = Some c' \<and> good hash c' v (insert n (L - {p})) \<and> n \<noteq> p \<and>
    cfg c' = cfg c \<and> content (mem c' p) = content (mem c p) \<and> ITEM_get_cas (mem c' n) = (if has_flag ITEM_CAS (mem c n) \<and> use_cas (cfg c) then cas_id c + 1 else 0) \<and>
    cache_map hash c' = (cache_map hash c)(ITEM_key (mem c n) \<mapsto> entry_with (ITEM_get_cas (mem c' n)) (mem c n))"
proof -
  have inv: "cache_inv hash c v L" using g by (simp add: good_def)
  obtain c' where r: "do_item_replace p n (item_hash hash (mem c p)) c = Some c'" "next_ok hash c v L {p, n} c' v (insert n (L - {p}))"
      "core (mem c' n) = core (linked_item c (mem c n))" "n \<notin> L" "cfg c' = cfg c" "content (mem c' p) = content (mem c p)"
    using step_replace [OF inv few p(1) n key] p(2) by (elim exE conjE) (rule that, assumption+, erule mp, assumption)
  have pl: "has_flag ITEM_LINKED (mem c p)" using good_held(1) [OF g p(2)] p(1) by simp
  note e = entry_with_linked [OF r(3)]
  from good_step(1) [OF g cache_step.replace [OF few p(2) pl n key r(1)] r(2)] have "good hash c' v (insert n (L - {p}))" .
  moreover have "cache_map hash c' = (cache_map hash c)(ITEM_key (mem c n) \<mapsto> entry (mem c' n))"
    by (rule cache_map_swap [OF inv r(2) p(1) key [symmetric] e(3) r(4)])
  ultimately show ?thesis using r(1,4-6) p(1) e(1,2) by auto
qed

lemma good_fill:
  assumes g: "good hash c v L" and p: "0 < client_refs v p" "\<not> has_flag ITEM_LINKED (mem c p)" and w: "client_write f"
  shows "good hash (upd_item p f c) v L \<and> cache_map hash (upd_item p f c) = cache_map hash c"
proof -
  have inv: "cache_inv hash c v L" using g by (simp add: good_def)
  have pL: "p \<notin> L" using good_held(1) [OF g p(1)] p(2) by simp
  note s = good_step [OF g cache_step.fill [OF p w] step_fill [OF inv p w]]
  have "cache_map hash (upd_item p f c) = cache_map hash c"
  proof (rule cache_map_same [OF inv])
    show "content (mem (upd_item p f c) q) = content (mem c q)" if "q \<in> L" for q using that pL by (cases "q = p") auto
    show "cache_inv hash (upd_item p f c) v L" using s(1) by (simp add: good_def)
  qed
  then show ?thesis using s(1) by blast
qed

section \<open>set, add, replace, cas\<close>

text \<open>The answer of a storage command, from the CAS ids of the new item and of the live item under the key.\<close>

definition store_answer :: "nread \<Rightarrow> bool \<Rightarrow> u64 \<Rightarrow> u64 option \<Rightarrow> store_item_type" where
  "store_answer comm stale w old =
     (case old of
        None \<Rightarrow> (if comm = NREAD_ADD \<or> comm = NREAD_SET then STORED else if comm = NREAD_CAS then NOT_FOUND else NOT_STORED)
      | Some w' \<Rightarrow> (if comm = NREAD_SET \<or> comm = NREAD_REPLACE then STORED
                    else if comm = NREAD_CAS then (if w \<noteq> 0 \<and> (w = w' \<or> stale \<and> w < w') then STORED else EXISTS)
                    else NOT_STORED))"

text \<open>A store of a stale value keeps the expiry time of the entry it replaces.\<close>

definition store_exptime :: "nread \<Rightarrow> item \<Rightarrow> item option \<Rightarrow> item" where
  "store_exptime comm x old =
     (case old of
        None \<Rightarrow> x
      | Some y \<Rightarrow> if comm = NREAD_CAS \<and> ITEM_get_cas x \<noteq> ITEM_get_cas y then x\<lparr>exptime := exptime y\<rparr> else x)"

lemma stale_write: "client_write (\<lambda>x. let x1 = set_flag ITEM_STALE (x\<lparr>exptime := e\<rparr>) in if b then set_flag ITEM_TOKEN_SENT x1 else x1)"
  by (simp add: client_write_def Let_def has_flag_def set_flag_def ITEM_clsid_def bit.conj_disj_distrib2)

lemma store_old_done:
  assumes g: "good hash c (take_ref q v) L" and few: "few_refs c (take_ref q v)" and q: "q \<in> L" "q \<noteq> NULL"
    and p: "0 < client_refs v p" "\<not> has_flag ITEM_LINKED (mem c p)" "key_ok (mem c p)" "2 \<le> nbytes (mem c p)"
    and key: "ITEM_key (mem c p) = ITEM_key (mem c q)"
  shows "\<exists>c1 c2 L2. do_item_replace q p (item_hash hash (mem c q)) c = Some c1 \<and> do_item_remove q c1 = Some c2 \<and> good hash c2 v L2 \<and>
    p \<in> L2 \<and> cache_map hash c2 = (cache_map hash c)(ITEM_key (mem c p) \<mapsto> entry_with (ITEM_get_cas (mem c2 p)) (mem c p))"
proof -
  have h: "0 < client_refs (take_ref q v) q" "0 < client_refs (take_ref q v) p" using q(2) p(1) by simp_all
  obtain c1 where r: "do_item_replace q p (item_hash hash (mem c q)) c = Some c1" "good hash c1 (take_ref q v) (insert p (L - {q}))" "p \<noteq> q"
      "cache_map hash c1 = (cache_map hash c)(ITEM_key (mem c p) \<mapsto> entry_with (ITEM_get_cas (mem c1 p)) (mem c p))"
    using good_replace [OF g few q(1) h(1,2) p(2-4) key] by blast
  obtain c2 where d: "do_item_remove q c1 = Some c2" "good hash c2 (drop_ref q (take_ref q v)) (insert p (L - {q}))"
      "cache_map hash c2 = cache_map hash c1" "content (mem c2 p) = content (mem c1 p)"
    using good_remove [OF r(2) h(1)] by blast
  show ?thesis using r(1,4) d content_get_cas [OF d(4)] q(2) by auto
qed

lemma do_store_item_new:
  assumes g: "good hash c v L" and r: "room 4 c v" and p: "0 < client_refs v p" "\<not> has_flag ITEM_LINKED (mem c p)" "key_ok (mem c p)" "2 \<le> nbytes (mem c p)"
    and live: "live_item hash c (ITEM_key (mem c p)) = NULL"
  shows "\<exists>cn' c'. do_store_item hash env envs p comm cn (item_hash hash (mem c p)) c = Some (store_answer comm st w None, cn', c') \<and>
    cache_reach hash c' v \<and>
    cache_map hash c' = (if store_answer comm st w None = STORED
      then (live_map hash c (ITEM_key (mem c p)))(ITEM_key (mem c p) \<mapsto> entry_with (conn_cas cn') (mem c p))
      else live_map hash c (ITEM_key (mem c p)))"
proof -
  let ?key = "ITEM_key (mem c p)" and ?nk = "unat (nkey (mem c p))"
  have hv: "item_hash hash (mem c p) = hash ?key ?nk" by (simp add: item_hash_def)
  obtain c1 L1 where l: "do_item_get (0, False) ?key ?nk (hash ?key ?nk) False c = Some (NULL, c1)" "good hash c1 v L1" "L1 \<subseteq> L"
      "bump_bufs c1 = bump_bufs c" "cache_map hash c1 = live_map hash c ?key" "content (mem c1 p) = content (mem c p)"
    using good_lookup [OF g r key_ok_length [OF p(3)], of "(0, False)"] live p(1) by auto
  note k = content_fields [OF l(6)]
  have p1: "\<not> has_flag ITEM_LINKED (mem c1 p)" "key_ok (mem c1 p)" "2 \<le> nbytes (mem c1 p)" "item_hash hash (mem c1 p) = hash ?key ?nk"
    using good_held(1) [OF l(2) p(1)] good_held(1) [OF g p(1)] l(3) p(2-4) k by (auto simp: item_hash_def)
  have none: "cache_map hash c1 (ITEM_key (mem c1 p)) = None" using l(5) live k(8) by (simp add: live_map_def)
  have few: "few_refs c1 v" by (rule room_few [OF room_bufs [OF r l(4)]]) simp_all
  obtain c2 where s: "do_item_link p (hash ?key ?nk) c1 = Some c2" "good hash c2 v (insert p L1)"
      "cache_map hash c2 = (cache_map hash c1)(ITEM_key (mem c1 p) \<mapsto> entry_with (ITEM_get_cas (mem c2 p)) (mem c1 p))"
    using good_link [OF l(2) few p(1) p1(1-3) none] p1(4) by auto
  show ?thesis unfolding do_store_item_def hv
    using l(1,2,5) s k(8) entry_with_content [OF l(6)] by (cases comm) (simp_all add: store_answer_def good_def)
qed

text \<open>After a lookup that found \<open>q\<close> under the key of the item \<open>p\<close> a client wants to store.\<close>

definition found :: "hash_fn \<Rightarrow> mc \<Rightarrow> view \<Rightarrow> ptr \<Rightarrow> ptr \<Rightarrow> mc \<Rightarrow> ptr set \<Rightarrow> bool" where
  "found hash c v p q c1 L1 \<longleftrightarrow> good hash c1 (take_ref q v) L1 \<and> few_refs c1 (take_ref q v) \<and> cache_map hash c1 = cache_map hash c \<and>
     content (mem c1 p) = content (mem c p) \<and> content (mem c1 q) = content (mem c q) \<and> cfg c1 = cfg c \<and>
     q \<in> L1 \<and> q \<noteq> NULL \<and> p \<noteq> q \<and> 0 < client_refs v p \<and> \<not> has_flag ITEM_LINKED (mem c1 p) \<and> key_ok (mem c1 p) \<and> 2 \<le> nbytes (mem c1 p) \<and>
     ITEM_key (mem c1 p) = ITEM_key (mem c p) \<and> ITEM_key (mem c1 q) = ITEM_key (mem c p) \<and>
     item_hash hash (mem c1 q) = item_hash hash (mem c p)"

lemma lookup_found:
  assumes g: "good hash c v L" and r: "room 4 c v" and p: "0 < client_refs v p" "\<not> has_flag ITEM_LINKED (mem c p)" "key_ok (mem c p)" "2 \<le> nbytes (mem c p)"
    and live: "live_item hash c (ITEM_key (mem c p)) = q" "q \<noteq> NULL"
  shows "\<exists>c1 L1. do_item_get (0, False) (ITEM_key (mem c p)) (unat (nkey (mem c p))) (item_hash hash (mem c p)) False c = Some (q, c1) \<and>
    found hash c v p q c1 L1 \<and> (room (Suc n) c v \<longrightarrow> room n c1 (take_ref q v))"
proof -
  let ?key = "ITEM_key (mem c p)" and ?nk = "unat (nkey (mem c p))" and ?v = "take_ref q v"
  obtain c1 L1 where l: "do_item_get (0, False) ?key ?nk (hash ?key ?nk) False c = Some (q, c1)" "good hash c1 ?v L1" "L1 \<subseteq> L"
      "bump_bufs c1 = bump_bufs c" "cache_map hash c1 = cache_map hash c" "content (mem c1 p) = content (mem c p)"
      "content (mem c1 q) = content (mem c q)" "q \<in> L1" "ITEM_key (mem c1 q) = ?key" "cfg c1 = cfg c"
    using good_lookup [OF g r key_ok_length [OF p(3)], of "(0, False)"] live p(1) by (auto simp: live_map_def)
  note k = content_fields [OF l(6)]
  have "0 < client_refs ?v p" using p(1) by simp
  then have p1: "\<not> has_flag ITEM_LINKED (mem c1 p)" "key_ok (mem c1 p)" "2 \<le> nbytes (mem c1 p)" "p \<noteq> q"
    using good_held(1) [OF l(2), of p] good_held(1) [OF g p(1)] l(3,8) p(2-4) k by auto
  have room: "room n c1 ?v" if "room (Suc n) c v" for n by (rule room_take [OF that l(4)])
  have few: "few_refs c1 ?v" by (rule room_few [OF room [of 3]]) (use r in \<open>simp_all add: eval_nat_numeral\<close>)
  have "key_ok (mem c1 q)" using l(2,8) assoc_rep_key_ok [OF mc_repD(2) [OF cache_inv_mc [unfolded mc_inv_rep]]] unfolding good_def by blast
  then have hvq: "item_hash hash (mem c1 q) = hash ?key ?nk" using item_hash_key l(9) key_ok_length [OF p(3)] by metis
  have "found hash c v p q c1 L1"
    unfolding found_def using l live(2) p(1) p1 few k(8) hvq by (simp add: item_hash_def)
  then show ?thesis using l(1) room by (intro exI [of _ c1] exI [of _ L1]) (simp add: item_hash_def)
qed

lemma found_put:
  assumes f: "found hash c v p q c1 L1"
  shows "\<exists>c3 c4. do_item_replace q p (item_hash hash (mem c p)) c1 = Some c3 \<and> do_item_remove q c3 = Some c4 \<and> cache_reach hash c4 v \<and>
      cache_map hash c4 = (cache_map hash c)(ITEM_key (mem c p) \<mapsto> entry_with (ITEM_get_cas (mem c4 p)) (mem c p))"
proof -
  note d = f [unfolded found_def]
  have "\<exists>c3 c4 L2. do_item_replace q p (item_hash hash (mem c1 q)) c1 = Some c3 \<and> do_item_remove q c3 = Some c4 \<and> good hash c4 v L2 \<and>
      p \<in> L2 \<and> cache_map hash c4 = (cache_map hash c1)(ITEM_key (mem c1 p) \<mapsto> entry_with (ITEM_get_cas (mem c4 p)) (mem c1 p))"
    by (rule store_old_done [of hash c1 q v L1 p]) (use d in simp_all)
  moreover have "entry_with w (mem c1 p) = entry_with w (mem c p)" for w by (rule entry_with_content) (use d in simp)
  ultimately show ?thesis using d by (auto simp: good_def)
qed

lemma found_put_stale:
  assumes f: "found hash c v p q c1 L1"
  defines "g \<equiv> \<lambda>x. let x1 = set_flag ITEM_STALE (x\<lparr>exptime := exptime (mem c1 q)\<rparr>)
    in if has_flag ITEM_TOKEN_SENT (mem c1 q) then set_flag ITEM_TOKEN_SENT x1 else x1"
  shows "\<exists>c3 c4. do_item_replace q p (item_hash hash (mem c p)) (upd_item p g c1) = Some c3 \<and> do_item_remove q c3 = Some c4 \<and> cache_reach hash c4 v \<and>
      cache_map hash c4 = (cache_map hash c)(ITEM_key (mem c p) \<mapsto> entry_with (ITEM_get_cas (mem c4 p)) ((mem c p)\<lparr>exptime := exptime (mem c q)\<rparr>))"
proof -
  let ?c = "upd_item p g c1"
  note d = f [unfolded found_def]
  have w: "client_write g" unfolding g_def by (rule stale_write)
  have gx: "nbytes (g x) = nbytes x" "ITEM_key (g x) = ITEM_key x" "key_ok (g x) = key_ok x" "entry_with u (g x) = entry_with u (x\<lparr>exptime := exptime (mem c1 q)\<rparr>)"
    for x u by (simp_all add: g_def Let_def set_flag_def ITEM_key_def key_ok_def entry_with_def FLAGS_CONV_def has_flag_def bit.conj_disj_distrib2)
  have h: "\<exists>c3 c4 L2. do_item_replace q p (item_hash hash (mem ?c q)) ?c = Some c3 \<and> do_item_remove q c3 = Some c4 \<and> good hash c4 v L2 \<and>
      p \<in> L2 \<and> cache_map hash c4 = (cache_map hash ?c)(ITEM_key (mem ?c p) \<mapsto> entry_with (ITEM_get_cas (mem c4 p)) (mem ?c p))"
  proof (rule store_old_done [of hash ?c q v L1 p])
    show "good hash ?c (take_ref q v) L1" using good_fill [OF _ _ _ w, of hash c1 "take_ref q v" L1 p] d by simp
    show "few_refs ?c (take_ref q v)" using d by (simp add: few_refs_def all_refs_def)
  qed (use d gx w in \<open>simp_all add: client_write_def\<close>)
  have "cache_map hash ?c = cache_map hash c" using good_fill [OF _ _ _ w, of hash c1 "take_ref q v" L1 p] d by simp
  moreover have "entry_with u (g (mem c1 p)) = entry_with u ((mem c p)\<lparr>exptime := exptime (mem c q)\<rparr>)" for u
    using content_fields [of "mem c1 q" "mem c q"] content_fields [of "mem c1 p" "mem c p"] content_has_flag [of "mem c1 p" "mem c p" ITEM_CFLAGS] d
    unfolding gx(4) by (simp add: entry_with_def FLAGS_CONV_def has_flag_def ITEM_key_def)
  ultimately show ?thesis using h d gx by (auto simp: good_def)
qed

lemma found_keep:
  assumes f: "found hash c v p q c1 L1"
  shows "\<exists>c2. do_item_remove q c1 = Some c2 \<and> cache_reach hash c2 v \<and> cache_map hash c2 = cache_map hash c"
    "\<exists>c2 c3. do_item_update q c1 = Some c2 \<and> do_item_remove q c2 = Some c3 \<and> cache_reach hash c3 v \<and> cache_map hash c3 = cache_map hash c"
proof -
  note d = f [unfolded found_def]
  have h: "0 < client_refs (take_ref q v) q" using d by simp
  have rm: "\<exists>c3. do_item_remove q c2 = Some c3 \<and> cache_reach hash c3 v \<and> cache_map hash c3 = cache_map hash c2"
    if "good hash c2 (take_ref q v) L1" for c2
    using good_remove [OF that h] d by (auto simp: good_def)
  show "\<exists>c2. do_item_remove q c1 = Some c2 \<and> cache_reach hash c2 v \<and> cache_map hash c2 = cache_map hash c"
    using rm [of c1] d by auto
  show "\<exists>c2 c3. do_item_update q c1 = Some c2 \<and> do_item_remove q c2 = Some c3 \<and> cache_reach hash c3 v \<and> cache_map hash c3 = cache_map hash c"
    using good_update [of hash c1 "take_ref q v" L1 q] h rm d by fastforce
qed

lemma do_store_item_over:
  assumes run: "do_item_get (0, False) (ITEM_key (mem c p)) (unat (nkey (mem c p))) (item_hash hash (mem c p)) False c = Some (q, c1)"
    and f: "found hash c v p q c1 L1" and comm: "comm \<notin> {NREAD_APPEND, NREAD_PREPEND}"
    and a: "a = store_answer comm (set_stale cn) (ITEM_get_cas (mem c p)) (Some (ITEM_get_cas (mem c q)))"
  shows "\<exists>cn' c'. do_store_item hash env envs p comm cn (item_hash hash (mem c p)) c = Some (a, cn', c') \<and> cache_reach hash c' v \<and>
    cache_map hash c' = (if a = STORED
      then (cache_map hash c)(ITEM_key (mem c p) \<mapsto> entry_with (conn_cas cn') (store_exptime comm (mem c p) (Some (mem c q))))
      else cache_map hash c)"
proof -
  have q: "q \<noteq> NULL" using f by (simp add: found_def)
  have cas: "ITEM_get_cas (mem c1 p) = ITEM_get_cas (mem c p)" "ITEM_get_cas (mem c1 q) = ITEM_get_cas (mem c q)"
    by (rule content_get_cas; use f in \<open>simp add: found_def\<close>)+
  note st = do_store_item_def store_over_old_def store_answer_def store_exptime_def cas_check_def Let_def
  consider "comm = NREAD_ADD" | "comm = NREAD_SET \<or> comm = NREAD_REPLACE" | "comm = NREAD_CAS" using comm by (cases comm) auto
  then show ?thesis
  proof cases
    case 1
    then show ?thesis using run found_keep(2) [OF f] q a by (auto simp: st)
  next
    case 2
    then show ?thesis using run found_put [OF f] q a by (auto simp: st)
  next
    case 3
    then show ?thesis using run found_put [OF f] found_put_stale [OF f] found_keep(1) [OF f] q a cas
      by (auto simp: st split: if_split_asm)
  qed
qed

text \<open>C2: A storage command other than append and prepend is a function of the map of live entries. It returns; its answer is the one the
  protocol documents (add stores only under a free key, replace only over an entry, cas only over an entry whose CAS id the client knows, or with
  the stale option over one with a larger CAS id); when the answer is \<open>STORED\<close> the key is mapped to the new value, flags and expiry time under the
  CAS id reported back to the client, and otherwise no entry changes. The state it leaves is reachable again, with the references of all
  clients as before.\<close>

theorem store_item_refines_map:
  assumes "cache_reach hash c v" and "room 4 c v" and "0 < client_refs v p" and "\<not> has_flag ITEM_LINKED (mem c p)" and "key_ok (mem c p)"
    and "2 \<le> nbytes (mem c p)" and "comm \<notin> {NREAD_APPEND, NREAD_PREPEND}"
    and q_def: "q = live_item hash c (ITEM_key (mem c p))" and old_def: "old = (if q = NULL then None else Some (mem c q))"
    and a_def: "a = store_answer comm (set_stale cn) (ITEM_get_cas (mem c p)) (map_option ITEM_get_cas old)"
  shows "\<exists>cn' c'. store_item hash env envs p comm cn c = Some (a, cn', c') \<and> cache_reach hash c' v \<and>
    cache_map hash c' = (if a = STORED
      then (live_map hash c (ITEM_key (mem c p)))(ITEM_key (mem c p) \<mapsto> entry_with (conn_cas cn') (store_exptime comm (mem c p) old))
      else live_map hash c (ITEM_key (mem c p)))"
proof -
  obtain L where g: "good hash c v L" using cache_reach_inv [OF assms(1)] assms(1) by (auto simp: good_def)
  show ?thesis
  proof (cases "q = NULL")
    case True
    then have e: "old = None" "a = store_answer comm (set_stale cn) (ITEM_get_cas (mem c p)) None" "store_exptime comm (mem c p) old = mem c p"
      by (simp_all add: old_def a_def store_exptime_def)
    show ?thesis unfolding e(2,3) store_item_def by (rule do_store_item_new [OF g assms(2-6)]) (use True in \<open>simp add: q_def\<close>)
  next
    case False
    obtain c1 L1 where l: "do_item_get (0, False) (ITEM_key (mem c p)) (unat (nkey (mem c p))) (item_hash hash (mem c p)) False c = Some (q, c1)"
        "found hash c v p q c1 L1"
      using lookup_found [OF g assms(2-6) q_def [symmetric] False] by blast
    have e: "live_map hash c (ITEM_key (mem c p)) = cache_map hash c" "old = Some (mem c q)" using False by (simp_all add: live_map_def q_def old_def)
    show ?thesis unfolding e store_item_def by (rule do_store_item_over [OF l assms(7)]) (simp add: a_def e)
  qed
qed

definition sample_conn :: conn where
  "sample_conn = \<lparr>conn_cas = 0, set_stale = False,
     thread_slab_stats = (\<lambda>_. \<lparr>set_cmds = 0, get_hits = 0, touch_hits = 0, delete_hits = 0, cas_hits = 0, cas_badval = 0, incr_hits = 0, decr_hits = 0\<rparr>),
     thread_cas_misses = 0\<rparr>"

lemma sample_live: "cache_inv hash c v L \<Longrightarrow> cache_map hash c key = None \<Longrightarrow> live_item hash c key = NULL"
  using cache_map_None [of hash c v L key "length key"] by (simp add: live_item_def)

theorem store_item_refines_map_witness:
  "\<exists>c v cn' c'. cache_reach zero_hash c v \<and> store_item zero_hash sample_pulls (\<lambda>_ _. (sample_pulls, sample_pulls)) 1096 NREAD_ADD sample_conn c = Some (STORED, cn', c') \<and>
     cache_map zero_hash c' = [[107] \<mapsto> entry_with (conn_cas cn') (mem c 1096)]"
proof -
  obtain c v where f: "cache_reach zero_hash c v" "cache_inv zero_hash c v {}" "client_refs v = (\<lambda>_. 0)(1096 := 1)"
     "\<not> has_flag ITEM_LINKED (mem c 1096)" "new_item sample_slab_settings [107] 0 0 4 (mem c 1096)" "cache_map zero_hash c = Map.empty" "bump_bufs c = [\<lparr>bump_entries = [], dropped = 0\<rparr>]"
    using sample_fresh by blast
  have n: "key_ok (mem c 1096)" "nbytes (mem c 1096) = 4" "ITEM_key (mem c 1096) = [107]" using f(5) by (simp_all add: new_item_def)
  have live: "live_item zero_hash c [107] = NULL" by (rule sample_live [OF f(2)]) (simp add: f(6))
  have h: "room 4 c v" "0 < client_refs v 1096" "2 \<le> nbytes (mem c 1096)" using f(3,7) n(2) by (simp_all add: room_def all_refs_def pending_def)
  from store_item_refines_map [OF f(1) h(1,2) f(4) n(1) h(3), of NREAD_ADD NULL None STORED sample_conn sample_pulls "\<lambda>_ _. (sample_pulls, sample_pulls)"]
  show ?thesis using f(1,6) n(3) live by (auto simp: store_answer_def live_map_def store_exptime_def)
qed

end
