(* ===== verification/Store_Append.thy ===== *)
theory Store_Append
  imports Store_Laws
begin

text \<open>
  The commands that allocate while they hold the item lock of their key: append and prepend, incr and decr. The allocation may evict
  other entries, but never the one under the locked key.
\<close>

section \<open>append, prepend\<close>

lemma memcpy_at_take:
  assumes "off \<le> length dst"
  shows "take (off + length src) (memcpy_at off src dst) = take off dst @ src"
  using assms by (simp add: memcpy_at_def)

lemma take_memcpy2:
  assumes "2 \<le> n1" "n1 \<le> length d1" "n2 \<le> length d2"
  shows "take (n1 + n2 - 2) (memcpy_at (n1 - 2) (take n2 d2) (memcpy_at 0 (take n1 d1) buf)) = take (n1 - 2) d1 @ take n2 d2"
proof -
  obtain m where m: "n1 = m + 2" using assms(1) le_Suc_ex by (metis add.commute)
  have f: "memcpy_at 0 (take n1 d1) buf = take n1 d1 @ drop n1 buf" using assms(2) by (simp add: memcpy_at_def)
  have l: "length (take n2 d2) = n2" "m \<le> length (take n1 d1 @ drop n1 buf)" using assms(2,3) m by simp_all
  have "take (m + length (take n2 d2)) (memcpy_at m (take n2 d2) (take n1 d1 @ drop n1 buf)) = take m (take n1 d1 @ drop n1 buf) @ take n2 d2"
    by (rule memcpy_at_take [OF l(2)])
  moreover have "take m (take n1 d1 @ drop n1 buf) = take m d1" using assms(2) m by simp
  ultimately show ?thesis unfolding f using m l(1) by simp
qed

lemma room_mono: "room n c v \<Longrightarrow> m \<le> n \<Longrightarrow> room m c v"
  unfolding room_def by (meson add_le_mono le_less_trans order_refl)

lemma take_ref_commute: "take_ref p (take_ref q v) = take_ref q (take_ref p v)"
  by (cases "p = q") (auto simp: take_ref_def fun_upd_twist)

lemma client_write_value [simp]: "client_write (data_value_update g)"
  by (simp add: client_write_def has_flag_def ITEM_clsid_def)

text \<open>A new item for the key of \<open>q\<close>, allocated while the lock of that key is held.\<close>

lemma good_alloc_over:
  assumes g: "good hash c v L" and few: "few_refs c v" and q: "q \<in> L" "0 < client_refs v q" and k: "ITEM_key (mem c q) = key" "length key = nk" "nk < 256"
    and fr: "env_fresh (cfg c) env 0 (owned v \<union> crawlers v)" and small: "item_total_size (cfg c) nk fl nb \<le> slab_chunk_size_max (cfg c)"
    and lock: "\<And>t j n. \<not> pe_lock (env t) j n (item_hash hash (mem c q))"
  shows "\<exists>n c' L' v'. do_item_alloc hash env key nk fl exp nb c = Some (n, c') \<and> good hash c' v' L' \<and> q \<in> L' \<and>
    v' = take_ref n (v\<lparr>owned := owned v \<union> obtained (cfg c) env 0 10\<rparr>) \<and> cache_map hash c' \<subseteq>\<^sub>m cache_map hash c \<and>
    bump_bufs c' = bump_bufs c \<and> (\<forall>p. 0 < client_refs v p \<longrightarrow> content (mem c' p) = content (mem c p)) \<and>
    cache_map hash c' key = cache_map hash c key \<and>
    (n \<noteq> NULL \<longrightarrow> n \<notin> L' \<and> client_refs v n = 0 \<and> new_item (cfg c) key fl exp nb (mem c' n))"
proof -
  have inv: "cache_inv hash c v L" and reach: "cache_reach hash c v" using g by (simp_all add: good_def)
  have lk: "locked hash {item_hash hash (mem c q)} c L {q}" using q(1) by (simp add: locked_def)
  obtain n c' L' where a: "do_item_alloc hash env key nk fl exp nb c = Some (n, c')" "L' \<subseteq> L" "{q} \<subseteq> L'" "bump_bufs c' = bump_bufs c"
      "next_ok hash c v L {n} c' (take_ref n (v\<lparr>owned := owned v \<union> obtained (cfg c) env 0 10\<rparr>)) L'"
      "n \<noteq> NULL \<longrightarrow> n \<notin> L' \<and> client_refs v n = 0 \<and> new_item (cfg c) key fl exp nb (mem c' n)"
    using step_alloc_locked [OF inv few fr k(2,3) small lk, of exp] lock by blast
  note s = good_step [OF g cache_step.alloc [OF few fr k(2,3) small a(1)] a(5)]
  have nn: "0 \<notin> L'" using cache_nonnull [of hash c' _ L'] s(1) unfolding good_def by blast
  have e: "content (mem c' p) = content (mem c p)" if "p \<in> L' \<or> 0 < client_refs v p" for p
    using s(2) [of p] that a(6) nn good_held(2) [OF g, of p] by (cases "p = n") auto
  have sub: "cache_map hash c' \<subseteq>\<^sub>m cache_map hash c" by (rule cache_map_sub [OF inv _ a(2) e]) (use s(1) in \<open>auto simp: good_def\<close>)
  have "cache_map hash c' key = Some (entry (mem c' q))"
    using cache_map_Some [of hash c' _ L' key "entry (mem c' q)"] s(1) a(3) content_fields(8) [OF e [of q]] k(1) q(2) unfolding good_def by auto
  then have "cache_map hash c' key = cache_map hash c key" using sub unfolding map_le_def by (metis domI)
  then show ?thesis using a(1,3,4,6) s(1) sub e by blast
qed

text \<open>The value of an append or prepend: the first value without its line end, then the second.\<close>

definition joined :: "nread \<Rightarrow> item \<Rightarrow> item \<Rightarrow> byte list" where
  "joined comm old add =
     (let v1 = take (nat (nbytes old)) (data_value old); v2 = take (nat (nbytes add)) (data_value add)
      in if comm = NREAD_APPEND then take (nat (nbytes old) - 2) v1 @ v2 else take (nat (nbytes add) - 2) v2 @ v1)"

definition filled :: "item \<Rightarrow> bool" where
  "filled x \<longleftrightarrow> 2 \<le> nbytes x \<and> nat (nbytes x) \<le> length (data_value x)"

lemma copy_data_joined:
  assumes "\<not> has_flag ITEM_CHUNKED (mem c n)" "n \<noteq> old" "n \<noteq> add" "filled (mem c old)" "filled (mem c add)"
  shows "\<exists>d. store_item_copy_data hash envs comm old n add c = Some (True, upd_item n (data_value_update d) c) \<and>
    take (nat (nbytes (mem c add) + nbytes (mem c old) - 2)) (d (data_value (mem c n))) = joined comm (mem c old) (mem c add)"
proof -
  have two: "upd_item n (data_value_update f) (upd_item n (data_value_update h) c) = upd_item n (data_value_update (f \<circ> h)) c" for f h
    by (simp add: upd_item_def hupd_def fun_eq_iff)
  have copy: "copy_value n (x - 2) s y (copy_value n 0 f x c) = upd_item n (data_value_update
      (memcpy_at (nat (x - 2)) (take (nat y) (data_value (mem c s))) \<circ> memcpy_at 0 (take (nat x) (data_value (mem c f))))) c"
    if "s \<noteq> n" for f s x y
    using that by (simp add: copy_value_def two)
  have val: "take (nat (y + x - 2)) ((memcpy_at (nat (x - 2)) (take (nat y) d2) \<circ> memcpy_at 0 (take (nat x) d1)) buf) = take (nat x - 2) (take (nat x) d1) @ take (nat y) d2"
    if "2 \<le> x" "nat x \<le> length d1" "2 \<le> y" "nat y \<le> length d2" for x y :: int and d1 d2 buf
  proof -
    have e: "nat (y + x - 2) = nat x + nat y - 2" "nat (x - 2) = nat x - 2" using that by linarith+
    have "take (nat x - 2) (take (nat x) d1) = take (nat x - 2) d1" by (simp add: min_def)
    then show ?thesis unfolding e comp_def using take_memcpy2 [of "nat x" d1 "nat y" d2 buf] that by simp
  qed
  let ?n = "\<lambda>p. nbytes (mem c p)" and ?d = "\<lambda>p. data_value (mem c p)"
  let ?f = "\<lambda>a b. memcpy_at (nat (?n a - 2)) (take (nat (?n b)) (?d b)) \<circ> memcpy_at 0 (take (nat (?n a)) (?d a))"
  show ?thesis
  proof (cases "comm = NREAD_APPEND")
    case True
    then show ?thesis using assms val [of "?n old" "?d old" "?n add" "?d add" "?d n"]
      by (intro exI [of _ "?f old add"]) (simp add: store_item_copy_data_def copy joined_def filled_def Let_def)
  next
    case False
    then show ?thesis using assms val [of "?n add" "?d add" "?n old" "?d old" "?d n"]
      by (intro exI [of _ "?f add old"]) (simp add: store_item_copy_data_def copy joined_def filled_def Let_def add.commute)
  qed
qed

lemma swap_done:
  assumes g: "good hash c (take_ref q (take_ref n v)) L" and few: "few_refs c (take_ref q (take_ref n v))" and q: "q \<in> L" "q \<noteq> NULL"
    and n: "n \<noteq> NULL" "\<not> has_flag ITEM_LINKED (mem c n)" "key_ok (mem c n)" "2 \<le> nbytes (mem c n)" "ITEM_key (mem c n) = ITEM_key (mem c q)"
  shows "\<exists>c1 c2 c3 L3. do_item_replace q n (item_hash hash (mem c q)) c = Some c1 \<and> do_item_remove q c1 = Some c2 \<and> do_item_remove n c2 = Some c3 \<and>
    good hash c3 v L3 \<and>
    cache_map hash c3 = (cache_map hash c)(ITEM_key (mem c n) \<mapsto> entry_with (ITEM_get_cas (mem c3 n)) (mem c n))"
proof -
  have h: "0 < client_refs (take_ref n v) n" using n(1) by simp
  obtain c1 c2 L2 where s: "do_item_replace q n (item_hash hash (mem c q)) c = Some c1" "do_item_remove q c1 = Some c2"
      "good hash c2 (take_ref n v) L2" "n \<in> L2"
      "cache_map hash c2 = (cache_map hash c)(ITEM_key (mem c n) \<mapsto> entry_with (ITEM_get_cas (mem c2 n)) (mem c n))"
    using store_old_done [OF g few q h n(2-5)] by blast
  obtain c3 where r: "do_item_remove n c2 = Some c3" "good hash c3 (drop_ref n (take_ref n v)) L2" "cache_map hash c3 = cache_map hash c2"
      "content (mem c3 n) = content (mem c2 n)"
    using good_remove [OF s(3) h] s(4) by blast
  show ?thesis using s(1,2,5) r(1-3) content_get_cas [OF r(4)] n(1) by (intro exI [of _ c1] exI [of _ c2] exI [of _ c3] exI [of _ L2]) simp
qed

lemma new_item_flags:
  assumes "new_item st key fl exp nb x"
  shows "\<not> has_flag ITEM_CHUNKED x" "\<not> has_flag ITEM_LINKED x" "FLAGS_CONV x = fl" "ITEM_key x = key" "key_ok x" "nbytes x = nb" "exptime x = exp"
  using assms by (auto simp: new_item_def has_flag_def FLAGS_CONV_def)

lemma filled_content: "content x = content y \<Longrightarrow> filled x = filled y" "content x = content y \<Longrightarrow> FLAGS_CONV x = FLAGS_CONV y"
  "content x = content y \<Longrightarrow> content x' = content y' \<Longrightarrow> joined comm x x' = joined comm y y'"
  using content_fields [of x y] content_fields [of x' y'] content_has_flag [of x y ITEM_CFLAGS]
  by (simp_all add: filled_def FLAGS_CONV_def joined_def Let_def)

lemma take_ref_owned [simp]: "(take_ref q v)\<lparr>owned := B\<rparr> = take_ref q (v\<lparr>owned := B\<rparr>)"
  by (simp add: take_ref_def)

lemma take_ref_client: "client_refs v = client_refs v' \<Longrightarrow> client_refs (take_ref p v) = client_refs (take_ref p v')"
  by (simp add: take_ref_def)

text \<open>Allocation, copy and replacement.\<close>

lemma append_filled:
  assumes g: "good hash c (take_ref q v) L" and r: "room 4 c (take_ref q v)" and q: "q \<in> L" "q \<noteq> NULL" and p: "0 < client_refs v p"
    and k: "ITEM_key (mem c q) = key" "length key = nk" "nk < 256" and fr: "env_fresh (cfg c) env 0 (owned v \<union> crawlers v)"
    and small: "item_total_size (cfg c) nk fl nb \<le> slab_chunk_size_max (cfg c)" and nb: "nb = nbytes (mem c p) + nbytes (mem c q) - 2"
    and lock: "\<And>t j n. \<not> pe_lock (env t) j n (item_hash hash (mem c q))" and fill: "filled (mem c p)" "filled (mem c q)"
  shows "\<exists>n c2 v'. do_item_alloc hash env key nk fl exp nb c = Some (n, c2) \<and> client_refs v' = client_refs v \<and>
    (if n = NULL
     then (\<exists>c3. do_item_remove q c2 = Some c3 \<and> cache_reach hash c3 v' \<and> cache_map hash c3 \<subseteq>\<^sub>m cache_map hash c \<and> cache_map hash c3 key = cache_map hash c key)
     else (\<exists>c3 c4 c5 c6 m. store_item_copy_data hash envs comm q n p c2 = Some (True, c3) \<and>
       do_item_replace q n (item_hash hash (mem c q)) c3 = Some c4 \<and> do_item_remove q c4 = Some c5 \<and> do_item_remove n c5 = Some c6 \<and>
       cache_reach hash c6 v' \<and> m \<subseteq>\<^sub>m cache_map hash c \<and>
       cache_map hash c6 = m(key \<mapsto> (key, nb, joined comm (mem c q) (mem c p), fl, exp, ITEM_get_cas (mem c6 n)))))"
proof -
  let ?B = "owned v \<union> obtained (cfg c) env 0 10"
  let ?v = "v\<lparr>owned := ?B\<rparr>"
  have h: "0 < client_refs (take_ref q v) q" "0 < client_refs (take_ref q v) p" using q(2) p by simp_all
  have few: "few_refs c (take_ref q v)" by (rule room_few [OF r]) simp
  have fr': "env_fresh (cfg c) env 0 (owned (take_ref q v) \<union> crawlers (take_ref q v))" using fr by simp
  obtain n c2 L2 v2 where a: "do_item_alloc hash env key nk fl exp nb c = Some (n, c2)" "good hash c2 v2 L2" "q \<in> L2"
      "v2 = take_ref n (take_ref q ?v)" "cache_map hash c2 \<subseteq>\<^sub>m cache_map hash c" "bump_bufs c2 = bump_bufs c"
      "\<And>p. 0 < client_refs (take_ref q v) p \<Longrightarrow> content (mem c2 p) = content (mem c p)" "cache_map hash c2 key = cache_map hash c key"
      "n \<noteq> NULL \<longrightarrow> n \<notin> L2 \<and> client_refs (take_ref q v) n = 0 \<and> new_item (cfg c) key fl exp nb (mem c2 n)"
    using good_alloc_over [OF g few q(1) h(1) k fr' small lock, where exp = exp] unfolding take_ref_fields take_ref_owned by blast
  note cq = a(7) [OF h(1)] and cp = a(7) [OF h(2)]
  show ?thesis
  proof (cases "n = NULL")
    case True
    obtain c3 where "do_item_remove q c2 = Some c3" "good hash c3 ?v L2" "cache_map hash c3 = cache_map hash c2"
      using good_remove [OF a(2), of q] a(4) True q(2) by auto
    then show ?thesis using a(1,5,8) True by (intro exI [of _ n] exI [of _ c2] exI [of _ ?v]) (simp add: good_def)
  next
    case False
    have n: "n \<notin> L2" "n \<noteq> q" "n \<noteq> p" using a(3,9) False h by auto
    note nf = new_item_flags [of "cfg c" key fl exp nb "mem c2 n"]
    have v2: "v2 = take_ref q (take_ref n ?v)" unfolding a(4) by (rule take_ref_commute)
    have nh: "0 < client_refs v2 n" using False by (simp add: a(4))
    have nbs: "nbytes (mem c2 p) + nbytes (mem c2 q) - 2 = nb" using content_fields(3) [OF cq] content_fields(3) [OF cp] nb by simp
    have fl: "filled (mem c2 q)" "filled (mem c2 p)" "joined comm (mem c2 q) (mem c2 p) = joined comm (mem c q) (mem c p)"
      using fill filled_content(1) [OF cq] filled_content(1) [OF cp] filled_content(3) [OF cq cp] by simp_all
    obtain d where d: "store_item_copy_data hash envs comm q n p c2 = Some (True, upd_item n (data_value_update d) c2)"
        "take (nat nb) (d (data_value (mem c2 n))) = joined comm (mem c q) (mem c p)"
      using copy_data_joined [of c2 n q p hash envs comm] n fl nf(1) a(9) False nbs by auto
    let ?c = "upd_item n (data_value_update d) c2"
    have gf: "good hash ?c v2 L2" "cache_map hash ?c = cache_map hash c2" using good_fill [OF a(2) nh] nf(2) a(9) False by simp_all
    have ex: "\<exists>c4 c5 c6 L3. do_item_replace q n (item_hash hash (mem ?c q)) ?c = Some c4 \<and> do_item_remove q c4 = Some c5 \<and>
        do_item_remove n c5 = Some c6 \<and> good hash c6 ?v L3 \<and>
        cache_map hash c6 = (cache_map hash ?c)(ITEM_key (mem ?c n) \<mapsto> entry_with (ITEM_get_cas (mem c6 n)) (mem ?c n))"
    proof (rule swap_done)
      show "good hash ?c (take_ref q (take_ref n ?v)) L2" using gf(1) v2 by simp
      have "room 3 ?c (take_ref n (take_ref q v))" by (rule room_take [of 3 c]) (use r a(6) in \<open>simp_all add: eval_nat_numeral\<close>)
      then have "few_refs ?c (take_ref n (take_ref q v))" by (rule room_few) simp
      then show "few_refs ?c (take_ref q (take_ref n ?v))" 
        unfolding take_ref_commute [of n q] few_refs_def take_ref_client [OF take_ref_client [of ?v v, simplified]] .
    qed (use a(3,9) q(2) False n(2) nf fill(1,2) nb k(1) content_fields(8) [OF cq] in \<open>simp_all add: has_flag_def key_ok_def ITEM_key_def filled_def\<close>)
    have hq: "item_hash hash (mem ?c q) = item_hash hash (mem c q)"
      using n(2) content_fields(1,8) [OF cq] by (simp add: item_hash_def)
    have "entry_with w (mem ?c n) = (key, nb, joined comm (mem c q) (mem c p), fl, exp, w)" "ITEM_key (mem ?c n) = key" for w
      using nf(3-7) a(9) False d(2) by (auto simp: entry_with_def FLAGS_CONV_def ITEM_key_def has_flag_def)
    then show ?thesis using ex [unfolded hq gf(2)] a(1,5) d(1) False
      by (intro exI [of _ n] exI [of _ c2] exI [of _ ?v]) (auto simp: good_def)
  qed
qed

lemma found_append:
  assumes f: "found hash c v p q c1 L1" and r: "room 4 c1 (take_ref q v)" and fr: "env_fresh (cfg c) env 0 (owned v \<union> crawlers v)"
    and small: "item_total_size (cfg c) (unat (nkey (mem c p))) (FLAGS_CONV (mem c q)) (nbytes (mem c p) + nbytes (mem c q) - 2) \<le> slab_chunk_size_max (cfg c)"
    and lock: "\<And>t j n. \<not> pe_lock (env t) j n (item_hash hash (mem c p))" and fill: "filled (mem c p)" "filled (mem c q)" and ok: "key_ok (mem c p)"
  shows "\<exists>n c2 v'. do_item_alloc hash env (ITEM_key (mem c1 p)) (unat (nkey (mem c1 p))) (FLAGS_CONV (mem c1 q)) (exptime (mem c1 q))
      (nbytes (mem c1 p) + nbytes (mem c1 q) - 2) c1 = Some (n, c2) \<and> client_refs v' = client_refs v \<and>
    (if n = NULL
     then (\<exists>c3. do_item_remove q c2 = Some c3 \<and> cache_reach hash c3 v' \<and> cache_map hash c3 \<subseteq>\<^sub>m cache_map hash c \<and>
       cache_map hash c3 (ITEM_key (mem c p)) = cache_map hash c (ITEM_key (mem c p)))
     else (\<exists>c3 c4 c5 c6 m. store_item_copy_data hash envs comm q n p c2 = Some (True, c3) \<and>
       do_item_replace q n (item_hash hash (mem c p)) c3 = Some c4 \<and> do_item_remove q c4 = Some c5 \<and> do_item_remove n c5 = Some c6 \<and>
       cache_reach hash c6 v' \<and> m \<subseteq>\<^sub>m cache_map hash c \<and>
       cache_map hash c6 = m(ITEM_key (mem c p) \<mapsto> (ITEM_key (mem c p), nbytes (mem c p) + nbytes (mem c q) - 2, joined comm (mem c q) (mem c p),
         FLAGS_CONV (mem c q), exptime (mem c q), ITEM_get_cas (mem c6 n)))))"
proof -
  note d = f [unfolded found_def]
  have cp: "content (mem c1 p) = content (mem c p)" and cq: "content (mem c1 q) = content (mem c q)" using d by simp_all
  note kp = content_fields [OF cp] and kq = content_fields [OF cq]
  have nk: "unat (nkey (mem c p)) < 256" using unsigned_less [of "nkey (mem c p)"] by simp
  have e: "FLAGS_CONV (mem c1 q) = FLAGS_CONV (mem c q)" "joined comm (mem c1 q) (mem c1 p) = joined comm (mem c q) (mem c p)"
    "filled (mem c1 p)" "filled (mem c1 q)"
    using filled_content(2) [OF cq] filled_content(3) [OF cq cp] filled_content(1) [OF cp] filled_content(1) [OF cq] fill by simp_all
  have hv: "item_hash hash (mem c1 q) = item_hash hash (mem c p)" and cf: "cfg c1 = cfg c" and m: "cache_map hash c1 = cache_map hash c" using d by simp_all
  have nb: "nbytes (mem c1 p) + nbytes (mem c1 q) - 2 = nbytes (mem c p) + nbytes (mem c q) - 2" using kp(3) kq(3) by simp
  show ?thesis
    unfolding kp(1,8) e(1) kq(6) nb hv [symmetric] e(2) [symmetric] m [symmetric]
    by (rule append_filled [OF _ r, where L = L1]) (use d e(3,4) key_ok_length [OF ok] nk fr small lock nb cf in simp_all)
qed

lemma do_store_item_append:
  assumes l: "do_item_get (0, False) (ITEM_key (mem c p)) (unat (nkey (mem c p))) (item_hash hash (mem c p)) False c = Some (q, c1)"
    "found hash c v p q c1 L1" and r: "room 4 c1 (take_ref q v)" and fr: "env_fresh (cfg c) env 0 (owned v \<union> crawlers v)"
    and small: "item_total_size (cfg c) (unat (nkey (mem c p))) (FLAGS_CONV (mem c q)) (nbytes (mem c p) + nbytes (mem c q) - 2) \<le> slab_chunk_size_max (cfg c)"
    and lock: "\<And>t j n. \<not> pe_lock (env t) j n (item_hash hash (mem c p))" and fill: "filled (mem c p)" "filled (mem c q)" and key: "key_ok (mem c p)"
    and comm: "comm = NREAD_APPEND \<or> comm = NREAD_PREPEND" and hdr: "\<not> has_flag ITEM_HDR (mem c1 q)"
    and ok: "cas_check (set_stale cn) (ITEM_get_cas (mem c1 p)) (ITEM_get_cas (mem c1 q)) \<in> {CAS_NONE, CAS_MATCH}"
  shows "\<exists>a cn' c' v'. do_store_item hash env envs p comm cn (item_hash hash (mem c p)) c = Some (a, cn', c') \<and> cache_reach hash c' v' \<and>
    client_refs v' = client_refs v \<and>
    (a = NOT_STORED \<and> cache_map hash c' \<subseteq>\<^sub>m cache_map hash c \<and> cache_map hash c' (ITEM_key (mem c p)) = cache_map hash c (ITEM_key (mem c p)) \<or>
     a = STORED \<and> (\<exists>m. m \<subseteq>\<^sub>m cache_map hash c \<and> cache_map hash c' = m(ITEM_key (mem c p) \<mapsto>
       (ITEM_key (mem c p), nbytes (mem c p) + nbytes (mem c q) - 2, joined comm (mem c q) (mem c p), FLAGS_CONV (mem c q), exptime (mem c q), conn_cas cn'))))"
proof -
  have q: "q \<noteq> NULL" using l(2) by (simp add: found_def)
  obtain n c2 v' where a: "do_item_alloc hash env (ITEM_key (mem c1 p)) (unat (nkey (mem c1 p))) (FLAGS_CONV (mem c1 q)) (exptime (mem c1 q))
      (nbytes (mem c1 p) + nbytes (mem c1 q) - 2) c1 = Some (n, c2)" "client_refs v' = client_refs v"
    and s: "if n = NULL
     then (\<exists>c3. do_item_remove q c2 = Some c3 \<and> cache_reach hash c3 v' \<and> cache_map hash c3 \<subseteq>\<^sub>m cache_map hash c \<and>
       cache_map hash c3 (ITEM_key (mem c p)) = cache_map hash c (ITEM_key (mem c p)))
     else (\<exists>c3 c4 c5 c6 m. store_item_copy_data hash envs comm q n p c2 = Some (True, c3) \<and>
       do_item_replace q n (item_hash hash (mem c p)) c3 = Some c4 \<and> do_item_remove q c4 = Some c5 \<and> do_item_remove n c5 = Some c6 \<and>
       cache_reach hash c6 v' \<and> m \<subseteq>\<^sub>m cache_map hash c \<and>
       cache_map hash c6 = m(ITEM_key (mem c p) \<mapsto> (ITEM_key (mem c p), nbytes (mem c p) + nbytes (mem c q) - 2, joined comm (mem c q) (mem c p),
         FLAGS_CONV (mem c q), exptime (mem c q), ITEM_get_cas (mem c6 n))))"
    using found_append [OF l(2) r fr small lock fill key, of envs comm] by blast
  show ?thesis
  proof (cases "n = NULL")
    case True
    then show ?thesis using a s l(1) ok hdr q comm unfolding do_store_item_def store_over_old_def Let_def by auto
  next
    case False
    then obtain c3 c4 c5 c6 m where t: "store_item_copy_data hash envs comm q n p c2 = Some (True, c3)"
        "do_item_replace q n (item_hash hash (mem c p)) c3 = Some c4" "do_item_remove q c4 = Some c5" "do_item_remove n c5 = Some c6"
      and e: "cache_reach hash c6 v'" "m \<subseteq>\<^sub>m cache_map hash c" "cache_map hash c6 = m(ITEM_key (mem c p) \<mapsto> (ITEM_key (mem c p),
        nbytes (mem c p) + nbytes (mem c q) - 2, joined comm (mem c q) (mem c p), FLAGS_CONV (mem c q), exptime (mem c q), ITEM_get_cas (mem c6 n)))"
      using s by auto
    have "do_store_item hash env envs p comm cn (item_hash hash (mem c p)) c = Some (STORED, cn\<lparr>conn_cas := ITEM_get_cas (mem c6 n)\<rparr>, c6)"
      using a(1) t l(1) ok hdr q False comm unfolding do_store_item_def store_over_old_def Let_def by auto
    then show ?thesis using e a(2)
      by (intro exI [of _ STORED] exI [of _ "cn\<lparr>conn_cas := ITEM_get_cas (mem c6 n)\<rparr>"] exI [of _ c6] exI [of _ v']) (simp, blast)
  qed
qed

end
