(* ===== verification/Store_Sample.thy ===== *)
theory Store_Sample
  imports Store_Append
begin

text \<open>
  The small cache with two items under the same key: one linked, with the value \<open>41\<close>, and one a client is about to store, with the value
  \<open>42\<close>. Both values end with a line end.
\<close>

definition pulls_at :: "nat \<Rightarrow> bool \<Rightarrow> nat \<Rightarrow> pull_env" where
  "pulls_at base lk t = \<lparr>pe_lock = (\<lambda>_ _ _. lk), pe_reassign = (\<lambda>_. True),
     pe_alloc = \<lparr>realloc_ok = True, malloc_ret = base + 1000 * t\<rparr>\<rparr>"

lemma pulls_at_region: "0 < base \<Longrightarrow> turn_region sample_slab_settings (pulls_at base lk) t = {base + 1000 * t ..< base + 1000 * t + 200}"
  by (simp add: turn_region_def malloc_region_def region_def pulls_at_def)

lemma pulls_at_fresh: "0 < base \<Longrightarrow> A \<subseteq> {..<base} \<Longrightarrow> env_fresh sample_slab_settings (pulls_at base lk) 0 A"
  unfolding env_fresh_def by (auto simp: pulls_at_region)

lemma pulls_at_obtained: "0 < base \<Longrightarrow> obtained sample_slab_settings (pulls_at base lk) 0 10 \<subseteq> {..< base + 10000}"
  by (auto simp: obtained_def pulls_at_region)

lemma sample_slab_twice:
  "\<exists>m' s'. do_slabs_alloc sample_slab_settings (pe_alloc (pulls_at 1000 True 0)) 62 1 0 (\<lambda>_. zero_item) sample_slabs = Some (1096, m', s') \<and>
     it_flags (m' 1096) = 0 \<and> slabs_clsid_for sample_slab_settings s' 62 = 1 \<and>
     (\<forall>f e. \<exists>m'' s''. do_slabs_alloc sample_slab_settings e 62 1 0 (hupd 1096 f m') s' = Some (1000, m'', s'') \<and> it_flags (m'' 1000) = 0)"
  unfolding slabs_clsid_for_def
  by (subst slabs_clsid_loop.simps) (simp add: slab_run_defs sample_slabclass sample_slab_settings_def sample_settings_def split_two pulls_at_def)

lemma good_alloc:
  assumes g: "good hash c v L" and few: "few_refs c v" and fr: "env_fresh (cfg c) env 0 (owned v \<union> crawlers v)" and nk: "length key = nk" "nk < 256"
    and small: "item_total_size (cfg c) nk fl nb \<le> slab_chunk_size_max (cfg c)" and run: "do_item_alloc hash env key nk fl exp nb c = Some (n, c')" "n \<noteq> NULL"
  shows "\<exists>L'. good hash c' (take_ref n (v\<lparr>owned := owned v \<union> obtained (cfg c) env 0 10\<rparr>)) L' \<and> L' \<subseteq> L \<and> n \<notin> L' \<and> client_refs v n = 0 \<and>
    bump_bufs c' = bump_bufs c \<and> cfg c' = cfg c \<and> new_item (cfg c) key fl exp nb (mem c' n) \<and>
    (\<forall>p. 0 < client_refs v p \<longrightarrow> content (mem c' p) = content (mem c p))"
proof -
  have inv: "cache_inv hash c v L" using g by (simp add: good_def)
  obtain L' where a: "L' \<subseteq> L" "bump_bufs c' = bump_bufs c" "cfg c' = cfg c"
      "next_ok hash c v L {n} c' (take_ref n (v\<lparr>owned := owned v \<union> obtained (cfg c) env 0 10\<rparr>)) L'"
      "n \<notin> L' \<and> client_refs v n = 0 \<and> new_item (cfg c) key fl exp nb (mem c' n)"
    using step_alloc_locked [OF inv few fr nk small locked_empty, of "{}" exp] run by auto
  note s = good_step [OF g cache_step.alloc [OF few fr nk small run(1)] a(4)]
  have "content (mem c' p) = content (mem c p)" if "0 < client_refs v p" for p using s(2) [of p] that a(5) by (cases "p = n") auto
  then show ?thesis using s(1) a by (intro exI [of _ L']) simp
qed

lemma sample_pull_run:
  assumes "do_slabs_alloc (cfg c) (pe_alloc (env 0)) n (unat i) 0 (mem c) (sl c) = Some (p, m', s')" "p \<noteq> NULL" "lru_segmented (cfg c)"
  shows "do_item_alloc_pull hash env n i c = Some (p, c\<lparr>mem := m', sl := s'\<rparr>)"
proof -
  have ten: "(10 :: nat) = Suc 9" by simp
  have "do_item_alloc_pull_loop hash env 10 n i 0 c = Some (p, 0, c\<lparr>mem := m', sl := s'\<rparr>)"
    using assms unfolding ten do_item_alloc_pull_loop.simps by (simp add: Let_def)
  then show ?thesis by (simp add: do_item_alloc_pull_def)
qed

lemma sample_alloc_run:
  assumes "do_slabs_alloc sample_slab_settings (pe_alloc (env 0)) 62 1 0 (mem c) (sl c) = Some (p, m', s')" "p \<noteq> NULL" "it_flags (m' p) = 0"
    "cfg c = sample_slab_settings" "slabs_clsid_for sample_slab_settings (sl c) 62 = 1"
  shows "\<exists>f. do_item_alloc hash env [107] 1 0 0 4 c = Some (p, upd_item p f (c\<lparr>mem := m', sl := s'\<rparr>))"
proof -
  have "do_item_alloc_pull hash env 62 1 c = Some (p, c\<lparr>mem := m', sl := s'\<rparr>)"
    by (rule sample_pull_run) (use assms in simp_all)
  then show ?thesis using assms item_setup_flags(1) [OF assms(3)]
    by (simp add: do_item_alloc_def Let_def sample_size [simplified]) blast
qed

lemma good_link_item:
  assumes g: "good hash c v L" and few: "few_refs c v" and p: "0 < client_refs v p" "\<not> has_flag ITEM_LINKED (mem c p)"
      "key_ok (mem c p)" "2 \<le> nbytes (mem c p)" and new: "cache_map hash c (ITEM_key (mem c p)) = None"
  shows "\<exists>c'. good hash c' v (insert p L) \<and> core (mem c' p) = core (linked_item c (mem c p)) \<and> bump_bufs c' = bump_bufs c \<and> cfg c' = cfg c \<and>
    (\<forall>q. q \<noteq> p \<longrightarrow> content (mem c' q) = content (mem c q))"
proof -
  have inv: "cache_inv hash c v L" using g by (simp add: good_def)
  obtain c' where l: "do_item_link p (item_hash hash (mem c p)) c = Some c'" "next_ok hash c v L {p} c' v (insert p L)" "kept (- {p}) c c'"
      "core (mem c' p) = core (linked_item c (mem c p))"
    using step_link [OF inv few p new] by blast
  have f: "assoc_find (ITEM_key (mem c p)) (unat (nkey (mem c p))) (item_hash hash (mem c p)) (mem c) (ht c) = Some NULL"
    using cache_map_None [OF inv new key_ok_length [OF p(3)]] by (simp add: item_hash_def)
  from good_step(1) [OF g cache_step.link [OF few p f l(1)] l(2)] have "good hash c' v (insert p L)" .
  moreover have "bump_bufs c' = bump_bufs c" "cfg c' = cfg c" using l(3) by (simp_all add: kept_def)
  moreover have "content (mem c' q) = content (mem c q)" if "q \<noteq> p" for q using content_core [OF keptD(4) [OF l(3), of q]] that by simp
  ultimately show ?thesis using l(4) by blast
qed

definition value_item :: "byte list \<Rightarrow> item \<Rightarrow> item" where
  "value_item d x = x\<lparr>data_value := d, data_cas := 0\<rparr>"

lemma value_item_write: "client_write (value_item d)"
  by (simp add: client_write_def value_item_def has_flag_def ITEM_clsid_def)

definition sample_item :: "byte list \<Rightarrow> item \<Rightarrow> bool" where
  "sample_item d x \<longleftrightarrow> ITEM_key x = [107] \<and> key_ok x \<and> nbytes x = 4 \<and> exptime x = 0 \<and> FLAGS_CONV x = 0 \<and> data_value x = d \<and>
     \<not> has_flag ITEM_HDR x \<and> \<not> has_flag ITEM_CHUNKED x \<and> has_flag ITEM_CAS x"

lemma sample_item_new: "new_item sample_slab_settings [107] 0 0 4 x \<Longrightarrow> sample_item d (value_item d x)"
  unfolding new_item_def sample_item_def value_item_def FLAGS_CONV_def ITEM_key_def key_ok_def has_flag_def by simp

lemma sample_item_content: "content x = content y \<Longrightarrow> sample_item d x = sample_item d y"
  using content_fields [of x y] content_has_flag [of x y ITEM_HDR] content_has_flag [of x y ITEM_CHUNKED] content_has_flag [of x y ITEM_CAS]
    filled_content(2) [of x y]
  by (simp add: sample_item_def)

lemma sample_item_linked:
  assumes "core y = core (linked_item c x)" "sample_item d x"
  shows "sample_item d y"
proof -
  have "sample_item d (linked_item c x)"
    using assms(2) unfolding linked_item_def sample_item_def ITEM_set_cas_def set_flag_def FLAGS_CONV_def ITEM_key_def key_ok_def has_flag_def
    by (simp add: bit.conj_disj_distrib2 split: if_split_asm)
  then show ?thesis using sample_item_content [OF content_core [OF assms(1)]] by simp
qed

lemma sample_room:
  assumes "bump_bufs c = [\<lparr>bump_entries = [], dropped = 0\<rparr>]" "\<And>p. client_refs v p \<le> 2" "n \<le> 10"
  shows "room n c v"
proof -
  have "client_refs v p + n < 65536" for p using assms(2) [of p] assms(3) by simp
  then show ?thesis using assms(1) by (simp add: room_def all_refs_def pending_def)
qed

lemma sample_one:
  "\<exists>c v c'. good zero_hash c v {} \<and> client_refs v = (\<lambda>_. 0)(1096 := 1) \<and> bump_bufs c = [\<lparr>bump_entries = [], dropped = 0\<rparr>] \<and>
     cfg c = sample_slab_settings \<and> owned v \<union> crawlers v \<subseteq> {..<20000} \<and> sample_item [52, 49, 13, 10] (mem c 1096) \<and>
     do_item_alloc zero_hash (pulls_at 20000 True) [107] 1 0 0 4 c = Some (1000, c')"
proof -
  obtain m' s' where s1: "do_slabs_alloc sample_slab_settings (pe_alloc (pulls_at 1000 True 0)) 62 1 0 (\<lambda>_. zero_item) sample_slabs = Some (1096, m', s')"
      "it_flags (m' 1096) = 0" "slabs_clsid_for sample_slab_settings s' 62 = 1"
    and s2: "\<And>f e. \<exists>m'' s''. do_slabs_alloc sample_slab_settings e 62 1 0 (hupd 1096 f m') s' = Some (1000, m'', s'') \<and> it_flags (m'' 1000) = 0"
    using sample_slab_twice by auto
  obtain f where a1: "do_item_alloc zero_hash (pulls_at 1000 True) [107] 1 0 0 4 sample_cache = Some (1096, upd_item 1096 f (sample_cache\<lparr>mem := m', sl := s'\<rparr>))"
    using sample_alloc_run [of "pulls_at 1000 True" sample_cache] s1 sample_class by auto
  define c1 v1 where "c1 = upd_item 1096 f (sample_cache\<lparr>mem := m', sl := s'\<rparr>)"
    and "v1 = take_ref 1096 (empty_view\<lparr>owned := owned empty_view \<union> obtained (cfg sample_cache) (pulls_at 1000 True) 0 10\<rparr>)"
  have g0: "good zero_hash sample_cache empty_view {}" using sample_start_inv(1) cache_reach.start [OF sample_start] by (simp add: good_def)
  have v1: "client_refs v1 = (\<lambda>_. 0)(1096 := 1)" "owned v1 \<union> crawlers v1 \<subseteq> {..<20000}"
    using pulls_at_obtained [of 1000 True] by (auto simp: v1_def take_ref_def empty_view_def)
  have g1: "good zero_hash c1 v1 {}" "bump_bufs c1 = [\<lparr>bump_entries = [], dropped = 0\<rparr>]" "cfg c1 = sample_slab_settings"
      "new_item sample_slab_settings [107] 0 0 4 (mem c1 1096)"
    using good_alloc [OF g0 sample_start_inv(2) _ _ _ _ a1] pulls_at_fresh [of 1000 "{}" True] sample_size
    by (auto simp: c1_def [symmetric] v1_def empty_view_def)
  define c2 where "c2 = upd_item 1096 (value_item [52, 49, 13, 10]) c1"
  have nl: "\<not> has_flag ITEM_LINKED (mem c1 1096)" using good_held(1) [OF g1(1), of 1096] v1(1) by simp
  have g2: "good zero_hash c2 v1 {}" "sample_item [52, 49, 13, 10] (mem c2 1096)" "bump_bufs c2 = bump_bufs c1" "cfg c2 = sample_slab_settings"
    using good_fill [OF g1(1) _ nl value_item_write] v1(1) sample_item_new [OF g1(4)] g1(3) by (simp_all add: c2_def)
  have "mem c2 = hupd 1096 (value_item [52, 49, 13, 10] \<circ> f) m'" "sl c2 = s'"
    by (simp_all add: c2_def c1_def upd_item_def hupd_def fun_eq_iff)
  then obtain m'' s'' where s2': "do_slabs_alloc sample_slab_settings (pe_alloc (pulls_at 20000 True 0)) 62 1 0 (mem c2) (sl c2) = Some (1000, m'', s'')" "it_flags (m'' 1000) = 0"
    using s2 [of "pe_alloc (pulls_at 20000 True 0)" "value_item [52, 49, 13, 10] \<circ> f"] by auto
  obtain c3 where a3: "do_item_alloc zero_hash (pulls_at 20000 True) [107] 1 0 0 4 c2 = Some (1000, c3)"
    using sample_alloc_run [of "pulls_at 20000 True" c2, OF s2'(1) _ s2'(2) g2(4)] s1(3) \<open>sl c2 = s'\<close> by auto
  show ?thesis using g2 v1 a3 g1(2) by (intro exI [of _ c2] exI [of _ v1] exI [of _ c3]) simp
qed

lemma sample_two:
  "\<exists>c v. good zero_hash c v {1096} \<and> client_refs v = (\<lambda>_. 0)(1096 := 1, 1000 := 1) \<and> bump_bufs c = [\<lparr>bump_entries = [], dropped = 0\<rparr>] \<and>
     cfg c = sample_slab_settings \<and> owned v \<union> crawlers v \<subseteq> {..<40000} \<and>
     sample_item [52, 49, 13, 10] (mem c 1096) \<and> sample_item [52, 50, 13, 10] (mem c 1000) \<and> ITEM_get_cas (mem c 1000) = 0"
proof -
  obtain c2 v1 c3 where g2: "good zero_hash c2 v1 {}" "client_refs v1 = (\<lambda>_. 0)(1096 := 1)" "bump_bufs c2 = [\<lparr>bump_entries = [], dropped = 0\<rparr>]"
      "cfg c2 = sample_slab_settings" "owned v1 \<union> crawlers v1 \<subseteq> {..<20000}" "sample_item [52, 49, 13, 10] (mem c2 1096)"
    and a3: "do_item_alloc zero_hash (pulls_at 20000 True) [107] 1 0 0 4 c2 = Some (1000, c3)"
    using sample_one by blast
  have few: "few_refs c2 v1" by (rule room_few [OF sample_room [of c2 v1 3]]) (use g2(2,3) in simp_all)
  define v3 where "v3 = take_ref 1000 (v1\<lparr>owned := owned v1 \<union> obtained (cfg c2) (pulls_at 20000 True) 0 10\<rparr>)"
  have v3: "client_refs v3 = (\<lambda>_. 0)(1096 := 1, 1000 := 1)" "owned v3 \<union> crawlers v3 \<subseteq> {..<40000}"
    using pulls_at_obtained [of 20000 True] g2(2,4,5) by (auto simp: v3_def take_ref_def)
  have fr: "env_fresh (cfg c2) (pulls_at 20000 True) 0 (owned v1 \<union> crawlers v1)" using pulls_at_fresh [of 20000 _ True] g2(4,5) by simp
  have g3: "good zero_hash c3 v3 {}" "bump_bufs c3 = bump_bufs c2" "cfg c3 = cfg c2" "new_item sample_slab_settings [107] 0 0 4 (mem c3 1000)"
      "content (mem c3 1096) = content (mem c2 1096)"
    using good_alloc [OF g2(1) few fr _ _ _ a3] g2(2,4) sample_size by (auto simp: v3_def)
  have nl: "\<not> has_flag ITEM_LINKED (mem c3 1000)" "\<not> has_flag ITEM_LINKED (mem c3 1096)" using good_held(1) [OF g3(1)] v3(1) by simp_all
  define c4 where "c4 = upd_item 1000 (value_item [52, 50, 13, 10]) c3"
  have g4: "good zero_hash c4 v3 {}" "sample_item [52, 50, 13, 10] (mem c4 1000)" "ITEM_get_cas (mem c4 1000) = 0"
      "sample_item [52, 49, 13, 10] (mem c4 1096)" "\<not> has_flag ITEM_LINKED (mem c4 1096)"
    using good_fill [OF g3(1) _ nl(1) value_item_write] v3(1) sample_item_new [OF g3(4)] sample_item_content [OF g3(5)] g2(6) nl(2)
    by (simp_all add: c4_def ITEM_get_cas_def value_item_def)
  have k: "ITEM_key (mem c4 1096) = [107]" "key_ok (mem c4 1096)" "nbytes (mem c4 1096) = 4" using g4(4) by (simp_all add: sample_item_def)
  have "cache_map zero_hash c4 (ITEM_key (mem c4 1096)) = None" using cache_map_absent [of zero_hash c4 v3 "{}"] g4(1) by (simp add: good_def)
  moreover have "few_refs c4 v3" by (rule room_few [OF sample_room [of c4 v3 3]]) (use g2(3) g3(2) v3(1) in \<open>simp_all add: c4_def\<close>)
  ultimately obtain c5 where l: "good zero_hash c5 v3 {1096}" "core (mem c5 1096) = core (linked_item c4 (mem c4 1096))" "bump_bufs c5 = bump_bufs c4"
      "cfg c5 = cfg c4" "content (mem c5 1000) = content (mem c4 1000)"
    using good_link_item [OF g4(1) _ _ g4(5) k(2)] k v3(1) by auto
  have "sample_item [52, 49, 13, 10] (mem c5 1096)" by (rule sample_item_linked [OF l(2) g4(4)])
  moreover have "sample_item [52, 50, 13, 10] (mem c5 1000)" "ITEM_get_cas (mem c5 1000) = 0"
    using sample_item_content [OF l(5)] content_get_cas [OF l(5)] g4(2,3) by simp_all
  ultimately show ?thesis using l(1,3,4) v3 g2(3,4) g3(2,3)
    by (intro exI [of _ c5] exI [of _ v3]) (simp add: c4_def)
qed

lemma sample_live_linked:
  assumes "good hash c v L" "cfg c = sample_slab_settings" "p \<in> L" "ITEM_key (mem c p) = key" "exptime (mem c p) = 0"
  shows "live_item hash c key = p"
proof -
  have inv: "cache_inv hash c v L" using assms(1) by (simp add: good_def)
  obtain q where q: "assoc_find key (length key) (hash key (length key)) (mem c) (ht c) = Some q" "assoc_abs (mem c) L key = (if q = NULL then None else Some q)"
      "q \<noteq> NULL \<longrightarrow> q \<in> L \<and> ITEM_key (mem c q) = key"
    by (rule cache_find [OF inv refl])
  have "cache_map hash c key \<noteq> None" using cache_map_absent [OF inv] assms(3,4) by blast
  then have "q \<noteq> NULL" using q(2) cache_map_abs [OF inv] by (cases "q = NULL") auto
  then have "q = p" using cache_keys_distinct [OF inv, of q p] q(3) assms(3,4) by simp
  then show ?thesis using q(1) \<open>q \<noteq> NULL\<close> assms(2,5) by (simp add: live_item_def dead_def item_is_flushed_def)
qed

end
