(* ===== verification/Store_Delta.thy ===== *)
theory Store_Delta
  imports Store_Append
begin

text \<open>
  incr and decr: the lemmas behind their property. A linked item that only the table and this command refer to is rewritten in
  place; otherwise a new item takes its place.
\<close>

section \<open>Bookkeeping and rewriting in place\<close>

lemma good_book:
  assumes "good hash c v L"
  shows "good hash (c\<lparr>cas_id := w, stats_sizes_hist := h\<rparr>) v L" "cache_map hash (c\<lparr>cas_id := w, stats_sizes_hist := h\<rparr>) = cache_map hash c"
proof -
  have inv: "cache_inv hash c v L" using assms by (simp add: good_def)
  show g: "good hash (c\<lparr>cas_id := w, stats_sizes_hist := h\<rparr>) v L" by (rule good_step(1) [OF assms cache_step.book step_book [OF inv]])
  show "cache_map hash (c\<lparr>cas_id := w, stats_sizes_hist := h\<rparr>) = cache_map hash c"
    by (rule cache_map_same [OF inv, where v' = v]) (use g in \<open>simp_all add: good_def\<close>)
qed

lemma good_rewrite:
  assumes g: "good hash c v L" and p: "0 < client_refs v p" "p \<in> L" "refcount (mem c p) = 2" and f: "client_rewrite f"
  shows "good hash (upd_item p f c) v L" "cache_map hash (upd_item p f c) = (cache_map hash c)(ITEM_key (mem c p) \<mapsto> entry (f (mem c p)))"
proof -
  have inv: "cache_inv hash c v L" using g by (simp add: good_def)
  have l: "has_flag ITEM_LINKED (mem c p)" using good_held(1) [OF g p(1)] p(2) by simp
  have key: "ITEM_key (f x) = ITEM_key x" for x using f by (simp add: client_rewrite_def shape_def ITEM_key_def)
  have o: "mem (upd_item p f c) q = (if q = p then f (mem c p) else mem c q)" for q by (cases "q = p") simp_all
  note s = good_step [OF g cache_step.rewrite [OF p(1) l p(3) f] step_rewrite [OF inv p(1) f]]
  show "good hash (upd_item p f c) v L" by (rule s(1))
  have inv': "cache_inv hash (upd_item p f c) v L" using s(1) by (simp add: good_def)
  show "cache_map hash (upd_item p f c) = (cache_map hash c)(ITEM_key (mem c p) \<mapsto> entry (f (mem c p)))"
  proof
    fix k
    show "cache_map hash (upd_item p f c) k = ((cache_map hash c)(ITEM_key (mem c p) \<mapsto> entry (f (mem c p)))) k"
    proof (cases "k = ITEM_key (mem c p)")
      case True
      have "cache_map hash (upd_item p f c) (ITEM_key (mem c p)) = Some (entry (f (mem c p)))"
        unfolding cache_map_Some [OF inv'] using p(2) key by (intro bexI [of _ p]) simp_all
      then show ?thesis using True by simp
    next
      case False
      have "cache_map hash (upd_item p f c) k = cache_map hash c k"
        by (rule cache_map_other [OF inv inv' False]) (use key in \<open>auto simp: o split: if_splits\<close>)
      then show ?thesis using False by simp
    qed
  qed
qed

section \<open>The value\<close>

definition counter_value :: "nat \<Rightarrow> byte list \<Rightarrow> byte list" where
  "counter_value n buf = buf @ replicate (n - 2 - length buf) 32 @ [13, 10]"

definition rewritten :: "u64 \<Rightarrow> byte list \<Rightarrow> item \<Rightarrow> item" where
  "rewritten w buf x = (ITEM_set_cas w x)\<lparr>data_value :=
     memcpy_at (length buf) (replicate (nat (nbytes x - int (length buf) - 2)) 32) (memcpy_at 0 buf (data_value x))\<rparr>"

lemma sizes_change_book: "\<exists>h. item_stats_sizes_change f p c = c\<lparr>stats_sizes_hist := h\<rparr>"
proof
  show "item_stats_sizes_change f p c = c\<lparr>stats_sizes_hist := stats_sizes_hist (item_stats_sizes_change f p c)\<rparr>"
    by (simp add: item_stats_sizes_change_def Let_def split: option.split)
qed

lemma delta_in_place_eq:
  "\<exists>u h. delta_in_place p buf c =
     do_item_update p (upd_item p (rewritten (if use_cas (cfg c) then cas_id c + 1 else 0) buf) (c\<lparr>cas_id := u, stats_sizes_hist := h\<rparr>))"
proof -
  obtain h1 where h1: "item_stats_sizes_remove p c = c\<lparr>stats_sizes_hist := h1\<rparr>"
    using sizes_change_book unfolding item_stats_sizes_remove_def by blast
  define u where "u = (if use_cas (cfg c) then cas_id c + 1 else cas_id c)"
  define w where "w = (if use_cas (cfg c) then cas_id c + 1 else 0)"
  obtain h2 where h2: "item_stats_sizes_add p (upd_item p (ITEM_set_cas w) (c\<lparr>stats_sizes_hist := h1, cas_id := u\<rparr>)) =
      (upd_item p (ITEM_set_cas w) (c\<lparr>stats_sizes_hist := h1, cas_id := u\<rparr>))\<lparr>stats_sizes_hist := h2\<rparr>"
    using sizes_change_book unfolding item_stats_sizes_add_def by blast
  have n: "nbytes (ITEM_set_cas w x) = nbytes x" "data_value (ITEM_set_cas w x) = data_value x" for x by (simp_all add: ITEM_set_cas_def)
  have cas: "(if use_cas (cfg (c\<lparr>stats_sizes_hist := h1\<rparr>)) then get_cas_id (c\<lparr>stats_sizes_hist := h1\<rparr>) else (0, c\<lparr>stats_sizes_hist := h1\<rparr>)) =
      (w, c\<lparr>stats_sizes_hist := h1, cas_id := u\<rparr>)"
    by (simp add: get_cas_id_def w_def u_def)
  have "delta_in_place p buf c =
      do_item_update p (upd_item p (rewritten w buf) (c\<lparr>cas_id := u, stats_sizes_hist := h2\<rparr>))"
    unfolding delta_in_place_def Let_def h1 cas prod.case h2 rewritten_def [abs_def] by (simp add: upd_item_def hupd_def n)
  then show ?thesis unfolding w_def by blast
qed

lemma rewrite_rewritten: "client_rewrite (rewritten w buf)"
  by (simp add: client_rewrite_def rewritten_def ITEM_set_cas_def shape_def lru_bytes_def ITEM_ntotal_def has_flag_def)

definition lined :: "item \<Rightarrow> bool" where
  "lined x \<longleftrightarrow> filled x \<and> drop (nat (nbytes x) - 2) (take (nat (nbytes x)) (data_value x)) = [13, 10]"

lemma entry_rewritten:
  assumes "lined x" "int (length buf) + 2 \<le> nbytes x"
  shows "entry (rewritten w buf x) = (ITEM_key x, nbytes x, counter_value (nat (nbytes x)) buf, FLAGS_CONV x, exptime x, if has_flag ITEM_CAS x then w else 0)"
proof -
  let ?n = "nat (nbytes x)" and ?d = "data_value x"
  have "length buf + 2 \<le> ?n" using assms(2) by linarith
  then obtain m where n: "?n = length buf + m + 2" using le_Suc_ex [of "length buf + 2" ?n] by auto
  have len: "?n \<le> length ?d" using assms(1) by (simp add: lined_def filled_def)
  have e: "nat (nbytes x - int (length buf) - 2) = m" using n by linarith
  have "memcpy_at (length buf) (replicate m 32) (memcpy_at 0 buf ?d) = buf @ replicate m 32 @ drop (length buf + m) ?d"
    using len n by (simp add: memcpy_at_def add.commute)
  then have "take ?n (data_value (rewritten w buf x)) = buf @ replicate m 32 @ take 2 (drop (length buf + m) ?d)"
    unfolding rewritten_def using e n by simp
  also have "take 2 (drop (length buf + m) ?d) = [13, 10]" using assms(1) n unfolding lined_def take_drop by simp
  finally have "take ?n (data_value (rewritten w buf x)) = counter_value ?n buf" using n by (simp add: counter_value_def)
  then show ?thesis by (auto simp: entry_def rewritten_def ITEM_set_cas_def ITEM_get_cas_def FLAGS_CONV_def has_flag_def ITEM_key_def)
qed


section \<open>The two ways to store the result\<close>

lemma good_entry:
  assumes "good hash c v L" "q \<in> L"
  shows "cache_map hash c (ITEM_key (mem c q)) = Some (entry (mem c q))"
  using assms cache_map_Some [of hash c v L] unfolding good_def by blast

lemma delta_in_place_ok:
  assumes g: "good hash c v L" and q: "0 < client_refs v q" "q \<in> L" "refcount (mem c q) = 2" and x: "lined (mem c q)" "int (length buf) + 2 \<le> nbytes (mem c q)"
  shows "\<exists>c'. delta_in_place q buf c = Some c' \<and> good hash c' v L \<and>
    cache_map hash c' = (cache_map hash c)(ITEM_key (mem c q) \<mapsto> (ITEM_key (mem c q), nbytes (mem c q), counter_value (nat (nbytes (mem c q))) buf,
      FLAGS_CONV (mem c q), exptime (mem c q), ITEM_get_cas (mem c' q)))"
proof -
  obtain u h w where d: "delta_in_place q buf c = do_item_update q (upd_item q (rewritten w buf) (c\<lparr>cas_id := u, stats_sizes_hist := h\<rparr>))"
    using delta_in_place_eq by blast
  let ?c = "upd_item q (rewritten w buf) (c\<lparr>cas_id := u, stats_sizes_hist := h\<rparr>)"
  note b = good_book [OF g, where w = u and h = h]
  have r: "good hash ?c v L" "cache_map hash ?c = (cache_map hash c)(ITEM_key (mem c q) \<mapsto> entry (rewritten w buf (mem c q)))"
    using good_rewrite [OF b(1) q(1,2) _ rewrite_rewritten] q(3) b(2) by simp_all
  obtain c' where c': "do_item_update q ?c = Some c'" "good hash c' v L" "cache_map hash c' = cache_map hash ?c" "content (mem c' q) = content (mem ?c q)"
    using good_update [OF r(1) q(1)] q(2) by blast
  have "ITEM_get_cas (mem c' q) = ITEM_get_cas (rewritten w buf (mem c q))" using content_get_cas [OF c'(4)] by simp
  also have "\<dots> = (if has_flag ITEM_CAS (mem c q) then w else 0)" by (simp add: rewritten_def ITEM_get_cas_def ITEM_set_cas_def has_flag_def)
  finally show ?thesis using d c' r(2) entry_rewritten [OF x, of w] by simp
qed

lemma new_value: "take (length buf + 2) ((memcpy_at (length buf) [13, 10] \<circ> memcpy_at 0 buf) d) = counter_value (length buf + 2) buf"
  by (simp add: memcpy_at_def counter_value_def)

lemma flags_value: "FLAGS_CONV (data_value_update f x) = FLAGS_CONV x"
  by (simp add: FLAGS_CONV_def has_flag_def)

lemma delta_replace_ok:
  assumes g: "good hash c (take_ref q v) L" and r: "room 4 c (take_ref q v)" and q: "q \<in> L" "q \<noteq> NULL" and k: "ITEM_key (mem c q) = key" "length key = nk" "nk < 256"
      "unat (nkey (mem c q)) = nk"
    and fr: "env_fresh (cfg c) env 0 (owned v \<union> crawlers v)" and lock: "\<And>t j n. \<not> pe_lock (env t) j n (item_hash hash (mem c q))"
    and small: "item_total_size (cfg c) nk (FLAGS_CONV (mem c q)) (int (length buf) + 2) \<le> slab_chunk_size_max (cfg c)"
    and cas: "has_flag ITEM_CAS (mem c q) \<longleftrightarrow> use_cas (cfg c)"
  shows "\<exists>ok c' v' m. delta_replace hash env q buf (item_hash hash (mem c q)) c = Some (ok, c') \<and> client_refs v' = client_refs v \<and> m \<subseteq>\<^sub>m cache_map hash c \<and>
    (if ok then \<exists>L'. good hash c' (take_ref q v') L' \<and> cache_map hash c' = m(key \<mapsto> (key, int (length buf) + 2, counter_value (length buf + 2) buf,
       FLAGS_CONV (mem c q), exptime (mem c q), ITEM_get_cas (mem c' q)))
     else cache_reach hash c' v' \<and> cache_map hash c' = m \<and> m key = cache_map hash c key)"
proof -
  let ?v = "v\<lparr>owned := owned v \<union> obtained (cfg c) env 0 10\<rparr>" and ?nb = "int (length buf) + 2" and ?fl = "FLAGS_CONV (mem c q)" and ?e = "exptime (mem c q)"
  let ?w = "memcpy_at (length buf) [13, 10] \<circ> memcpy_at 0 buf"
  have h: "0 < client_refs (take_ref q v) q" using q(2) by simp
  have few: "few_refs c (take_ref q v)" by (rule room_few [OF r]) simp
  have fr': "env_fresh (cfg c) env 0 (owned (take_ref q v) \<union> crawlers (take_ref q v))" using fr by simp
  obtain n c1 L1 v1 where a: "do_item_alloc hash env key nk ?fl ?e ?nb c = Some (n, c1)" "good hash c1 v1 L1" "q \<in> L1"
      "v1 = take_ref n (take_ref q ?v)" "cache_map hash c1 \<subseteq>\<^sub>m cache_map hash c" "bump_bufs c1 = bump_bufs c"
      "content (mem c1 q) = content (mem c q)" "cache_map hash c1 key = cache_map hash c key"
      "n \<noteq> NULL \<longrightarrow> n \<notin> L1 \<and> new_item (cfg c) key ?fl ?e ?nb (mem c1 n)"
    using good_alloc_over [OF g few q(1) h k(1-3) fr' small lock, where exp = ?e] h unfolding take_ref_fields take_ref_owned by blast
  show ?thesis
  proof (cases "n = NULL")
    case True
    obtain c2 where "do_item_remove q c1 = Some c2" "good hash c2 ?v L1" "cache_map hash c2 = cache_map hash c1"
      using good_remove [OF a(2), of q] a(4) True q(2) by auto
    then show ?thesis using a(1,5,8) True k(1,4)
      by (intro exI [of _ False] exI [of _ c2] exI [of _ ?v] exI [of _ "cache_map hash c1"]) (simp add: good_def delta_replace_def)
  next
    case False
    note nf = new_item_flags [of "cfg c" key ?fl ?e ?nb "mem c1 n"]
    have nq: "n \<noteq> q" and ni: "new_item (cfg c) key ?fl ?e ?nb (mem c1 n)" "n \<notin> L1" using a(3,9) False by auto
    let ?c2 = "upd_item n (data_value_update ?w) c1"
    have gf: "good hash ?c2 v1 L1" "cache_map hash ?c2 = cache_map hash c1"
      using good_fill [OF a(2), of n "data_value_update ?w"] nf(2) ni(1) False a(4) by simp_all
    have "room 3 ?c2 (take_ref n (take_ref q v))" by (rule room_take [of 3 c]) (use r a(6) in \<open>simp_all add: eval_nat_numeral\<close>)
    then have "few_refs ?c2 (take_ref n (take_ref q v))" by (rule room_few) simp
    then have few2: "few_refs ?c2 v1" unfolding a(4) few_refs_def take_ref_client [OF take_ref_client [of ?v v, simplified]] .
    have h2: "0 < client_refs v1 q" "0 < client_refs v1 n" using q(2) False by (simp_all add: a(4))
    have nk2: "\<not> has_flag ITEM_LINKED (mem ?c2 n)" "key_ok (mem ?c2 n)" "2 \<le> nbytes (mem ?c2 n)" "ITEM_key (mem ?c2 n) = key"
      using nf [OF ni(1)] by (simp_all add: has_flag_def key_ok_def ITEM_key_def)
    have kq: "ITEM_key (mem ?c2 q) = key" "item_hash hash (mem ?c2 q) = item_hash hash (mem c q)"
      using content_fields(1,8) [OF a(7)] k(1) nq by (simp_all add: item_hash_def)
    obtain c3 where c3: "do_item_replace q n (item_hash hash (mem c q)) ?c2 = Some c3" "good hash c3 v1 (insert n (L1 - {q}))"
        "cache_map hash c3 = (cache_map hash c1)(key \<mapsto> entry_with (ITEM_get_cas (mem c3 n)) (mem ?c2 n))" "content (mem c3 q) = content (mem ?c2 q)"
        "ITEM_get_cas (mem c3 n) = (if has_flag ITEM_CAS (mem ?c2 n) \<and> use_cas (cfg ?c2) then cas_id ?c2 + 1 else 0)" "cfg c3 = cfg ?c2"
      using good_replace [OF gf(1) few2 a(3) h2 nk2(1-3), unfolded kq nk2(4) gf(2), OF refl] by (elim exE conjE) (rule that)
    have ql: "\<not> has_flag ITEM_LINKED (mem c3 q)" using good_held(1) [OF c3(2) h2(1)] nq by simp
    let ?g = "ITEM_set_cas (if use_cas (cfg c3) then ITEM_get_cas (mem c3 n) else 0)"
    have gw: "client_write ?g" by (simp add: client_write_def ITEM_set_cas_def has_flag_def ITEM_clsid_def)
    let ?c4 = "upd_item q ?g c3"
    have c4: "good hash ?c4 v1 (insert n (L1 - {q}))" "cache_map hash ?c4 = cache_map hash c3" using good_fill [OF c3(2) h2(1) ql gw] by simp_all
    obtain c5 where c5: "do_item_remove n ?c4 = Some c5" "good hash c5 (drop_ref n v1) (insert n (L1 - {q}))" "cache_map hash c5 = cache_map hash ?c4"
        "content (mem c5 n) = content (mem ?c4 n)" "content (mem c5 q) = content (mem ?c4 q)"
      using good_remove [OF c4(1) h2(2)] nq h2(1) by blast
    have qc: "has_flag ITEM_CAS (mem c3 q) = has_flag ITEM_CAS (mem c q)"
      using content_has_flag [OF c3(4), of ITEM_CAS] content_has_flag [OF a(7), of ITEM_CAS] nq by simp
    have nc: "has_flag ITEM_CAS (mem ?c2 n) = use_cas (cfg c)" using ni(1) by (auto simp: new_item_def has_flag_def)
    have "ITEM_get_cas (mem c5 q) = ITEM_get_cas (?g (mem c3 q))" using content_get_cas [OF c5(5)] by simp
    also have "\<dots> = (if has_flag ITEM_CAS (mem c3 q) \<and> use_cas (cfg c3) then ITEM_get_cas (mem c3 n) else 0)"
      by (cases "has_flag ITEM_CAS (mem c3 q)") (simp_all add: ITEM_set_cas_def ITEM_get_cas_def has_flag_def)
    also have "\<dots> = ITEM_get_cas (mem c3 n)" using qc nc cas c3(5,6) by simp
    finally have w: "ITEM_get_cas (mem c5 q) = ITEM_get_cas (mem c3 n)" .
    have e: "entry_with u (mem ?c2 n) = (key, ?nb, counter_value (length buf + 2) buf, ?fl, ?e, u)" for u
      using nf(3-7) [OF ni(1)] nk2(4) new_value [of buf "data_value (mem c1 n)"] by (simp add: entry_with_def flags_value nat_add_distrib)
    have v1: "drop_ref n v1 = take_ref q ?v" using False by (simp add: a(4))
    have "delta_replace hash env q buf (item_hash hash (mem c q)) c = Some (True, c5)"
      using a(1) k(1,4) False c3(1) c5(1) by (simp add: delta_replace_def)
    then show ?thesis using a(5) c5(2,3) c4(2) c3(3) e v1 w
      by (intro exI [of _ True] exI [of _ c5] exI [of _ ?v] exI [of _ "cache_map hash c1"]) auto
  qed
qed


lemma delta_stored:
  assumes g: "good hash c (take_ref q v) L" and r: "room 4 c (take_ref q v)" and q: "q \<in> L" "q \<noteq> NULL" and k: "ITEM_key (mem c q) = key" "length key = nk" "nk < 256"
      "unat (nkey (mem c q)) = nk"
    and fr: "env_fresh (cfg c) env 0 (owned v \<union> crawlers v)" and lock: "\<And>t j n. \<not> pe_lock (env t) j n (item_hash hash (mem c q))"
    and small: "item_total_size (cfg c) nk (FLAGS_CONV (mem c q)) (int (length buf) + 2) \<le> slab_chunk_size_max (cfg c)"
    and cas: "has_flag ITEM_CAS (mem c q) \<longleftrightarrow> use_cas (cfg c)" and x: "lined (mem c q)"
  shows "\<exists>ok c' v' m. (if int (length buf) + 2 \<le> nbytes (mem c q) \<and> refcount (mem c q) = 2 then map_option (Pair True) (delta_in_place q buf c)
      else delta_replace hash env q buf (item_hash hash (mem c q)) c) = Some (ok, c') \<and> client_refs v' = client_refs v \<and> m \<subseteq>\<^sub>m cache_map hash c \<and>
    (if ok then \<exists>L' n. good hash c' (take_ref q v') L' \<and> n \<in> {nbytes (mem c q), int (length buf) + 2} \<and> int (length buf) + 2 \<le> n \<and>
       cache_map hash c' = m(key \<mapsto> (key, n, counter_value (nat n) buf, FLAGS_CONV (mem c q), exptime (mem c q), ITEM_get_cas (mem c' q)))
     else cache_reach hash c' v' \<and> cache_map hash c' = m \<and> m key = cache_map hash c key)"
proof (cases "int (length buf) + 2 \<le> nbytes (mem c q) \<and> refcount (mem c q) = 2")
  case True
  obtain c' where "delta_in_place q buf c = Some c'" "good hash c' (take_ref q v) L"
      "cache_map hash c' = (cache_map hash c)(key \<mapsto> (key, nbytes (mem c q), counter_value (nat (nbytes (mem c q))) buf,
        FLAGS_CONV (mem c q), exptime (mem c q), ITEM_get_cas (mem c' q)))"
    using delta_in_place_ok [OF g _ q(1) _ x] True q(2) k(1) by auto
  then show ?thesis using True
    by (intro exI [of _ True] exI [of _ c'] exI [of _ v] exI [of _ "cache_map hash c"]) auto
next
  case False
  obtain ok c' v' m where d: "delta_replace hash env q buf (item_hash hash (mem c q)) c = Some (ok, c')" "client_refs v' = client_refs v" "m \<subseteq>\<^sub>m cache_map hash c"
      "if ok then \<exists>L'. good hash c' (take_ref q v') L' \<and> cache_map hash c' = m(key \<mapsto> (key, int (length buf) + 2, counter_value (length buf + 2) buf,
         FLAGS_CONV (mem c q), exptime (mem c q), ITEM_get_cas (mem c' q)))
       else cache_reach hash c' v' \<and> cache_map hash c' = m \<and> m key = cache_map hash c key"
    using delta_replace_ok [OF g r q k fr lock small cas] by blast
  have n: "nat (int (length buf) + 2) = length buf + 2" by simp
  show ?thesis unfolding if_not_P [OF False]
    by (rule exI [of _ ok], rule exI [of _ c'], rule exI [of _ v'], rule exI [of _ m])
      (use d n in \<open>cases ok; auto intro!: exI [of _ "int (length buf) + 2"]\<close>)
qed

section \<open>The number\<close>

lemma length_dec: "n < 10 ^ Suc k \<Longrightarrow> length (dec n) \<le> Suc k"
proof (induction k arbitrary: n)
  case 0
  then show ?case by (simp add: dec.simps [of n])
next
  case (Suc k)
  then have "n div 10 < 10 ^ Suc k" by (simp add: div_less_iff_less_mult mult.commute)
  from Suc.IH [OF this] show ?case by (simp add: dec.simps [of n])
qed

lemma length_dec_u64: "length (dec (unat (z :: u64))) \<le> 20"
proof -
  have "unat z < 10 ^ Suc 19" using unsigned_less [of z, where 'a = nat] by simp
  from length_dec [OF this] show ?thesis by simp
qed

lemma item_total_size_mono: "a \<le> b \<Longrightarrow> item_total_size st nk fl a \<le> item_total_size st nk fl b"
  by (simp add: item_total_size_def item_make_header_def Let_def nat_mono)

lemma unat_delta_value: "unat (delta_value incr delta z) = (if incr then (unat z + unat delta) mod 2 ^ 64 else unat z - unat delta)"
  by (simp add: delta_value_def unat_word_ariths(1) unat_sub word_less_nat_alt word_le_nat_alt not_less)

text \<open>The answer of incr and decr from the item and the number it holds, if any.\<close>

definition delta_answer :: "item \<Rightarrow> u64 option \<Rightarrow> u64 option \<Rightarrow> delta_result_type" where
  "delta_answer x cas num =
     (if nbytes x \<le> 2 \<or> has_flag ITEM_HDR x then NON_NUMERIC
      else if cas \<notin> {None, Some 0, Some (ITEM_get_cas x)} then DELTA_ITEM_CAS_MISMATCH
      else if num = None then NON_NUMERIC else OK)"

lemma lined_content: "content x = content y \<Longrightarrow> lined x = lined y"
  using filled_content(1) [of x y] content_fields [of x y] by (simp add: lined_def)


lemma held_linked:
  assumes "good hash c (take_ref q v) L" "q \<in> L" "q \<noteq> NULL"
  shows "refcount (mem c q) > 1" "it_flags (mem c q) AND (ITEM_CHUNKED OR ITEM_HDR) \<noteq> 0 \<longleftrightarrow> has_flag ITEM_HDR (mem c q)"
proof -
  have h: "0 < client_refs (take_ref q v) q" using assms(3) by simp
  have "2 \<le> unat (refcount (mem c q))" using good_held(4) [OF assms(1) h] assms(2) h by (simp add: refs_of_def all_refs_def)
  then show "refcount (mem c q) > 1" by (simp add: word_less_nat_alt)
  show "it_flags (mem c q) AND (ITEM_CHUNKED OR ITEM_HDR) \<noteq> 0 \<longleftrightarrow> has_flag ITEM_HDR (mem c q)"
    using good_held(3) [OF assms(1) h] and_or_zero [of "it_flags (mem c q)" ITEM_CHUNKED ITEM_HDR] by (simp add: has_flag_def)
qed

lemma do_add_delta_refused:
  assumes l: "do_item_get (0, False) key nk hv False c0 = Some (q, c)" and g: "good hash c (take_ref q v) L" and q: "q \<in> L" "q \<noteq> NULL"
    and a: "delta_answer (mem c q) cas (safe_strtoull (data_value (mem c q) @ behind)) \<noteq> OK"
  shows "\<exists>c'. do_add_delta hash env behind cn key nk incr delta cas False hv c0 =
      Some (delta_answer (mem c q) cas (safe_strtoull (data_value (mem c q) @ behind)), [], cas, NULL, cn, c') \<and>
    cache_reach hash c' v \<and> cache_map hash c' = cache_map hash c"
proof -
  obtain c' where r: "do_item_remove q c = Some c'" "good hash c' v L" "cache_map hash c' = cache_map hash c"
    using good_remove [OF g, of q] q(2) by auto
  show ?thesis using a l r q(2) held_linked(2) [OF g q] unfolding do_add_delta_def delta_answer_def
    by (cases cas; cases "safe_strtoull (data_value (mem c q) @ behind)") (auto simp: Let_def good_def split: if_split_asm)
qed

lemma do_add_delta_stored:
  assumes l: "do_item_get (0, False) key nk (item_hash hash (mem c q)) False c0 = Some (q, c)" and g: "good hash c (take_ref q v) L" and r: "room 4 c (take_ref q v)"
    and q: "q \<in> L" "q \<noteq> NULL" and k: "ITEM_key (mem c q) = key" "length key = nk" "nk < 256" "unat (nkey (mem c q)) = nk"
    and fr: "env_fresh (cfg c) env 0 (owned v \<union> crawlers v)" and lock: "\<And>t j n. \<not> pe_lock (env t) j n (item_hash hash (mem c q))"
    and small: "item_total_size (cfg c) nk (FLAGS_CONV (mem c q)) 22 \<le> slab_chunk_size_max (cfg c)"
    and cas: "has_flag ITEM_CAS (mem c q) \<longleftrightarrow> use_cas (cfg c)" and x: "lined (mem c q)"
    and a: "delta_answer (mem c q) ca num = OK" and num: "safe_strtoull (data_value (mem c q) @ behind) = num"
    and buf: "buf = dec (unat (delta_value incr delta (the num)))"
  shows "\<exists>a cas' cn' c' v'. do_add_delta hash env behind cn key nk incr delta ca False (item_hash hash (mem c q)) c0 = Some (a, buf, cas', NULL, cn', c') \<and>
    cache_reach hash c' v' \<and> client_refs v' = client_refs v \<and>
    (a = EOM \<and> cache_map hash c' \<subseteq>\<^sub>m cache_map hash c \<and> cache_map hash c' key = cache_map hash c key \<or>
     a = OK \<and> (\<exists>m n w. m \<subseteq>\<^sub>m cache_map hash c \<and> n \<in> {nbytes (mem c q), int (length buf) + 2} \<and> int (length buf) + 2 \<le> n \<and> cas' = map_option (\<lambda>_. w) ca \<and>
       cache_map hash c' = m(key \<mapsto> (key, n, counter_value (nat n) buf, FLAGS_CONV (mem c q), exptime (mem c q), w))))"
proof -
  let ?store = "if int (length buf) + 2 \<le> nbytes (mem c q) \<and> refcount (mem c q) = 2 then map_option (Pair True) (delta_in_place q buf c)
      else delta_replace hash env q buf (item_hash hash (mem c q)) c"
  have "int (length buf) + 2 \<le> 22" using length_dec_u64 [of "delta_value incr delta (the num)"] buf by simp
  from item_total_size_mono [OF this] small
  have small': "item_total_size (cfg c) nk (FLAGS_CONV (mem c q)) (int (length buf) + 2) \<le> slab_chunk_size_max (cfg c)" by (rule order_trans)
  obtain ok c2 v' m where s: "?store = Some (ok, c2)" "client_refs v' = client_refs v" "m \<subseteq>\<^sub>m cache_map hash c"
      "if ok then \<exists>L' n. good hash c2 (take_ref q v') L' \<and> n \<in> {nbytes (mem c q), int (length buf) + 2} \<and> int (length buf) + 2 \<le> n \<and>
         cache_map hash c2 = m(key \<mapsto> (key, n, counter_value (nat n) buf, FLAGS_CONV (mem c q), exptime (mem c q), ITEM_get_cas (mem c2 q)))
       else cache_reach hash c2 v' \<and> cache_map hash c2 = m \<and> m key = cache_map hash c key"
    using delta_stored [OF g r q k fr lock small' cas x] by (elim exE conjE) (rule that)
  obtain z where z: "num = Some z" using a by (auto simp: delta_answer_def split: if_split_asm)
  define cn1 where "cn1 = upd_slab_stats (ITEM_clsid (mem c q)) (\<lambda>s. if incr then s\<lparr>incr_hits := incr_hits s + 1\<rparr> else s\<lparr>decr_hits := decr_hits s + 1\<rparr>) cn"
  have it: "itoa_u64 (delta_value incr delta z) [] = Some buf" using buf z by (simp add: itoa_u64_dec)
  have run: "do_add_delta hash env behind cn key nk incr delta ca False (item_hash hash (mem c q)) c0 =
      (if ok then map_option (\<lambda>c3. (OK, buf, map_option (\<lambda>_. ITEM_get_cas (mem c2 q)) ca, NULL, cn1, c3)) (do_item_remove q c2)
       else Some (EOM, buf, ca, NULL, cn1, c2))"
    using a l num z it s(1) q(2) held_linked [OF g q] unfolding do_add_delta_def delta_answer_def cn1_def
    by (cases ca; cases "do_item_remove q c2") (auto simp: Let_def split: if_split_asm)
  show ?thesis
  proof (cases ok)
    case False
    then show ?thesis using run s by auto
  next
    case True
    then obtain L' n where o: "good hash c2 (take_ref q v') L'" "n \<in> {nbytes (mem c q), int (length buf) + 2}" "int (length buf) + 2 \<le> n"
        "cache_map hash c2 = m(key \<mapsto> (key, n, counter_value (nat n) buf, FLAGS_CONV (mem c q), exptime (mem c q), ITEM_get_cas (mem c2 q)))"
      using s(4) by auto
    obtain c3 where c3: "do_item_remove q c2 = Some c3" "good hash c3 v' L'" "cache_map hash c3 = cache_map hash c2"
      using good_remove [OF o(1), of q] q(2) by auto
    show ?thesis using run True c3 o s(2,3)
      by (intro exI [of _ OK] exI [of _ "map_option (\<lambda>_. ITEM_get_cas (mem c2 q)) ca"] exI [of _ cn1] exI [of _ c3] exI [of _ v'])
        (auto simp: good_def intro!: exI [of _ m] exI [of _ n] exI [of _ "ITEM_get_cas (mem c2 q)"])
  qed
qed

end
