(* ===== verification/Store_Spec.thy ===== *)
theory Store_Spec
  imports Store_Sample Store_Delta
begin

text \<open>
  The properties of the commands that allocate under the item lock: append and prepend, incr and decr.
\<close>




text \<open>C5: incr and decr. They return. Without a live entry under the key the answer is \<open>DELTA_ITEM_NOT_FOUND\<close>; an entry that is no number, or not the one
  whose CAS id the client names, is refused and no entry changes. Otherwise the number printed for the client is the sum modulo 2 to the 64, or the
  difference, but at least 0; and either there is no memory (\<open>EOM\<close>, the entry is still there) or the key is mapped to that number, padded with blanks
  where the item is rewritten in place, with the old flags and expiry time and the CAS id reported to the client. Other entries may be evicted, and none changes.\<close>

theorem add_delta_refines_map:
  assumes "cache_reach hash c v" and "room 5 c v" and nk: "length key = nk" "nk < 256" and q: "q = live_item hash c key"
    and old: "q \<noteq> NULL \<longrightarrow> lined (mem c q) \<and> (has_flag ITEM_CAS (mem c q) \<longleftrightarrow> use_cas (cfg c)) \<and>
      item_total_size (cfg c) nk (FLAGS_CONV (mem c q)) 22 \<le> slab_chunk_size_max (cfg c)"
    and fr: "env_fresh (cfg c) env 0 (owned v \<union> crawlers v)" and lock: "\<And>t j n. \<not> pe_lock (env t) j n (hash key nk)"
    and num: "num = safe_strtoull (data_value (mem c q) @ behind)"
  shows "\<exists>a buf cas' cn' c' v'. add_delta hash env behind cn key nk incr delta cas c = Some (a, buf, cas', NULL, cn', c') \<and> cache_reach hash c' v' \<and>
    client_refs v' = client_refs v \<and>
    (if q = NULL then a = DELTA_ITEM_NOT_FOUND \<and> cache_map hash c' = live_map hash c key
     else if delta_answer (mem c q) cas num \<noteq> OK then a = delta_answer (mem c q) cas num \<and> cache_map hash c' = cache_map hash c
     else buf = dec (if incr then (unat (the num) + unat delta) mod 2 ^ 64 else unat (the num) - unat delta) \<and>
       (a = EOM \<and> cache_map hash c' \<subseteq>\<^sub>m cache_map hash c \<and> cache_map hash c' key = cache_map hash c key \<or>
        a = OK \<and> (\<exists>m n w. m \<subseteq>\<^sub>m cache_map hash c \<and> n \<in> {nbytes (mem c q), int (length buf) + 2} \<and> int (length buf) + 2 \<le> n \<and>
          cas' = map_option (\<lambda>_. w) cas \<and>
          cache_map hash c' = m(key \<mapsto> (key, n, counter_value (nat n) buf, FLAGS_CONV (mem c q), exptime (mem c q), w)))))"
proof -
  obtain L where g: "good hash c v L" using cache_reach_inv [OF assms(1)] assms(1) by (auto simp: good_def)
  have r: "room 4 c v" by (rule room_mono [OF assms(2)]) simp
  obtain c1 L1 where l: "do_item_get (0, False) key nk (hash key nk) False c = Some (q, c1)" "good hash c1 (take_ref q v) L1"
      "bump_bufs c1 = bump_bufs c" "cfg c1 = cfg c" "cache_map hash c1 = live_map hash c key"
      "q \<noteq> NULL \<longrightarrow> q \<in> L1 \<and> ITEM_key (mem c1 q) = key \<and> content (mem c1 q) = content (mem c q)"
    using good_lookup [OF g r nk(1), of "(0, False)"] q by auto
  show ?thesis
  proof (cases "q = NULL")
    case True
    then show ?thesis using l(1,2,5) by (auto simp: add_delta_def do_add_delta_def good_def)
  next
    case False
    note f = l(6) [rule_format, OF False]
    have cq: "content (mem c1 q) = content (mem c q)" using f by simp
    note k = content_fields [OF cq] and o = old [rule_format, OF False]
    have nkq: "unat (nkey (mem c1 q)) = nk"
      using l(2) f nk(1) key_ok_length [OF assoc_rep_key_ok [OF mc_repD(2) [OF cache_inv_mc [unfolded mc_inv_rep]]]] unfolding good_def by metis
    have hv: "item_hash hash (mem c1 q) = hash key nk" using f nkq by (simp add: item_hash_def)
    have e: "ITEM_get_cas (mem c1 q) = ITEM_get_cas (mem c q)" "FLAGS_CONV (mem c1 q) = FLAGS_CONV (mem c q)" "lined (mem c1 q) = lined (mem c q)"
      "has_flag ITEM_HDR (mem c1 q) = has_flag ITEM_HDR (mem c q)" "has_flag ITEM_CAS (mem c1 q) = has_flag ITEM_CAS (mem c q)"
      using content_get_cas [OF cq] filled_content(2) [OF cq] lined_content [OF cq] content_has_flag [OF cq, of ITEM_HDR] content_has_flag [OF cq, of ITEM_CAS] by simp_all
    have ans: "delta_answer (mem c1 q) cas num = delta_answer (mem c q) cas num" using k(3) e by (simp add: delta_answer_def)
    have num1: "safe_strtoull (data_value (mem c1 q) @ behind) = num" using num k(4) by simp
    have map: "cache_map hash c1 = cache_map hash c" using l(5) False q by (simp add: live_map_def)
    have r1: "room 4 c1 (take_ref q v)" by (rule room_take [OF _ l(3)]) (use assms(2) in \<open>simp add: eval_nat_numeral\<close>)
    show ?thesis
    proof (cases "delta_answer (mem c q) cas num = OK")
      case True
      have buf: "dec (if incr then (unat (the num) + unat delta) mod 2 ^ 64 else unat (the num) - unat delta) = dec (unat (delta_value incr delta (the num)))"
        by (simp add: unat_delta_value)
      have l1: "do_item_get (0, False) key nk (item_hash hash (mem c1 q)) False c = Some (q, c1)" using l(1) hv by simp
      have fr1: "env_fresh (cfg c1) env 0 (owned v \<union> crawlers v)" using fr l(4) by simp
      have p: "q \<in> L1" "ITEM_key (mem c1 q) = key" "\<And>t j n. \<not> pe_lock (env t) j n (item_hash hash (mem c1 q))"
        "item_total_size (cfg c1) nk (FLAGS_CONV (mem c1 q)) 22 \<le> slab_chunk_size_max (cfg c1)" "has_flag ITEM_CAS (mem c1 q) \<longleftrightarrow> use_cas (cfg c1)"
        "lined (mem c1 q)" "delta_answer (mem c1 q) cas num = OK"
        using f o e lock hv ans True l(4) by simp_all
      show ?thesis using do_add_delta_stored [OF l1 l(2) r1 p(1) False p(2) nk(1,2) nkq fr1 p(3-7) num1 buf, of cn]
        unfolding add_delta_def hv if_not_P [OF False] map e(2) k(3,6) if_not_P [OF iffD2 [OF not_not True]]
        by (elim exE conjE) (rule exI, rule exI, rule exI, rule exI, rule exI, rule exI, intro conjI, assumption+, rule refl, assumption)
    next
      case no: False
      from do_add_delta_refused [OF l(1,2) _ False, of cas behind env cn incr delta] show ?thesis
        using f ans num1 no map False unfolding add_delta_def by auto
    qed
  qed
qed


theorem add_delta_refines_map_witness:
  "\<exists>c v a buf cas' cn' c' v'. cache_reach zero_hash c v \<and> live_item zero_hash c [107] = 1096 \<and> sample_item [52, 49, 13, 10] (mem c 1096) \<and>
     add_delta zero_hash (pulls_at 40000 False) [0] sample_conn [107] 1 True 1 None c = Some (a, buf, cas', NULL, cn', c') \<and> cache_reach zero_hash c' v' \<and>
     buf = [52, 50] \<and> (a = EOM \<and> cache_map zero_hash c' [107] = cache_map zero_hash c [107] \<or>
       a = OK \<and> (\<exists>w. cache_map zero_hash c' [107] = Some ([107], 4, [52, 50, 13, 10], 0, 0, w)))"
proof -
  obtain c v where s: "good zero_hash c v {1096}" "client_refs v = (\<lambda>_. 0)(1096 := 1, 1000 := 1)" "bump_bufs c = [\<lparr>bump_entries = [], dropped = 0\<rparr>]"
      "cfg c = sample_slab_settings" "owned v \<union> crawlers v \<subseteq> {..<40000}" "sample_item [52, 49, 13, 10] (mem c 1096)"
    using sample_two by blast
  note q = s(6) [unfolded sample_item_def]
  have room: "room 5 c v" by (rule sample_room [OF s(3)]) (use s(2) in simp_all)
  have live: "live_item zero_hash c [107] = 1096" by (rule sample_live_linked [OF s(1,4)]) (use q in simp_all)
  have reach: "cache_reach zero_hash c v" using s(1) by (simp add: good_def)
  have size: "item_total_size (cfg c) 1 (FLAGS_CONV (mem c 1096)) 22 \<le> slab_chunk_size_max (cfg c)"
    using q s(4) by (simp add: item_total_size_def item_make_header_def sizeof_item_def)
  have ok: "lined (mem c 1096)" "use_cas (cfg c)" using q s(4) by (simp_all add: lined_def filled_def)
  have "strto_parse 10 ([52, 49] @ [13, 10, 0]) = (False, 41, [13, 10, 0])"
    using strto_parse_dec [of "[13, 10, 0]" 41] by (simp add: dec.simps digit_value_def isdigit_def char_at_def)
  then have "safe_strtoull [52, 49, 13, 10, 0] = Some 41"
    by (simp add: safe_strtoull_def safe_strtoull_base_def strtoull_def isspace_def char_at_def)
  then have num: "safe_strtoull (data_value (mem c 1096) @ [0]) = Some 41" using q by simp
  have ans: "delta_answer (mem c 1096) None (Some 41) = OK" using q by (simp add: delta_answer_def)
  have dec: "dec 42 = [52, 50]" by (simp add: dec.simps)
  have fr: "env_fresh (cfg c) (pulls_at 40000 False) 0 (owned v \<union> crawlers v)" using pulls_at_fresh [of 40000 _ False] s(4,5) by simp
  have lock: "\<not> pe_lock (pulls_at 40000 False t) j n h" for t j n h by (simp add: pulls_at_def)
  obtain a buf cas' cn' c' v' where r: "add_delta zero_hash (pulls_at 40000 False) [0] sample_conn [107] 1 True 1 None c = Some (a, buf, cas', NULL, cn', c')"
      "cache_reach zero_hash c' v'" "buf = [52, 50]" "a = EOM \<and> cache_map zero_hash c' [107] = cache_map zero_hash c [107] \<or>
       a = OK \<and> (\<exists>w. cache_map zero_hash c' [107] = Some ([107], 4, [52, 50, 13, 10], 0, 0, w))"
    using add_delta_refines_map [OF reach room _ _ live [symmetric] _ fr lock num [symmetric], of 1 sample_conn True 1 None]
      size ok ans dec q s(2) by (auto simp: counter_value_def)
  show ?thesis
    by (rule exI [of _ c], rule exI [of _ v], rule exI [of _ a], rule exI [of _ buf], rule exI [of _ cas'], rule exI [of _ cn'], rule exI [of _ c'], rule exI [of _ v'])
      (use reach live r s(6) in auto)
qed

end
