(* ===== verification/Queue_Spec.thy ===== *)
theory Queue_Spec
  imports Prelude
begin

text \<open>
  The contract of the queues of the program: a producer offers blocks, which are taken whole or refused; the consumer looks at
  a front part of what is pending and takes a prefix of it. What comes out, followed by what is pending, is what was accepted.
  The byte buffers between the workers and the logger, crawler and LRU threads and the queues of new connections meet it.
\<close>

datatype 'a queue_op = Put "'a list" | Take nat

text \<open>
  A run of operations of the two sides in any order: the elements accepted, the elements taken, the state left. The consumer
  takes at most what it is shown.
\<close>

fun queue_run :: "('a list \<Rightarrow> 's \<Rightarrow> (bool \<times> 's) option) \<Rightarrow> ('s \<Rightarrow> 'a list) \<Rightarrow> (nat \<Rightarrow> 's \<Rightarrow> 's option) \<Rightarrow>
    'a queue_op list \<Rightarrow> 's \<Rightarrow> ('a list \<times> 'a list \<times> 's) option" where
  "queue_run put front poll [] s = Some ([], [], s)"
| "queue_run put front poll (Put xs # ops) s =
     (case put xs s of
        None \<Rightarrow> None
      | Some (ok, s') \<Rightarrow> map_option (\<lambda>(acc, got, t). ((if ok then xs else []) @ acc, got, t)) (queue_run put front poll ops s'))"
| "queue_run put front poll (Take n # ops) s =
     (let got1 = take n (front s) in
      if got1 = [] then queue_run put front poll ops s
      else case poll (length got1) s of
             None \<Rightarrow> None
           | Some s' \<Rightarrow> map_option (\<lambda>(acc, got, t). (acc, got1 @ got, t)) (queue_run put front poll ops s'))"

locale fifo_queue =
  fixes invar :: "'s \<Rightarrow> bool"
    and pending_of :: "'s \<Rightarrow> 'a list"
    and block_ok :: "'a list \<Rightarrow> bool"
    and put :: "'a list \<Rightarrow> 's \<Rightarrow> (bool \<times> 's) option"
    and front :: "'s \<Rightarrow> 'a list"
    and poll :: "nat \<Rightarrow> 's \<Rightarrow> 's option"
  assumes put_law: "invar s \<Longrightarrow> block_ok xs \<Longrightarrow>
      \<exists>ok s'. put xs s = Some (ok, s') \<and> invar s' \<and> pending_of s' = pending_of s @ (if ok then xs else [])"
    and front_law: "invar s \<Longrightarrow> \<exists>rest. pending_of s = front s @ rest \<and> (front s = [] \<longrightarrow> rest = [])"
    and poll_law: "invar s \<Longrightarrow> 0 < n \<Longrightarrow> n \<le> length (front s) \<Longrightarrow>
      \<exists>s'. poll n s = Some s' \<and> invar s' \<and> pending_of s' = drop n (pending_of s)"
begin

lemma front_take:
  assumes "invar s"
  shows "take (length (take n (front s))) (pending_of s) = take n (front s)"
  using front_law [OF assms] by (auto simp: min_def)

lemma run_stream:
  assumes "invar s" and "\<forall>xs. Put xs \<in> set ops \<longrightarrow> block_ok xs"
  shows "\<exists>acc got s'. queue_run put front poll ops s = Some (acc, got, s') \<and> invar s' \<and> pending_of s @ acc = got @ pending_of s'"
  using assms
proof (induction ops arbitrary: s)
  case (Cons x ops)
  show ?case
  proof (cases x)
    case (Put xs)
    have "block_ok xs" using Cons.prems(2) Put by simp
    then obtain ok s1 where p: "put xs s = Some (ok, s1)" "invar s1" "pending_of s1 = pending_of s @ (if ok then xs else [])"
      using put_law [OF Cons.prems(1)] by blast
    obtain acc got s' where "queue_run put front poll ops s1 = Some (acc, got, s')" "invar s'" "pending_of s1 @ acc = got @ pending_of s'"
      using Cons.IH [OF p(2)] Cons.prems(2) by auto
    then show ?thesis using Put p by auto
  next
    case (Take n)
    let ?g = "take n (front s)"
    show ?thesis
    proof (cases "?g = []")
      case True
      then show ?thesis using Cons.IH [OF Cons.prems(1)] Cons.prems(2) Take by auto
    next
      case False
      have "0 < length ?g" "length ?g \<le> length (front s)" using False by simp_all
      then obtain s1 where p: "poll (length ?g) s = Some s1" "invar s1" "pending_of s1 = drop (length ?g) (pending_of s)"
        using poll_law [OF Cons.prems(1)] by blast
      obtain acc got s' where r: "queue_run put front poll ops s1 = Some (acc, got, s')" "invar s'" "pending_of s1 @ acc = got @ pending_of s'"
        using Cons.IH [OF p(2)] Cons.prems(2) by auto
      have "pending_of s = ?g @ pending_of s1"
        unfolding p(3) by (metis append_take_drop_id front_take [OF Cons.prems(1)])
      then have "pending_of s @ acc = (?g @ got) @ pending_of s'" using r(3) by simp
      then show ?thesis using Take False p(1) r(1,2) by (auto simp: Let_def simp del: length_take)
    qed
  qed
qed simp

text \<open>The consumer is shown something whenever anything is pending, so draining ends with an empty queue.\<close>

lemma drained: "invar s \<Longrightarrow> front s = [] \<longleftrightarrow> pending_of s = []"
  using front_law [of s] by auto

end

end
