(* ===== verification/Bipbuf.thy ===== *)
theory Bipbuf
  imports Queue_Spec
begin

text \<open>
  The bip buffer of \<^verbatim>\<open>bipbuffer.c\<close>: a byte queue in a fixed array, in two regions so that every block is contiguous. Indices are
  32-bit unsigned, the size is 64-bit unsigned, lengths handed in are \<open>int\<close>; an access behind the array is \<open>None\<close>. A pointer into the data is
  its offset.
\<close>

record bipbuf =
  bip_size :: u64
  a_start :: u32
  a_end :: u32
  b_end :: u32
  b_inuse :: bool
  bip_data :: "byte list"

definition bipbuf_unused :: "bipbuf \<Rightarrow> int" where
  "bipbuf_unused me = (if b_inuse me then sint (a_start me - b_end me) else sint (ucast (bip_size me - ucast (a_end me)) :: u32))"

definition bipbuf_size :: "bipbuf \<Rightarrow> int" where
  "bipbuf_size me = sint (ucast (bip_size me) :: u32)"

definition bipbuf_used :: "bipbuf \<Rightarrow> int" where
  "bipbuf_used me = sint ((a_end me - a_start me) + b_end me)"

definition bipbuf_init :: "u32 \<Rightarrow> byte list \<Rightarrow> bipbuf" where
  "bipbuf_init sz d = \<lparr>bip_size = ucast sz, a_start = 0, a_end = 0, b_end = 0, b_inuse = False, bip_data = d\<rparr>"

text \<open>\<open>mem\<close> is the memory \<open>malloc\<close> returned behind the header, if any.\<close>

definition bipbuf_new :: "u32 \<Rightarrow> byte list option \<Rightarrow> bipbuf option" where
  "bipbuf_new sz mem = map_option (bipbuf_init sz) mem"

definition bipbuf_is_empty :: "bipbuf \<Rightarrow> bool" where
  "bipbuf_is_empty me \<longleftrightarrow> a_start me = a_end me"

definition check_for_switch_to_b :: "bipbuf \<Rightarrow> bipbuf" where
  "check_for_switch_to_b me =
     (if bip_size me - ucast (a_end me) < ucast (a_start me - b_end me) then me\<lparr>b_inuse := True\<rparr> else me)"

definition bipbuf_request :: "int \<Rightarrow> bipbuf \<Rightarrow> nat option" where
  "bipbuf_request sz me =
     (if bipbuf_unused me < sz then None else if b_inuse me then Some (unat (b_end me)) else Some (unat (a_end me)))"

definition bipbuf_push :: "int \<Rightarrow> bipbuf \<Rightarrow> int \<times> bipbuf" where
  "bipbuf_push sz me =
     (if bipbuf_unused me < sz then (0, me)
      else (sz, check_for_switch_to_b
             (if b_inuse me then me\<lparr>b_end := b_end me + of_int sz\<rparr> else me\<lparr>a_end := a_end me + of_int sz\<rparr>)))"

text \<open>\<open>memcpy(me->data + off, src, n)\<close> for the \<open>n\<close> bytes \<open>src\<close>.\<close>

definition bip_write :: "nat \<Rightarrow> byte list \<Rightarrow> bipbuf \<Rightarrow> bipbuf option" where
  "bip_write off src me =
     (if off + length src \<le> length (bip_data me)
      then Some (me\<lparr>bip_data := take off (bip_data me) @ src @ drop (off + length src) (bip_data me)\<rparr>) else None)"

definition bipbuf_offer :: "byte list \<Rightarrow> int \<Rightarrow> bipbuf \<Rightarrow> (int \<times> bipbuf) option" where
  "bipbuf_offer d sz me =
     (if bipbuf_unused me < sz then Some (0, me)
      else if sz < 0 \<or> length d < nat sz then None
      else map_option (Pair sz \<circ> check_for_switch_to_b)
        (if b_inuse me
         then map_option (\<lambda>m. m\<lparr>b_end := b_end me + of_int sz\<rparr>) (bip_write (unat (b_end me)) (take (nat sz) d) me)
         else map_option (\<lambda>m. m\<lparr>a_end := a_end me + of_int sz\<rparr>) (bip_write (unat (a_end me)) (take (nat sz) d) me)))"

definition bipbuf_peek :: "u32 \<Rightarrow> bipbuf \<Rightarrow> nat option" where
  "bipbuf_peek sz me =
     (if bip_size me < ucast (a_start me + sz) then None else if bipbuf_is_empty me then None else Some (unat (a_start me)))"

definition bipbuf_peek_all :: "bipbuf \<Rightarrow> (nat \<times> u32) option" where
  "bipbuf_peek_all me = (if bipbuf_is_empty me then None else Some (unat (a_start me), a_end me - a_start me))"

definition bipbuf_poll :: "u32 \<Rightarrow> bipbuf \<Rightarrow> nat option \<times> bipbuf" where
  "bipbuf_poll sz me =
     (if bipbuf_is_empty me then (None, me)
      else if bip_size me < ucast (a_start me + sz) then (None, me)
      else let me1 = me\<lparr>a_start := a_start me + sz\<rparr>;
               me2 = (if a_start me1 = a_end me1
                      then (if b_inuse me1 then me1\<lparr>a_start := 0, a_end := b_end me1, b_end := 0, b_inuse := False\<rparr>
                            else me1\<lparr>a_start := 0, a_end := 0\<rparr>)
                      else me1)
           in (Some (unat (a_start me)), check_for_switch_to_b me2))"

section \<open>Invariant and contents\<close>

text \<open>The array is shorter than 2 to the 31, so that lengths are non-negative as \<open>int\<close>.\<close>

definition bip_inv :: "bipbuf \<Rightarrow> bool" where
  "bip_inv me \<longleftrightarrow> unat (bip_size me) < 2 ^ 31 \<and> length (bip_data me) = unat (bip_size me) \<and> unat (a_end me) \<le> unat (bip_size me) \<and>
     (if b_inuse me then unat (b_end me) \<le> unat (a_start me) else b_end me = 0) \<and>
     (unat (a_start me) < unat (a_end me) \<or> a_start me = 0 \<and> a_end me = 0 \<and> \<not> b_inuse me)"

definition region_a :: "bipbuf \<Rightarrow> byte list" where
  "region_a me = take (unat (a_end me) - unat (a_start me)) (drop (unat (a_start me)) (bip_data me))"

definition region_b :: "bipbuf \<Rightarrow> byte list" where
  "region_b me = take (unat (b_end me)) (bip_data me)"

definition bip_bytes :: "bipbuf \<Rightarrow> byte list" where
  "bip_bytes me = region_a me @ region_b me"

section \<open>Index arithmetic\<close>

lemma sint_small_u32: "unat (w :: u32) < 2 ^ 31 \<Longrightarrow> sint w = int (unat w)"
proof -
  assume "unat w < 2 ^ 31"
  then have "int (unat w) < int (2 ^ 31)" by (simp only: of_nat_less_iff)
  then have "uint w < 2 ^ 31" by simp
  moreover have "- (2 ^ 31) \<le> uint w" by (rule order_trans [of _ 0]) simp_all
  ultimately have "signed_take_bit 31 (uint w) = uint w" by (intro signed_take_bit_int_eq_self)
  then show "sint w = int (unat w)" by (simp add: sint_uint)
qed

lemma unat_sub_le: "unat y \<le> unat x \<Longrightarrow> unat ((x :: 'a::len word) - y) = unat x - unat y"
  by (rule unat_sub) (simp add: word_le_nat_alt)

lemma unat_add_u32: "unat x + unat y < 2 ^ 32 \<Longrightarrow> unat ((x :: u32) + y) = unat x + unat y"
  by (simp add: unat_word_ariths)

lemma unat_of_int_u32: "0 \<le> n \<Longrightarrow> n < 2 ^ 31 \<Longrightarrow> unat (of_int n :: u32) = nat n"
  by (simp add: unsigned_of_int take_bit_int_eq_self flip: nat_take_bit_eq)

lemma bip_invD:
  assumes "bip_inv me"
  shows "unat (bip_size me) < 2 ^ 31" "length (bip_data me) = unat (bip_size me)" "unat (a_end me) \<le> unat (bip_size me)"
    "unat (a_start me) \<le> unat (a_end me)" "unat (b_end me) \<le> unat (a_start me)" "\<not> b_inuse me \<Longrightarrow> b_end me = 0"
    "unat (a_start me) < unat (a_end me) \<or> a_start me = 0 \<and> a_end me = 0 \<and> \<not> b_inuse me"
  using assms unfolding bip_inv_def by (auto split: if_splits)

lemma unused_nat:
  assumes "bip_inv me"
  shows "bipbuf_unused me = int (if b_inuse me then unat (a_start me) - unat (b_end me) else unat (bip_size me) - unat (a_end me))"
proof -
  note i = bip_invD [OF assms]
  have "unat (bip_size me - ucast (a_end me)) = unat (bip_size me) - unat (a_end me)" using i(3) by (subst unat_sub_le) simp_all
  then have "unat (ucast (bip_size me - ucast (a_end me)) :: u32) = unat (bip_size me) - unat (a_end me)"
    using i(1) by (simp add: unsigned_ucast_eq take_bit_nat_eq_self)
  moreover have "unat (a_start me - b_end me) = unat (a_start me) - unat (b_end me)" using i(5) by (rule unat_sub_le)
  ultimately show ?thesis using i(1,3,4) by (simp add: bipbuf_unused_def sint_small_u32)
qed

section \<open>The operations keep the invariant\<close>

lemma switch_inv:
  assumes "bip_inv me"
  shows "bip_inv (check_for_switch_to_b me)" "bip_bytes (check_for_switch_to_b me) = bip_bytes me" "region_a (check_for_switch_to_b me) = region_a me"
proof -
  note i = bip_invD [OF assms]
  show "bip_bytes (check_for_switch_to_b me) = bip_bytes me" "region_a (check_for_switch_to_b me) = region_a me"
    by (simp_all add: check_for_switch_to_b_def bip_bytes_def region_a_def region_b_def)
  show "bip_inv (check_for_switch_to_b me)"
  proof (cases "bip_size me - ucast (a_end me) < ucast (a_start me - b_end me)")
    case True
    have "a_start me \<noteq> 0" using True i(5) by (auto simp: unat_eq_0)
    then show ?thesis using assms i(5) True by (auto simp: check_for_switch_to_b_def bip_inv_def)
  qed (use assms in \<open>simp add: check_for_switch_to_b_def\<close>)
qed

lemma offer_law:
  assumes inv: "bip_inv me" and d: "length d < 2 ^ 31"
  shows "\<exists>r me'. bipbuf_offer d (int (length d)) me = Some (r, me') \<and> bip_inv me' \<and> region_a me = take (length (region_a me)) (region_a me') \<and>
    (if int (length d) \<le> bipbuf_unused me then r = int (length d) \<and> bip_bytes me' = bip_bytes me @ d else r = 0 \<and> me' = me)"
proof (cases "int (length d) \<le> bipbuf_unused me")
  case True
  note i = bip_invD [OF inv] and u = unused_nat [OF inv]
  let ?d = "bip_data me" and ?n = "length d"
  have n: "unat (of_int (int ?n) :: u32) = ?n" using d by (subst unat_of_int_u32) simp_all
  show ?thesis
  proof (cases "b_inuse me")
    case True
    have b: "unat (b_end me) + ?n \<le> unat (a_start me)" using \<open>int ?n \<le> bipbuf_unused me\<close> i(5) unfolding u if_P [OF True] of_nat_le_iff by linarith
    then have e: "unat (b_end me + of_int (int ?n)) = unat (b_end me) + ?n" using n i(1,3,4) by (subst unat_add_u32) simp_all
    let ?m = "me\<lparr>bip_data := take (unat (b_end me)) ?d @ d @ drop (unat (b_end me) + ?n) ?d, b_end := b_end me + of_int (int ?n)\<rparr>"
    have ra: "region_a ?m = region_a me" using b i(2,3,4) by (simp add: region_a_def)
    have rb: "region_b ?m = region_b me @ d" using b i(2,3,4) e by (simp add: region_b_def)
    have inv': "bip_inv ?m" using inv True b i(2,3,4) e by (auto simp: bip_inv_def)
    have "bipbuf_offer d (int ?n) me = Some (int ?n, check_for_switch_to_b ?m)"
      using True b i(2,3,4) \<open>int ?n \<le> bipbuf_unused me\<close> by (simp add: bipbuf_offer_def bip_write_def)
    then show ?thesis using switch_inv [OF inv'] ra rb \<open>int ?n \<le> bipbuf_unused me\<close> by (simp add: bip_bytes_def)
  next
    case False
    have a: "unat (a_end me) + ?n \<le> unat (bip_size me)" using \<open>int ?n \<le> bipbuf_unused me\<close> i(3) unfolding u if_not_P [OF False] of_nat_le_iff by linarith
    then have e: "unat (a_end me + of_int (int ?n)) = unat (a_end me) + ?n" using n i(1) by (subst unat_add_u32) simp_all
    let ?m = "me\<lparr>bip_data := take (unat (a_end me)) ?d @ d @ drop (unat (a_end me) + ?n) ?d, a_end := a_end me + of_int (int ?n)\<rparr>"
    have "drop (unat (a_start me)) (take (unat (a_end me)) ?d) = region_a me" by (simp add: region_a_def drop_take)
    then have ra: "region_a ?m = region_a me @ d" using a i(2,3,4) e by (simp add: region_a_def)
    have b: "region_b ?m = []" "region_b me = []" using i(6) [OF False] by (simp_all add: region_b_def)
    have "unat (a_start me) < unat (a_end me) + ?n \<or> a_start me = 0 \<and> a_end me + of_int (int ?n) = 0"
      using i(7) by (cases "?n = 0") auto
    then have inv': "bip_inv ?m" using i(1,2,3) a e i(6) [OF False] False by (simp add: bip_inv_def)
    have "bipbuf_offer d (int ?n) me = Some (int ?n, check_for_switch_to_b ?m)"
      using False a i(2,3,4) \<open>int ?n \<le> bipbuf_unused me\<close> by (simp add: bipbuf_offer_def bip_write_def)
    then show ?thesis using switch_inv [OF inv'] ra b \<open>int ?n \<le> bipbuf_unused me\<close> by (simp add: bip_bytes_def)
  qed
qed (use inv in \<open>simp add: bipbuf_offer_def\<close>)


text \<open>Polling what was shown, or a part of it.\<close>

lemma poll_law:
  assumes inv: "bip_inv me" and n: "0 < n" "n \<le> length (region_a me)"
  shows "\<exists>me'. bipbuf_poll (of_nat n) me = (Some (unat (a_start me)), me') \<and> bip_inv me' \<and> bip_bytes me' = drop n (bip_bytes me)"
proof -
  note i = bip_invD [OF inv]
  let ?n = "of_nat n :: u32" and ?a = "unat (a_start me)" and ?e = "unat (a_end me)"
  have la: "length (region_a me) = ?e - ?a" using i(2,3,4) by (simp add: region_a_def)
  have nn: "unat ?n = n" using n la i(1,3) by (simp add: unat_of_nat)
  have s: "unat (a_start me + ?n) = ?a + n" using n la i(1,3,4) nn by (subst unat_add_u32) simp_all
  have ne: "\<not> bipbuf_is_empty me" using n la by (auto simp: bipbuf_is_empty_def)
  have "\<not> bip_size me < ucast (a_start me + ?n)" using s n la i(3,4) by (simp add: word_less_nat_alt)
  then have run: "bipbuf_poll ?n me = (Some ?a, check_for_switch_to_b
      (if a_start me + ?n = a_end me
       then (if b_inuse me then me\<lparr>a_start := 0, a_end := b_end me, b_end := 0, b_inuse := False\<rparr> else me\<lparr>a_start := 0, a_end := 0\<rparr>)
       else me\<lparr>a_start := a_start me + ?n\<rparr>))" (is "_ = (_, check_for_switch_to_b ?m)")
    using ne by (simp add: bipbuf_poll_def Let_def)
  have all: "a_start me + ?n = a_end me \<longleftrightarrow> ?a + n = ?e" unfolding word_unat_eq_iff s ..
  have "bip_inv ?m \<and> bip_bytes ?m = drop n (bip_bytes me)"
  proof (cases "?a + n = ?e")
    case True
    then have d: "drop n (bip_bytes me) = region_b me" using la by (simp add: bip_bytes_def)
    show ?thesis
    proof (cases "b_inuse me")
      case inuse: True
      have "bip_inv ?m" using True inuse i all by (simp add: bip_inv_def unat_gt_0)
      then show ?thesis using True inuse i all d by (simp add: bip_bytes_def region_a_def region_b_def)
    next
      case False
      have "bip_inv ?m" using True False i all by (simp add: bip_inv_def)
      then show ?thesis using True False i all d by (simp add: bip_bytes_def region_a_def region_b_def)
    qed
  next
    case False
    then have m: "?m = me\<lparr>a_start := a_start me + ?n\<rparr>" using all by simp
    have lt: "?a + n < ?e" using False n la i(4) by simp
    have "region_a (me\<lparr>a_start := a_start me + ?n\<rparr>) = drop n (region_a me)"
      using s by (simp add: region_a_def drop_take add.commute)
    moreover have "bip_inv (me\<lparr>a_start := a_start me + ?n\<rparr>)" using i(1,2,3,5,6) lt s by (simp add: bip_inv_def)
    ultimately show ?thesis unfolding m using n by (simp add: bip_bytes_def region_b_def)
  qed
  then show ?thesis using run switch_inv by auto
qed

text \<open>The pair of request and push: the producer writes in place.\<close>

lemma request_push:
  assumes inv: "bip_inv me" and d: "length d < 2 ^ 31"
  shows "bipbuf_offer d (int (length d)) me =
    (case bipbuf_request (int (length d)) me of
       None \<Rightarrow> Some (0, me)
     | Some off \<Rightarrow> map_option (bipbuf_push (int (length d))) (bip_write off d me))"
  by (auto simp: bipbuf_offer_def bipbuf_request_def bipbuf_push_def bip_write_def bipbuf_unused_def)

section \<open>A byte queue\<close>

text \<open>The two sides as the logger, the crawler and the LRU maintainer use them.\<close>

definition bip_block :: "byte list \<Rightarrow> bool" where
  "bip_block d \<longleftrightarrow> length d < 2 ^ 31"

definition bip_put :: "byte list \<Rightarrow> bipbuf \<Rightarrow> (bool \<times> bipbuf) option" where
  "bip_put d me = map_option (\<lambda>(r, m). (r \<noteq> 0, m)) (bipbuf_offer d (int (length d)) me)"

definition bip_front :: "bipbuf \<Rightarrow> byte list" where
  "bip_front me = (case bipbuf_peek_all me of None \<Rightarrow> [] | Some (off, n) \<Rightarrow> take (unat n) (drop off (bip_data me)))"

definition bip_take :: "nat \<Rightarrow> bipbuf \<Rightarrow> bipbuf option" where
  "bip_take n me = (case bipbuf_poll (of_nat n) me of (None, _) \<Rightarrow> None | (Some _, m) \<Rightarrow> Some m)"

lemma bip_front_region: "bip_inv me \<Longrightarrow> bip_front me = region_a me"
  using bip_invD [of me] by (auto simp: bip_front_def bipbuf_peek_all_def bipbuf_is_empty_def region_a_def unat_sub_le)

lemma region_a_empty: "bip_inv me \<Longrightarrow> region_a me = [] \<Longrightarrow> region_b me = []"
  using bip_invD [of me] by (auto simp: region_a_def region_b_def)

interpretation bip: fifo_queue bip_inv bip_bytes bip_block bip_put bip_front bip_take
proof unfold_locales
  fix me and d :: "byte list" assume inv: "bip_inv me" and d: "bip_block d"
  then show "\<exists>ok me'. bip_put d me = Some (ok, me') \<and> bip_inv me' \<and> bip_bytes me' = bip_bytes me @ (if ok then d else [])"
    using offer_law [OF inv, of d] by (auto simp: bip_put_def bip_block_def split: if_splits)
next
  fix me assume "bip_inv me"
  then show "\<exists>rest. bip_bytes me = bip_front me @ rest \<and> (bip_front me = [] \<longrightarrow> rest = [])"
    using region_a_empty by (auto simp: bip_bytes_def bip_front_region)
next
  fix me n assume "bip_inv me" "0 < n" "n \<le> length (bip_front me)"
  then show "\<exists>me'. bip_take n me = Some me' \<and> bip_inv me' \<and> bip_bytes me' = drop n (bip_bytes me)"
    using poll_law [of me n] by (auto simp: bip_take_def bip_front_region)
qed

lemma bipbuf_new_inv: "length d = unat sz \<Longrightarrow> unat sz < 2 ^ 31 \<Longrightarrow> bipbuf_new sz (Some d) = Some me \<Longrightarrow> bip_inv me \<and> bip_bytes me = []"
  by (auto simp: bipbuf_new_def bipbuf_init_def bip_inv_def bip_bytes_def region_a_def region_b_def)

lemma bipbuf_used_bytes: "bip_inv me \<Longrightarrow> bipbuf_used me = int (length (bip_bytes me)) \<and> length (bip_bytes me) \<le> unat (bip_size me)"
proof -
  assume "bip_inv me"
  note i = bip_invD [OF this]
  have d: "unat (a_end me - a_start me) = unat (a_end me) - unat (a_start me)" by (rule unat_sub_le [OF i(4)])
  have u: "unat ((a_end me - a_start me) + b_end me) = (unat (a_end me) - unat (a_start me)) + unat (b_end me)"
    using d i(1,3,4,5) by (subst unat_add_u32) simp_all
  have l: "length (bip_bytes me) = (unat (a_end me) - unat (a_start me)) + unat (b_end me)"
    using i(2-5) by (simp add: bip_bytes_def region_a_def region_b_def)
  have "length (bip_bytes me) \<le> unat (bip_size me)" using l i(3,4,5) by linarith
  moreover have "bipbuf_used me = int (unat ((a_end me - a_start me) + b_end me))"
    unfolding bipbuf_used_def by (rule sint_small_u32) (use u i(1,3,4,5) in linarith)
  ultimately show ?thesis using u l by simp
qed





end
