(* ===== verification/Obj_Cache.thy ===== *)
theory Obj_Cache
  imports Queue_Spec Heap_Lists
begin

text \<open>
  The singly linked tail queues of \<^verbatim>\<open>queue.h\<close> and the cache of equal-sized objects of \<^verbatim>\<open>cache.c\<close>, in the build with
  assertions, which guards every object with a red zone word before and behind it. The link field of a tail queue is a map from addresses
  to addresses. A cell is one of the 8-byte words at the ends of a buffer: the first holds the link of the free list while the
  buffer is free and the red zone pattern while it is in use.
\<close>

section \<open>Tail queues\<close>

text \<open>\<open>stqh_last\<close> points to the head's first field or to the link field of an element.\<close>

datatype last_ref = At_first | Next_of ptr

record stailq =
  stqh_first :: ptr
  stqh_last :: last_ref

definition STAILQ_INIT :: stailq where
  "STAILQ_INIT = \<lparr>stqh_first = NULL, stqh_last = At_first\<rparr>"

definition STAILQ_EMPTY :: "stailq \<Rightarrow> bool" where
  "STAILQ_EMPTY h \<longleftrightarrow> stqh_first h = NULL"

definition STAILQ_INSERT_HEAD :: "ptr \<Rightarrow> (ptr \<Rightarrow> ptr) \<Rightarrow> stailq \<Rightarrow> (ptr \<Rightarrow> ptr) \<times> stailq" where
  "STAILQ_INSERT_HEAD elm nx h =
     (let nx1 = nx(elm := stqh_first h);
          h1 = (if nx1 elm = NULL then h\<lparr>stqh_last := Next_of elm\<rparr> else h)
      in (nx1, h1\<lparr>stqh_first := elm\<rparr>))"

definition STAILQ_INSERT_TAIL :: "ptr \<Rightarrow> (ptr \<Rightarrow> ptr) \<Rightarrow> stailq \<Rightarrow> (ptr \<Rightarrow> ptr) \<times> stailq" where
  "STAILQ_INSERT_TAIL elm nx h =
     (let nx1 = nx(elm := NULL);
          (nx2, h2) = (case stqh_last h of At_first \<Rightarrow> (nx1, h\<lparr>stqh_first := elm\<rparr>) | Next_of p \<Rightarrow> (nx1(p := elm), h))
      in (nx2, h2\<lparr>stqh_last := Next_of elm\<rparr>))"

definition STAILQ_REMOVE_HEAD :: "(ptr \<Rightarrow> ptr) \<Rightarrow> stailq \<Rightarrow> stailq" where
  "STAILQ_REMOVE_HEAD nx h =
     (let h1 = h\<lparr>stqh_first := nx (stqh_first h)\<rparr>
      in if stqh_first h1 = NULL then h1\<lparr>stqh_last := At_first\<rparr> else h1)"

text \<open>The elements of a tail queue.\<close>

definition stailq_rep :: "(ptr \<Rightarrow> ptr) \<Rightarrow> stailq \<Rightarrow> ptr list \<Rightarrow> bool" where
  "stailq_rep nx h xs \<longleftrightarrow> chain nx (stqh_first h) xs \<and> distinct xs \<and> stqh_last h = (if xs = [] then At_first else Next_of (last xs))"

declare chain_frame [simp]

lemma chain_snoc:
  "chain nx p xs \<Longrightarrow> distinct xs \<Longrightarrow> xs \<noteq> [] \<Longrightarrow> e \<noteq> NULL \<Longrightarrow> e \<notin> set xs \<Longrightarrow> chain (nx(e := NULL, last xs := e)) p (xs @ [e])"
proof (induction xs arbitrary: p)
  case (Cons x xs)
  show ?case
  proof (cases "xs = []")
    case False
    then have "last xs \<in> set xs" by simp
    then show ?thesis using Cons False by auto
  qed (use Cons in auto)
qed simp

lemma stailq_rep_init [simp]: "stailq_rep nx STAILQ_INIT []"
  by (simp add: stailq_rep_def STAILQ_INIT_def)

lemma stailq_rep_first: "stailq_rep nx h xs \<Longrightarrow> stqh_first h = (case xs of [] \<Rightarrow> NULL | x # _ \<Rightarrow> x)"
  by (cases xs) (auto simp: stailq_rep_def)

lemma stailq_rep_upd: "stailq_rep nx h xs \<Longrightarrow> x \<notin> set xs \<Longrightarrow> stailq_rep (nx(x := v)) h xs"
  by (simp add: stailq_rep_def)

lemma stailq_rep_push:
  assumes "stailq_rep nx h xs" "e \<noteq> NULL" "e \<notin> set xs" "STAILQ_INSERT_HEAD e nx h = (nx', h')"
  shows "stailq_rep nx' h' (e # xs)" "nx' = nx(e := stqh_first h)"
  using assms stailq_rep_first [OF assms(1)]
  by (auto simp: stailq_rep_def STAILQ_INSERT_HEAD_def Let_def split: list.splits if_splits)

lemma stailq_rep_append:
  assumes "stailq_rep nx h xs" "e \<noteq> NULL" "e \<notin> set xs" "STAILQ_INSERT_TAIL e nx h = (nx', h')"
  shows "stailq_rep nx' h' (xs @ [e])"
proof (cases "xs = []")
  case False
  then show ?thesis using assms chain_snoc [of nx "stqh_first h" xs e]
    by (auto simp: stailq_rep_def STAILQ_INSERT_TAIL_def Let_def)
qed (use assms in \<open>auto simp: stailq_rep_def STAILQ_INSERT_TAIL_def Let_def\<close>)

lemma stailq_rep_pop: "stailq_rep nx h (x # xs) \<Longrightarrow> stailq_rep nx (STAILQ_REMOVE_HEAD nx h) xs"
  by (cases xs) (auto simp: stailq_rep_def STAILQ_REMOVE_HEAD_def Let_def)

section \<open>The object cache\<close>

record obj_cache =
  oc_head :: stailq
  bufsize :: nat
  oc_total :: int
  freecurr :: int
  oc_limit :: int
  cells :: "ptr \<Rightarrow> nat"
  cache_error :: int

abbreviation redzone_pattern :: nat where "redzone_pattern \<equiv> 0xdeadbeefcafedeed"

text \<open>\<open>calloc\<close>, \<open>strdup\<close> and the mutex all succeeded when \<open>ok\<close>.\<close>

definition cache_create :: "bool \<Rightarrow> nat \<Rightarrow> (ptr \<Rightarrow> nat) \<Rightarrow> obj_cache option" where
  "cache_create ok sz m =
     (if ok then Some \<lparr>oc_head = STAILQ_INIT, bufsize = sz + 16, oc_total = 0, freecurr = 0, oc_limit = 0, cells = m, cache_error = 0\<rparr> else None)"

definition cache_set_limit :: "int \<Rightarrow> obj_cache \<Rightarrow> obj_cache" where
  "cache_set_limit l c = c\<lparr>oc_limit := l\<rparr>"

definition get_object :: "ptr \<Rightarrow> ptr" where
  "get_object p = p + 8"

definition do_cache_alloc :: "ptr \<Rightarrow> obj_cache \<Rightarrow> ptr \<times> obj_cache" where
  "do_cache_alloc malloced c =
     (let (ret, object, c1) =
        (if freecurr c > 0
         then let p = stqh_first (oc_head c)
              in (p, get_object p, c\<lparr>oc_head := STAILQ_REMOVE_HEAD (cells c) (oc_head c), freecurr := freecurr c - 1\<rparr>)
         else if oc_limit c = 0 \<or> oc_total c < oc_limit c
         then (if malloced \<noteq> NULL then (malloced, get_object malloced, c\<lparr>oc_total := oc_total c + 1\<rparr>) else (NULL, NULL, c))
         else (NULL, NULL, c))
      in if object \<noteq> NULL
         then (object, c1\<lparr>cells := (cells c1)(ret := redzone_pattern, ret + 8 + bufsize c1 - 16 := redzone_pattern)\<rparr>)
         else (object, c1))"

text \<open>
  A damaged red zone raises \<open>SIGABRT\<close>; this is what happens when the handler returns. The addresses given to \<open>free\<close> are the second part of
  the result.
\<close>

definition do_cache_free :: "ptr \<Rightarrow> obj_cache \<Rightarrow> ptr list \<times> obj_cache" where
  "do_cache_free p c =
     (if cells c (p + bufsize c - 16) \<noteq> redzone_pattern then ([], c\<lparr>cache_error := 1\<rparr>)
      else let pre = p - 8
           in if cells c pre \<noteq> redzone_pattern then ([], c\<lparr>cache_error := - 1\<rparr>)
              else if oc_limit c \<noteq> 0 \<and> oc_limit c < oc_total c then ([pre], c\<lparr>oc_total := oc_total c - 1\<rparr>)
              else let (m, h) = STAILQ_INSERT_HEAD pre (cells c) (oc_head c)
                   in ([], c\<lparr>cells := m, oc_head := h, freecurr := freecurr c + 1\<rparr>))"

definition cache_alloc :: "ptr \<Rightarrow> obj_cache \<Rightarrow> ptr \<times> obj_cache" where
  "cache_alloc malloced c = do_cache_alloc malloced c"

definition cache_free :: "ptr \<Rightarrow> obj_cache \<Rightarrow> ptr list \<times> obj_cache" where
  "cache_free p c = do_cache_free p c"

fun destroy_loop :: "nat \<Rightarrow> (ptr \<Rightarrow> ptr) \<Rightarrow> stailq \<Rightarrow> ptr list option" where
  "destroy_loop 0 nx h = (if STAILQ_EMPTY h then Some [] else None)"
| "destroy_loop (Suc n) nx h =
     (if STAILQ_EMPTY h then Some [] else map_option ((#) (stqh_first h)) (destroy_loop n nx (STAILQ_REMOVE_HEAD nx h)))"

text \<open>The addresses \<open>cache_destroy\<close> frees; \<open>freecurr\<close> turns are enough.\<close>

definition cache_destroy :: "obj_cache \<Rightarrow> ptr list option" where
  "cache_destroy c = destroy_loop (nat (freecurr c)) (cells c) (oc_head c)"

section \<open>Use of the cache\<close>

definition buffer :: "obj_cache \<Rightarrow> ptr \<Rightarrow> ptr set" where
  "buffer c p = {p ..< p + bufsize c}"

definition damaged :: "obj_cache \<Rightarrow> ptr \<Rightarrow> bool" where
  "damaged c p \<longleftrightarrow> cells c p \<noteq> redzone_pattern \<or> cells c (p + bufsize c - 8) \<noteq> redzone_pattern"

text \<open>
  \<open>oc_reach c U M\<close>: a cache whose clients use the buffers \<open>U\<close>, with \<open>M\<close> the buffers obtained from \<open>malloc\<close> and not given back. Clients may
  write over the ends of the objects they use.
\<close>

inductive oc_reach :: "obj_cache \<Rightarrow> ptr set \<Rightarrow> ptr set \<Rightarrow> bool" where
  create: "cache_create ok sz m = Some c \<Longrightarrow> oc_reach c {} {}"
| limit: "oc_reach c U M \<Longrightarrow> oc_reach (cache_set_limit l c) U M"
| alloc: "oc_reach c U M \<Longrightarrow> (malloced \<noteq> NULL \<longrightarrow> (\<forall>q\<in>M. buffer c malloced \<inter> buffer c q = {})) \<Longrightarrow> cache_alloc malloced c = (x, c') \<Longrightarrow>
    oc_reach c' (if x = NULL then U else insert (x - 8) U) (if x = NULL then M else insert (x - 8) M)"
| free: "oc_reach c U M \<Longrightarrow> p \<in> U \<Longrightarrow> cache_free (p + 8) c = (fr, c') \<Longrightarrow> oc_reach c' (if damaged c p then U else U - {p}) (M - set fr)"
| overrun: "oc_reach c U M \<Longrightarrow> p \<in> U \<Longrightarrow> q = p \<or> q = p + bufsize c - 8 \<Longrightarrow> oc_reach (c\<lparr>cells := (cells c)(q := w)\<rparr>) U M"

definition oc_rep :: "obj_cache \<Rightarrow> ptr set \<Rightarrow> ptr set \<Rightarrow> ptr list \<Rightarrow> bool" where
  "oc_rep c U M fs \<longleftrightarrow> stailq_rep (cells c) (oc_head c) fs \<and> freecurr c = int (length fs) \<and> M = U \<union> set fs \<and> U \<inter> set fs = {} \<and> finite M \<and>
     oc_total c = int (card M) \<and> (\<forall>p\<in>M. \<forall>q\<in>M. p \<noteq> q \<longrightarrow> buffer c p \<inter> buffer c q = {}) \<and> 16 \<le> bufsize c \<and> 0 \<notin> M"

lemma buffer_upd [simp]: "buffer (c\<lparr>oc_head := h\<rparr>) p = buffer c p" "buffer (c\<lparr>cells := m\<rparr>) p = buffer c p" "buffer (c\<lparr>oc_total := t\<rparr>) p = buffer c p"
  "buffer (c\<lparr>freecurr := f\<rparr>) p = buffer c p" "buffer (c\<lparr>oc_limit := l\<rparr>) p = buffer c p" "buffer (c\<lparr>cache_error := e\<rparr>) p = buffer c p"
  by (simp_all add: buffer_def)

lemma oc_rep_cells: "oc_rep c U M fs \<Longrightarrow> stailq_rep m (oc_head c) fs \<Longrightarrow> oc_rep (c\<lparr>cells := m\<rparr>) U M fs"
  unfolding oc_rep_def by (elim conjE, intro conjI) simp_all

lemma oc_rep_list: "oc_rep c U M fs \<Longrightarrow> stailq_rep (cells c) (oc_head c) fs"
  by (simp add: oc_rep_def)

lemma buffer_cell:
  assumes "oc_rep c U M fs" "p \<in> U" "q = p \<or> q = p + bufsize c - 8"
  shows "q \<notin> set fs"
proof
  assume q: "q \<in> set fs"
  have "p \<noteq> q" using assms(1,2) q by (auto simp: oc_rep_def)
  then have "buffer c p \<inter> buffer c q = {}" using assms(1,2) q by (auto simp: oc_rep_def)
  moreover have "q \<in> buffer c p" "q \<in> buffer c q" using assms(1,3) by (auto simp: oc_rep_def buffer_def)
  ultimately show False by blast
qed

lemma oc_alloc_free_list:
  assumes "oc_rep c U M (f # fs)"
  shows "\<exists>c'. cache_alloc m c = (f + 8, c') \<and> oc_rep c' (insert f U) M fs \<and> bufsize c' = bufsize c"
proof -
  let ?c = "c\<lparr>oc_head := STAILQ_REMOVE_HEAD (cells c) (oc_head c), freecurr := freecurr c - 1\<rparr>"
  let ?m = "(cells c)(f := redzone_pattern, f + 8 + bufsize c - 16 := redzone_pattern)"
  have s: "stailq_rep (cells c) (oc_head c) (f # fs)" using assms by (simp add: oc_rep_def)
  have first: "stqh_first (oc_head c) = f" using stailq_rep_first [OF s] by simp
  have d: "f \<notin> set fs" using s by (simp add: stailq_rep_def)
  have r: "oc_rep ?c (insert f U) M fs" using assms d stailq_rep_pop [OF s] by (auto simp: oc_rep_def)
  have "f + 8 + bufsize c - 16 = f + bufsize ?c - 8" using assms by (simp add: oc_rep_def)
  then have "f + 8 + bufsize c - 16 \<notin> set fs" using buffer_cell [OF r, of f "f + 8 + bufsize c - 16"] by simp
  then have "oc_rep (?c\<lparr>cells := ?m\<rparr>) (insert f U) M fs"
    using oc_rep_list [OF r] d by (intro oc_rep_cells [OF r] stailq_rep_upd) simp_all
  moreover have "cache_alloc m c = (f + 8, ?c\<lparr>cells := ?m\<rparr>)"
    using assms first by (simp add: cache_alloc_def do_cache_alloc_def get_object_def oc_rep_def)
  ultimately show ?thesis by (intro exI [of _ "?c\<lparr>cells := ?m\<rparr>"]) simp
qed

lemma oc_alloc_new:
  assumes r: "oc_rep c U M []" and l: "oc_limit c = 0 \<or> oc_total c < oc_limit c" and m: "m \<noteq> NULL" "\<forall>q\<in>M. buffer c m \<inter> buffer c q = {}"
  shows "\<exists>c'. cache_alloc m c = (m + 8, c') \<and> oc_rep c' (insert m U) (insert m M) [] \<and> bufsize c' = bufsize c"
proof -
  let ?c = "c\<lparr>oc_total := oc_total c + 1\<rparr>"
  let ?c' = "?c\<lparr>cells := (cells c)(m := redzone_pattern, m + 8 + bufsize c - 16 := redzone_pattern)\<rparr>"
  have "m \<in> buffer c m" using r by (auto simp: buffer_def oc_rep_def)
  then have "m \<notin> M" using m(2) by blast
  then have "oc_rep ?c (insert m U) (insert m M) []" using r m by (auto simp: oc_rep_def)
  then have "oc_rep ?c' (insert m U) (insert m M) []" by (rule oc_rep_cells) (use r in \<open>simp add: oc_rep_def stailq_rep_def\<close>)
  moreover have "cache_alloc m c = (m + 8, ?c')"
    using r l m(1) by (simp add: cache_alloc_def do_cache_alloc_def get_object_def oc_rep_def)
  ultimately show ?thesis by (intro exI [of _ ?c']) simp
qed

lemma oc_alloc_none:
  assumes "oc_rep c U M []" "oc_limit c \<noteq> 0 \<and> oc_limit c \<le> oc_total c \<or> m = NULL"
  shows "cache_alloc m c = (NULL, c)"
  using assms by (auto simp: cache_alloc_def do_cache_alloc_def oc_rep_def)

lemma oc_free:
  assumes r: "oc_rep c U M fs" and p: "p \<in> U"
  shows "damaged c p \<Longrightarrow> \<exists>e. e \<noteq> 0 \<and> cache_free (p + 8) c = ([], c\<lparr>cache_error := e\<rparr>)"
    "\<not> damaged c p \<Longrightarrow> oc_limit c \<noteq> 0 \<and> oc_limit c < oc_total c \<Longrightarrow>
      cache_free (p + 8) c = ([p], c\<lparr>oc_total := oc_total c - 1\<rparr>) \<and> oc_rep (c\<lparr>oc_total := oc_total c - 1\<rparr>) (U - {p}) (M - {p}) fs"
    "\<not> damaged c p \<Longrightarrow> \<not> (oc_limit c \<noteq> 0 \<and> oc_limit c < oc_total c) \<Longrightarrow>
      \<exists>c'. cache_free (p + 8) c = ([], c') \<and> oc_rep c' (U - {p}) M (p # fs)"
proof -
  have b: "p + 8 + bufsize c - 16 = p + bufsize c - 8" using r by (simp add: oc_rep_def)
  have fin: "finite M" "p \<in> M" "0 < card M" using r p by (auto simp: oc_rep_def card_gt_0_iff)
  show "\<exists>e. e \<noteq> 0 \<and> cache_free (p + 8) c = ([], c\<lparr>cache_error := e\<rparr>)" if "damaged c p"
    using that b by (intro exI [of _ "if cells c (p + bufsize c - 8) \<noteq> redzone_pattern then 1 else - 1"])
      (auto simp: cache_free_def do_cache_free_def damaged_def)
  show "cache_free (p + 8) c = ([p], c\<lparr>oc_total := oc_total c - 1\<rparr>) \<and> oc_rep (c\<lparr>oc_total := oc_total c - 1\<rparr>) (U - {p}) (M - {p}) fs"
    if "\<not> damaged c p" "oc_limit c \<noteq> 0 \<and> oc_limit c < oc_total c"
    using that b r p fin by (auto simp: cache_free_def do_cache_free_def damaged_def oc_rep_def card_Diff_singleton of_nat_diff)
  show "\<exists>c'. cache_free (p + 8) c = ([], c') \<and> oc_rep c' (U - {p}) M (p # fs)"
    if "\<not> damaged c p" "\<not> (oc_limit c \<noteq> 0 \<and> oc_limit c < oc_total c)"
  proof -
    obtain m h where i: "STAILQ_INSERT_HEAD p (cells c) (oc_head c) = (m, h)" by (cases "STAILQ_INSERT_HEAD p (cells c) (oc_head c)")
    have pf: "p \<notin> set fs" "p \<noteq> 0" using r p by (auto simp: oc_rep_def)
    have "stailq_rep m h (p # fs)" by (rule stailq_rep_push(1) [OF _ pf(2,1) i]) (use r in \<open>simp add: oc_rep_def\<close>)
    then have "oc_rep (c\<lparr>cells := m, oc_head := h, freecurr := freecurr c + 1\<rparr>) (U - {p}) M (p # fs)"
      using r p by (auto simp: oc_rep_def)
    moreover have "cache_free (p + 8) c = ([], c\<lparr>cells := m, oc_head := h, freecurr := freecurr c + 1\<rparr>)"
      using that b i by (auto simp: cache_free_def do_cache_free_def damaged_def)
    ultimately show ?thesis by blast
  qed
qed

lemma oc_reach_rep: "oc_reach c U M \<Longrightarrow> \<exists>fs. oc_rep c U M fs"
proof (induction rule: oc_reach.induct)
  case (create ok sz m c)
  then have "oc_rep c {} {} []" by (auto simp: cache_create_def oc_rep_def split: if_splits)
  then show ?case ..
next
  case (limit c U M l)
  then obtain fs where "oc_rep c U M fs" by blast
  then have "oc_rep (cache_set_limit l c) U M fs" by (auto simp: oc_rep_def cache_set_limit_def)
  then show ?case ..
next
  case (alloc c U M malloced x c')
  then obtain fs where r: "oc_rep c U M fs" by blast
  show ?case
  proof (cases fs)
    case (Cons f gs)
    obtain c1 where a: "cache_alloc malloced c = (f + 8, c1)" "oc_rep c1 (insert f U) M gs"
      using oc_alloc_free_list [of c U M f gs malloced] r Cons by blast
    have "insert f M = M" using r Cons by (auto simp: oc_rep_def)
    then show ?thesis using a alloc.hyps(3) by auto
  next
    case Nil
    show ?thesis
    proof (cases "oc_limit c \<noteq> 0 \<and> oc_limit c \<le> oc_total c \<or> malloced = NULL")
      case True
      then show ?thesis using oc_alloc_none [of c U M malloced] r Nil alloc.hyps(3) by auto
    next
      case False
      then show ?thesis using oc_alloc_new [of c U M malloced] r Nil alloc.hyps(2,3) by force
    qed
  qed
next
  case (free c U M p fr c')
  then obtain fs where r: "oc_rep c U M fs" by blast
  show ?case
  proof (cases "damaged c p")
    case True
    then obtain e where "fr = []" "c' = c\<lparr>cache_error := e\<rparr>" using oc_free(1) [OF r free.hyps(2)] free.hyps(3) by auto
    then show ?thesis using True r by (auto simp: oc_rep_def)
  next
    case False
    then show ?thesis using oc_free(2,3) [OF r free.hyps(2)] free.hyps(3)
      by (cases "oc_limit c \<noteq> 0 \<and> oc_limit c < oc_total c") auto
  qed
next
  case (overrun c U M p q w)
  then obtain fs where r: "oc_rep c U M fs" by blast
  have "oc_rep (c\<lparr>cells := (cells c)(q := w)\<rparr>) U M fs"
    using oc_rep_list [OF r] buffer_cell [OF r overrun.hyps(2,3)] by (intro oc_rep_cells [OF r] stailq_rep_upd) simp_all
  then show ?case ..
qed

lemma destroy_loop_all: "stailq_rep nx h xs \<Longrightarrow> destroy_loop (length xs) nx h = Some xs"
proof (induction xs arbitrary: h)
  case (Cons x xs)
  then show ?case using stailq_rep_first [OF Cons.prems] stailq_rep_pop [OF Cons.prems]
    by (auto simp: STAILQ_EMPTY_def stailq_rep_def)
qed (use stailq_rep_first in \<open>fastforce simp: STAILQ_EMPTY_def\<close>)

text \<open>C30: The object cache is safe. Whatever its clients allocate, free and overwrite, with any limits: an allocation gives no object exactly when no
  object is free and either the limit is reached or \<open>malloc\<close> failed; an object handed out lies in a buffer that shares no byte with a buffer in
  use. Freeing an object whose red zones were overwritten is detected and changes nothing else; otherwise the object is given back to the system
  when the cache is over its limit, and else it is the next one handed out. \<open>cache_destroy\<close> ends and frees every free buffer once.\<close>

theorem object_cache_safe:
  assumes "oc_reach c U M" and "malloced \<noteq> NULL \<longrightarrow> (\<forall>q\<in>M. buffer c malloced \<inter> buffer c q = {})" and "p \<in> U"
  shows "oc_total c = int (card M) \<and> freecurr c = int (card (M - U)) \<and>
    (\<exists>x c'. cache_alloc malloced c = (x, c') \<and>
      (x = NULL \<longleftrightarrow> M = U \<and> (oc_limit c \<noteq> 0 \<and> oc_limit c \<le> oc_total c \<or> malloced = NULL)) \<and>
      (x \<noteq> NULL \<longrightarrow> {x ..< x + (bufsize c - 16)} \<subseteq> buffer c (x - 8) \<and> (\<forall>q\<in>U. buffer c (x - 8) \<inter> buffer c q = {}))) \<and>
    (\<exists>fr c'. cache_free (p + 8) c = (fr, c') \<and>
      (if damaged c p then fr = [] \<and> (\<exists>e. e \<noteq> 0 \<and> c' = c\<lparr>cache_error := e\<rparr>)
       else if oc_limit c \<noteq> 0 \<and> oc_limit c < oc_total c then fr = [p]
       else fr = [] \<and> (\<forall>m. fst (cache_alloc m c') = p + 8))) \<and>
    (\<exists>fs. cache_destroy c = Some fs \<and> distinct fs \<and> set fs = M - U)"
proof -
  obtain fs where r: "oc_rep c U M fs" using oc_reach_rep [OF assms(1)] by blast
  have MU: "M - U = set fs" "distinct fs" "oc_total c = int (card M)" "freecurr c = int (length fs)" "16 \<le> bufsize c"
    using r by (auto simp: oc_rep_def stailq_rep_def)
  have dis: "\<forall>q\<in>U. buffer c x \<inter> buffer c q = {}" if "x \<in> M - U" for x
  proof
    fix q assume "q \<in> U"
    then have "q \<in> M" "x \<noteq> q" using r that by (auto simp: oc_rep_def)
    then show "buffer c x \<inter> buffer c q = {}" using r that unfolding oc_rep_def by blast
  qed
  have sub: "{x + 8 ..< x + 8 + (bufsize c - 16)} \<subseteq> buffer c x" for x using MU(5) by (auto simp: buffer_def)
  have al: "\<exists>x c'. cache_alloc malloced c = (x, c') \<and>
      (x = NULL \<longleftrightarrow> M = U \<and> (oc_limit c \<noteq> 0 \<and> oc_limit c \<le> oc_total c \<or> malloced = NULL)) \<and>
      (x \<noteq> NULL \<longrightarrow> {x ..< x + (bufsize c - 16)} \<subseteq> buffer c (x - 8) \<and> (\<forall>q\<in>U. buffer c (x - 8) \<inter> buffer c q = {}))"
  proof (cases fs)
    case (Cons f gs)
    then have "f \<in> M - U" using MU(1) by simp
    then show ?thesis using oc_alloc_free_list [of c U M f gs malloced] r Cons dis [of f] sub [of f] by fastforce
  next
    case Nil
    then have "M = U" using r by (simp add: oc_rep_def)
    then show ?thesis
      using oc_alloc_none [of c U M malloced] oc_alloc_new [of c U M malloced] r Nil assms(2) sub [of malloced]
      by (cases "oc_limit c \<noteq> 0 \<and> oc_limit c \<le> oc_total c \<or> malloced = NULL") fastforce+
  qed
  have fre: "\<exists>fr c'. cache_free (p + 8) c = (fr, c') \<and>
      (if damaged c p then fr = [] \<and> (\<exists>e. e \<noteq> 0 \<and> c' = c\<lparr>cache_error := e\<rparr>)
       else if oc_limit c \<noteq> 0 \<and> oc_limit c < oc_total c then fr = [p]
       else fr = [] \<and> (\<forall>m. fst (cache_alloc m c') = p + 8))"
  proof (cases "\<not> damaged c p \<and> \<not> (oc_limit c \<noteq> 0 \<and> oc_limit c < oc_total c)")
    case True
    then obtain c' where f: "cache_free (p + 8) c = ([], c')" "oc_rep c' (U - {p}) M (p # fs)" using oc_free(3) [OF r assms(3)] by blast
    have "fst (cache_alloc m c') = p + 8" for m using oc_alloc_free_list [OF f(2), of m] by auto
    then show ?thesis using True f(1) by auto
  next
    case False
    then show ?thesis using oc_free(1,2) [OF r assms(3)] by (cases "damaged c p") auto
  qed
  have "cache_destroy c = Some fs" using destroy_loop_all [OF oc_rep_list [OF r]] MU(4) by (simp add: cache_destroy_def)
  then show ?thesis using al fre MU distinct_card [OF MU(2)] by (intro conjI) auto
qed

theorem object_cache_safe_witness:
  "\<exists>c c1. cache_create True 24 (\<lambda>_. 0) = Some c \<and> cache_alloc 100 c = (108, c1) \<and> cache_destroy c1 = Some [] \<and>
     (\<exists>c2. cache_free 108 c1 = ([], c2) \<and> (\<forall>m. fst (cache_alloc m c2) = 108))"
proof -
  obtain c where c: "cache_create True 24 (\<lambda>_. 0) = Some c" by (simp add: cache_create_def)
  obtain c1 where a: "cache_alloc 100 c = (108, c1)" "cells c1 100 = redzone_pattern" "cells c1 (100 + bufsize c1 - 8) = redzone_pattern" "oc_limit c1 = 0"
    using c by (auto simp: cache_create_def cache_alloc_def do_cache_alloc_def get_object_def)
  have "oc_reach c1 (insert 100 {}) (insert 100 {})" using oc_reach.alloc [OF oc_reach.create [OF c] _ a(1)] by simp
  from object_cache_safe [OF this, of NULL 100] a show ?thesis using c by (auto simp: damaged_def)
qed

end
