(* ===== verification/Base64.thy ===== *)
theory Base64
  imports Itoa
begin

text \<open>
  Base64 of \<^verbatim>\<open>base64.c\<close>, used for binary keys in the text protocol. The size computations are those of a 64-bit \<open>size_t\<close>. \<open>None\<close> is the return value 0
  of a refused call (too small a buffer, no buffer, invalid padding); \<open>Some out\<close> are the bytes before \<open>pos\<close> at the end, so that the return value is their number.
\<close>

definition base64_table :: "byte list" where
  "base64_table = bytes ''ABCDEFGHIJKLMNOPQRSTUVWXYZabcdefghijklmnopqrstuvwxyz0123456789+/''"

definition dtable :: "byte list" where
  "dtable =
    [128, 128, 128, 128, 128, 128, 128, 128, 128, 128, 128, 128, 128, 128, 128, 128,
     128, 128, 128, 128, 128, 128, 128, 128, 128, 128, 128, 128, 128, 128, 128, 128,
     128, 128, 128, 128, 128, 128, 128, 128, 128, 128, 128, 62, 128, 128, 128, 63,
     52, 53, 54, 55, 56, 57, 58, 59, 60, 61, 128, 128, 128, 0, 128, 128,
     128, 0, 1, 2, 3, 4, 5, 6, 7, 8, 9, 10, 11, 12, 13, 14,
     15, 16, 17, 18, 19, 20, 21, 22, 23, 24, 25, 128, 128, 128, 128, 128,
     128, 26, 27, 28, 29, 30, 31, 32, 33, 34, 35, 36, 37, 38, 39, 40,
     41, 42, 43, 44, 45, 46, 47, 48, 49, 50, 51, 128, 128, 128, 128, 128,
     128, 128, 128, 128, 128, 128, 128, 128, 128, 128, 128, 128, 128, 128, 128, 128,
     128, 128, 128, 128, 128, 128, 128, 128, 128, 128, 128, 128, 128, 128, 128, 128,
     128, 128, 128, 128, 128, 128, 128, 128, 128, 128, 128, 128, 128, 128, 128, 128,
     128, 128, 128, 128, 128, 128, 128, 128, 128, 128, 128, 128, 128, 128, 128, 128,
     128, 128, 128, 128, 128, 128, 128, 128, 128, 128, 128, 128, 128, 128, 128, 128,
     128, 128, 128, 128, 128, 128, 128, 128, 128, 128, 128, 128, 128, 128, 128, 128,
     128, 128, 128, 128, 128, 128, 128, 128, 128, 128, 128, 128, 128, 128, 128, 128,
     128, 128, 128, 128, 128, 128, 128, 128, 128, 128, 128, 128, 128, 128, 128, 128]"

section \<open>Encoding\<close>

definition enc_char :: "byte \<Rightarrow> byte" where
  "enc_char i = base64_table ! unat i"

fun encode_loop :: "byte list \<Rightarrow> byte list" where
  "encode_loop (a # b # c # inp) =
     [enc_char (drop_bit 2 a), enc_char (push_bit 4 (a AND 0x03) OR drop_bit 4 b),
      enc_char (push_bit 2 (b AND 0x0f) OR drop_bit 6 c), enc_char (c AND 0x3f)] @ encode_loop inp"
| "encode_loop [a, b] =
     [enc_char (drop_bit 2 a), enc_char (push_bit 4 (a AND 0x03) OR drop_bit 4 b), enc_char (push_bit 2 (b AND 0x0f)), 61]"
| "encode_loop [a] = [enc_char (drop_bit 2 a), enc_char (push_bit 4 (a AND 0x03)), 61, 61]"
| "encode_loop [] = []"

definition encode_size :: "u64 \<Rightarrow> u64" where
  "encode_size len = (let olen = len * 4 div 3 + 4; olen1 = olen + olen div 72 in olen1 + 1)"

definition base64_encode :: "byte list \<Rightarrow> bool \<Rightarrow> u64 \<Rightarrow> byte list option" where
  "base64_encode src out_null out_len =
     (let olen = encode_size (of_nat (length src))
      in if olen < of_nat (length src) then None
         else if olen > out_len then None
         else if out_null then None
         else Some (encode_loop src))"

section \<open>Decoding\<close>

definition dec_char :: "byte \<Rightarrow> byte" where
  "dec_char x = dtable ! unat x"

definition valid_chars :: "byte list \<Rightarrow> nat" where
  "valid_chars src = length (filter (\<lambda>x. dec_char x \<noteq> 0x80) src)"

text \<open>
  The bytes of a full block, and the loop: \<open>block\<close> holds the \<open>count\<close> values so far. \<open>None\<close> is the return for invalid padding.
\<close>

fun decode_block :: "byte list \<Rightarrow> byte list" where
  "decode_block [w, x, y, z] = [push_bit 2 w OR drop_bit 4 x, push_bit 4 x OR drop_bit 2 y, push_bit 6 y OR z]"
| "decode_block _ = []"

fun decode_loop :: "byte list \<Rightarrow> byte list \<Rightarrow> nat \<Rightarrow> byte list \<Rightarrow> byte list option" where
  "decode_loop [] block pads out = Some out"
| "decode_loop (x # src) block pads out =
     (let tmp = dec_char x
      in if tmp = 0x80 then decode_loop src block pads out
         else let pads' = (if x = 61 then pads + 1 else pads);
                  block' = block @ [tmp]
              in if length block' = 4
                 then let out' = out @ decode_block block'
                      in if pads' = 0 then decode_loop src [] pads' out'
                         else if pads' = 1 then Some (take (length out' - 1) out')
                         else if pads' = 2 then Some (take (length out' - 2) out')
                         else None
                 else decode_loop src block' pads' out)"

definition base64_decode :: "byte list \<Rightarrow> bool \<Rightarrow> u64 \<Rightarrow> byte list option" where
  "base64_decode src out_null out_len =
     (let count = valid_chars src
      in if count = 0 \<or> count mod 4 \<noteq> 0 then None
         else if of_nat (count div 4 * 3) > out_len then None
         else if out_null then None
         else decode_loop src [] 0 [])"

section \<open>Tables\<close>

lemma length_tables: "length base64_table = 64" "length dtable = 256"
  by (simp_all add: base64_table_def bytes_def dtable_def)

lemma dec_enc_table: "list_all (\<lambda>i. dtable ! unat (base64_table ! i) = of_nat i \<and> base64_table ! i \<noteq> 61) [0..<64]"
  by (simp add: list_all_iff base64_table_def bytes_def dtable_def upt_rec)

lemma dec_enc: "unat i < 64 \<Longrightarrow> dec_char (enc_char i) = i \<and> enc_char i \<noteq> 61"
  using dec_enc_table [unfolded list_all_iff, rule_format, of "unat i"] by (simp add: dec_char_def enc_char_def)

lemma dec_equals_sign: "dec_char 61 = 0"
  by (simp add: dec_char_def dtable_def)

section \<open>Bits\<close>

lemma small_sextets:
  fixes a b c :: byte
  shows "unat (drop_bit 2 a) < 64" "unat (push_bit 4 (a AND 0x03) OR drop_bit 4 b) < 64" "unat (push_bit 2 (b AND 0x0f) OR drop_bit 6 c) < 64"
    "unat (c AND 0x3f) < 64" "unat (push_bit 4 (a AND 0x03)) < 64" "unat (push_bit 2 (b AND 0x0f)) < 64"
proof -
  have m: "unat w < 64" if "\<And>n. n \<ge> 6 \<Longrightarrow> \<not> bit w n" for w :: byte
  proof -
    have "bit w n \<Longrightarrow> n < 6" for n using that [of n] by (meson not_le)
    then have "w = take_bit 6 w" by (intro bit_eqI) (auto simp: bit_take_bit_iff)
    then have "unat w = unat (take_bit 6 w)" by (rule arg_cong)
    also have "\<dots> = take_bit 6 (unat w)" by (rule unsigned_take_bit_eq)
    also have "\<dots> < 2 ^ 6" by (rule take_bit_nat_less_exp)
    finally show ?thesis by simp
  qed
  have k: "(0x03 :: byte) = mask 2" "(0x0f :: byte) = mask 4" "(0x3f :: byte) = mask 6" by (simp_all add: mask_eq_exp_minus_1)
  show "unat (drop_bit 2 a) < 64" "unat (push_bit 4 (a AND 0x03) OR drop_bit 4 b) < 64" "unat (push_bit 2 (b AND 0x0f) OR drop_bit 6 c) < 64"
    "unat (c AND 0x3f) < 64" "unat (push_bit 4 (a AND 0x03)) < 64" "unat (push_bit 2 (b AND 0x0f)) < 64"
    by (rule m, auto simp: k bit_simps dest: bit_imp_le_length)+
qed

lemma byte_eqI:
  fixes a b :: byte
  assumes "bit a 0 = bit b 0" "bit a 1 = bit b 1" "bit a 2 = bit b 2" "bit a 3 = bit b 3"
    "bit a 4 = bit b 4" "bit a 5 = bit b 5" "bit a 6 = bit b 6" "bit a 7 = bit b 7"
  shows "a = b"
proof (rule bit_word_eqI)
  fix n assume "n < LENGTH(8)"
  then have "n \<in> {0, 1, 2, 3, 4, 5, 6, 7}" by auto
  then show "bit a n = bit b n" using assms by (elim insertE) simp_all
qed

lemma decode_sextets:
  fixes a b c :: byte
  shows "push_bit 2 (drop_bit 2 a) OR drop_bit 4 (push_bit 4 (a AND 0x03) OR drop_bit 4 b) = a"
    "push_bit 4 (push_bit 4 (a AND 0x03) OR drop_bit 4 b) OR drop_bit 2 (push_bit 2 (b AND 0x0f) OR drop_bit 6 c) = b"
    "push_bit 6 (push_bit 2 (b AND 0x0f) OR drop_bit 6 c) OR (c AND 0x3f) = c"
proof -
  have k: "(0x03 :: byte) = mask 2" "(0x0f :: byte) = mask 4" "(0x3f :: byte) = mask 6" by (simp_all add: mask_eq_exp_minus_1)
  show "push_bit 2 (drop_bit 2 a) OR drop_bit 4 (push_bit 4 (a AND 0x03) OR drop_bit 4 b) = a"
    "push_bit 4 (push_bit 4 (a AND 0x03) OR drop_bit 4 b) OR drop_bit 2 (push_bit 2 (b AND 0x0f) OR drop_bit 6 c) = b"
    "push_bit 6 (push_bit 2 (b AND 0x0f) OR drop_bit 6 c) OR (c AND 0x3f) = c"
    unfolding k by (rule byte_eqI; simp add: bit_simps)+
qed

section \<open>Round trip\<close>

lemma sextet_not_invalid: "unat (i :: byte) < 64 \<Longrightarrow> i \<noteq> 0x80"
  by auto

lemma decode_loop_sextets:
  assumes "unat i1 < 64" "unat i2 < 64" "unat i3 < 64" "unat i4 < 64"
  shows "decode_loop (enc_char i1 # enc_char i2 # enc_char i3 # enc_char i4 # s) [] 0 out = decode_loop s [] 0 (out @ decode_block [i1, i2, i3, i4])"
    "decode_loop (enc_char i1 # enc_char i2 # enc_char i3 # 61 # s) [] 0 out = Some (out @ take 2 (decode_block [i1, i2, i3, 0]))"
    "decode_loop (enc_char i1 # enc_char i2 # 61 # 61 # s) [] 0 out = Some (out @ take 1 (decode_block [i1, i2, 0, 0]))"
  using assms [THEN dec_enc] assms [THEN sextet_not_invalid] by (simp_all add: Let_def dec_equals_sign)

lemma decode_encode_loop: "decode_loop (encode_loop src) [] 0 out = Some (out @ src)"
proof (induction src arbitrary: out rule: encode_loop.induct)
  case (1 a b c inp)
  then show ?case
    unfolding encode_loop.simps append.simps decode_loop_sextets(1) [OF small_sextets(1,2,3,4)] decode_block.simps decode_sextets by simp
next
  case (2 a b)
  have e: "push_bit 4 (push_bit 4 (a AND 0x03) OR drop_bit 4 b) OR drop_bit 2 (push_bit 2 (b AND 0x0f)) = b"
    using decode_sextets(2) [of a b 0] by (simp only: drop_bit_of_0 or.right_neutral)
  show ?case
    unfolding encode_loop.simps decode_loop_sextets(2) [OF small_sextets(1,2,6,6)] decode_block.simps decode_sextets(1) e by simp
next
  case (3 a)
  have e: "push_bit 2 (drop_bit 2 a) OR drop_bit 4 (push_bit 4 (a AND 0x03)) = a"
    using decode_sextets(1) [of a 0] by (simp only: drop_bit_of_0 or.right_neutral)
  show ?case
    unfolding encode_loop.simps decode_loop_sextets(3) [OF small_sextets(1,5,5,5)] decode_block.simps e by simp
qed simp

lemma length_encode_loop: "length (encode_loop src) = 4 * ((length src + 2) div 3)"
proof (induction src rule: encode_loop.induct)
  case (1 a b c inp)
  have "(length (a # b # c # inp) + 2) div 3 = Suc ((length inp + 2) div 3)" by simp
  then show ?case using 1 by simp
qed simp_all

lemma valid_enc_char: "unat i < 64 \<Longrightarrow> dec_char (enc_char i) \<noteq> 0x80"
  using dec_enc sextet_not_invalid by simp

lemmas valid_sextets = small_sextets [THEN valid_enc_char]

lemma valid_encode_loop: "x \<in> set (encode_loop src) \<Longrightarrow> dec_char x \<noteq> 0x80"
proof (induction src rule: encode_loop.induct)
  case (1 a b c inp)
  then show ?case unfolding encode_loop.simps set_append list.set Un_iff insert_iff using valid_sextets by blast
next
  case (2 a b)
  then show ?case unfolding encode_loop.simps list.set insert_iff using valid_sextets dec_equals_sign by auto
next
  case (3 a)
  then show ?case unfolding encode_loop.simps list.set insert_iff using valid_sextets dec_equals_sign by auto
qed simp

lemma valid_chars_encode: "valid_chars (encode_loop src) = length (encode_loop src)"
  using valid_encode_loop by (auto simp: valid_chars_def intro: arg_cong [of _ _ length] filter_True)

lemma unat_encode_size:
  assumes "n < 2 ^ 60"
  shows "unat (encode_size (of_nat n)) = n * 4 div 3 + 4 + (n * 4 div 3 + 4) div 72 + 1"
proof -
  have 0: "unat (of_nat n :: u64) = n" using assms by (simp add: unat_of_nat)
  have 1: "unat (of_nat n * 4 :: u64) = n * 4" using assms by (simp add: unat_word_ariths 0)
  have 2: "unat (of_nat n * 4 div 3 :: u64) = n * 4 div 3" unfolding unat_div 1 by simp
  have 3: "unat (of_nat n * 4 div 3 + 4 :: u64) = n * 4 div 3 + 4" using assms unfolding unat_word_ariths(1) 2 by simp
  have 4: "unat ((of_nat n * 4 div 3 + 4) div 72 :: u64) = (n * 4 div 3 + 4) div 72" unfolding unat_div 3 by simp
  have 5: "unat ((of_nat n * 4 div 3 + 4) + (of_nat n * 4 div 3 + 4) div 72 :: u64) = n * 4 div 3 + 4 + (n * 4 div 3 + 4) div 72"
    by (subst unat_word_ariths(1), simp only: 3 4) (use assms in simp)
  show ?thesis unfolding encode_size_def Let_def by (subst unat_word_ariths(1), simp only: 5) (use assms in simp)
qed

lemma decode_loop_bound:
  "decode_loop src block p out = Some res \<Longrightarrow> length block < 4 \<Longrightarrow> length res \<le> length out + 3 * ((valid_chars src + length block) div 4)"
proof (induction src block p out arbitrary: res rule: decode_loop.induct)
  case (2 x src block p out)
  let ?b = "block @ [dec_char x]" and ?p = "if x = 61 then p + 1 else p"
  show ?case
  proof (cases "dec_char x = 0x80")
    case True
    then show ?thesis using 2 by (simp add: valid_chars_def)
  next
    case False
    have v: "valid_chars (x # src) = Suc (valid_chars src)" using False by (simp add: valid_chars_def)
    show ?thesis
    proof (cases "length ?b = 4")
      case True
      then obtain i j k l where "?b = [i, j, k, l]" by (auto simp: numeral_eq_Suc length_Suc_conv)
      then have three: "length (decode_block ?b) = 3" by simp
      have v4: "(valid_chars (x # src) + length block) div 4 = Suc (valid_chars src div 4)" using True v by simp
      show ?thesis
      proof (cases "?p = 0")
        case p: True
        then have "decode_loop src [] ?p (out @ decode_block ?b) = Some res" using 2(4) False True by (simp add: Let_def)
        from "2.IH"(2) [OF refl False refl refl True refl p this] True three v4 show ?thesis by simp
      next
        case False
        then show ?thesis using 2(4) True \<open>dec_char x \<noteq> 0x80\<close> three v4 by (auto simp: Let_def split: if_splits)
      qed
    next
      case b: False
      then have "decode_loop src ?b ?p out = Some res" using 2(4) False by (simp add: Let_def)
      from "2.IH"(3) [OF refl False refl refl b this] b 2(5) v show ?thesis by simp
    qed
  qed
qed simp

text \<open>C31: Base64 round trip: for every non-empty value (of less than 2 to the 60 bytes) and buffers as large as the two size computations ask for,
  encoding succeeds, fits with its final NUL byte into the output buffer, consists of whole blocks, and decoding it gives the value back.\<close>

theorem base64_roundtrip:
  assumes "src \<noteq> []" and "length src < 2 ^ 60" and "encode_size (of_nat (length src)) \<le> out_len" and "3 * ((length src + 2) div 3) \<le> unat dec_len"
  shows "\<exists>out. base64_encode src False out_len = Some out \<and> length out + 1 \<le> unat out_len \<and> length out mod 4 = 0 \<and>
    base64_decode out False dec_len = Some src"
proof -
  let ?n = "length src"
  note sz = unat_encode_size [OF assms(2)]
  have n: "unat (of_nat ?n :: u64) = ?n" using assms(2) by (simp add: unat_of_nat)
  have "\<not> encode_size (of_nat ?n) < of_nat ?n" unfolding word_less_nat_alt sz n by simp
  then have e: "base64_encode src False out_len = Some (encode_loop src)" using assms(3) by (simp add: base64_encode_def Let_def not_less)
  have "4 * ((?n + 2) div 3) + 1 \<le> unat (encode_size (of_nat ?n))" unfolding sz by linarith
  then have fits: "length (encode_loop src) + 1 \<le> unat out_len" using assms(3) by (simp add: length_encode_loop word_le_nat_alt)
  have v: "valid_chars (encode_loop src) = 4 * ((?n + 2) div 3)" by (simp add: valid_chars_encode length_encode_loop)
  have pos: "0 < (?n + 2) div 3" using assms(1) by (cases src) (simp_all add: div_greater_zero_iff)
  have "unat (of_nat (valid_chars (encode_loop src) div 4 * 3) :: u64) = 3 * ((?n + 2) div 3)"
    unfolding v by (subst unat_of_nat) (use assms(2) in simp)
  then have "\<not> of_nat (valid_chars (encode_loop src) div 4 * 3) > dec_len"
    using assms(4) unfolding word_less_nat_alt by simp
  then have "base64_decode (encode_loop src) False dec_len = Some src"
    using v pos decode_encode_loop [of src "[]"] by (simp add: base64_decode_def Let_def)
  then show ?thesis using e fits by (intro exI [of _ "encode_loop src"]) (simp add: length_encode_loop)
qed

theorem base64_roundtrip_witness:
  "\<exists>out. base64_encode [77, 97, 110, 33] False 100 = Some out \<and> base64_decode out False 6 = Some [77, 97, 110, 33]"
  using base64_roundtrip [of "[77, 97, 110, 33]" 100 6] by (auto simp: encode_size_def)

text \<open>C32: Decoding any input returns at most as many bytes as the output buffer holds, and refuses an input whose number of alphabet characters is not a
  positive multiple of four.\<close>

theorem base64_decode_bound:
  assumes "length src < 2 ^ 60" and "base64_decode src False out_len = Some out"
  shows "length out \<le> unat out_len \<and> 0 < valid_chars src \<and> valid_chars src mod 4 = 0"
proof -
  let ?c = "valid_chars src"
  have c: "?c \<le> length src" by (simp add: valid_chars_def)
  have u: "unat (of_nat (?c div 4 * 3) :: u64) = ?c div 4 * 3" using c assms(1) by (subst unat_of_nat) simp
  have d: "?c \<noteq> 0" "?c mod 4 = 0" "\<not> of_nat (?c div 4 * 3) > out_len" "decode_loop src [] 0 [] = Some out"
    using assms(2) unfolding base64_decode_def Let_def by (simp_all split: if_splits)
  have "?c div 4 * 3 \<le> unat out_len" using d(3) unfolding word_less_nat_alt u by simp
  then show ?thesis using d(1,2) decode_loop_bound [OF d(4)] by simp
qed

theorem base64_decode_bound_witness:
  "\<exists>out. base64_decode [84, 87, 69, 61] False 3 = Some out \<and> length out \<le> 3"
proof -
  have "\<exists>out. base64_decode [84, 87, 69, 61] False 3 = Some out"
    by (simp add: base64_decode_def valid_chars_def dec_char_def dtable_def Let_def)
  then show ?thesis using base64_decode_bound [of "[84, 87, 69, 61]" 3] by auto
qed

end
