(* ===== verification/Spec2Isabelle.thy ===== *)
theory Spec2Isabelle
  imports Assoc Slab_Safety Slab_Rebalance Store_Spec Bipbuf Obj_Cache Base64
begin

text \<open>
  Verification of the memcached core of this repository: the cache proper (hash table, slab allocator, items with their segmented
  LRU, storage commands) and the support code it uses. The C sources are in \<^verbatim>\<open>src/\<close>; every definition has the name of the function,
  macro or type it translates wherever Isabelle allows it.

  \<^bold>\<open>How the parts interact.\<close> A client command (\<^verbatim>\<open>memcached.c\<close>, through the locked wrappers of \<^verbatim>\<open>thread.c\<close>) looks an item up
  (\<open>do_item_get\<close>), allocates a new one (\<open>do_item_alloc\<close>) and stores it (\<open>do_store_item\<close>). The item layer (\<^verbatim>\<open>items.c\<close>) keeps every linked item in the
  hash table (\<^verbatim>\<open>assoc.c\<close>) and in one of the LRU queues of its slab class, counts references, and takes its memory from the slab allocator
  (\<^verbatim>\<open>slabs.c\<close>), evicting from the tails of the queues when that is out of memory. A maintenance thread moves items between the queues, another
  one expands the hash table bucket by bucket, a third one moves slab pages between classes.

  \<^bold>\<open>Common conventions\<close> (\<open>Prelude\<close>, \<open>Item_Model\<close>, \<open>Heap_Lists\<close>, \<open>Item_Queues\<close>, \<open>Settings\<close>). Addresses are natural numbers, 0 is \<open>NULL\<close>. The heap maps an
  address to the item header that starts there, with the key and value bytes behind it as lists. Integers that may wrap are words of
  their width in C; counters and sizes that cannot are numbers. State is passed explicitly; a result \<open>None\<close> stands for a failed assertion, undefined
  behaviour, or a loop that does not end. Outcomes of \<open>malloc\<close>, \<open>realloc\<close> and \<open>trylock\<close> are arguments, so that the theorems hold for all of them.
  What a lock protects is one step. The build is the default one, with external storage compiled in (but not enabled) and without TLS, proxy and SASL.

  \<^bold>\<open>Hash table\<close> (\<open>Assoc\<close>). Buckets, the two tables during an expansion, find, insert, delete, the bulk move of the maintenance thread, the iterator.
  Any history of these operations behaves as a map; the lookup ends; an expansion ends; the iterator is complete.

  \<^bold>\<open>Slab allocator\<close> (\<open>Slabs\<close>, \<open>Slab_Laws\<close>, \<open>Slab_Safety\<close>, \<open>Slab_Rebalance\<close>). Class table, pages, free lists, chunked items, memory limit, page moves. Over any sequence of
  operations and client writes, chunks in use never overlap; class choice is first fit; the limit is kept.

  \<^bold>\<open>Items\<close> (\<open>Items\<close> with the model; \<open>Item_Laws\<close>, \<open>Item_Inv\<close>, \<open>Item_Ops\<close>, \<open>Item_Evict\<close>, \<open>Item_Alloc\<close>, \<open>Item_Crawl\<close> with the invariant and what each operation keeps of it; \<open>Cache\<close>, \<open>Cache_Spec\<close>,
  \<open>Cache_Sample\<close>). All operations are steps of one transition system, interleaved in any order. One invariant ties counters, flags, reference counts,
  table, queues and allocator together; on the map from keys to entries, lookups, links, replacements, removals and evictions act as specified. The
  LRU search skips crawler items without counting a try, so it is a partial function, and that it returns is a theorem.

  \<^bold>\<open>Storage commands\<close> (\<open>Store\<close> with the model; \<open>Store_Laws\<close>, \<open>Store_Append\<close>, \<open>Store_Sample\<close>, \<open>Store_Spec\<close>). set, add, replace, cas, append, prepend and the arithmetic commands as functions
  of the map of live entries.

  \<^bold>\<open>Queues and objects\<close> (\<open>Queue_Spec\<close>, \<open>Bipbuf\<close>, \<open>Obj_Cache\<close>). The contract of a byte queue as a locale, with its consequences proved once; the bip buffer meets it.
  The cache of equal-sized objects over the tail queues of \<^verbatim>\<open>queue.h\<close>, with its red zones.

  \<^bold>\<open>Text and numbers\<close> (\<open>Itoa\<close>, \<open>Util\<close>, \<open>Base64\<close>). Printing and parsing numbers, URI encoding, base64, byte order, timing-safe comparison.

  \<^bold>\<open>Not modelled.\<close> Network, event and worker threads, the mTCP glue, signal handling and option parsing, because they consist of calls into the operating
  system and third-party libraries. The text, binary and meta protocols above the storage commands. External storage (\<^verbatim>\<open>extstore.c\<close>, \<^verbatim>\<open>storage.c\<close>), which is disk I/O.
  The proxy, TLS and SASL, which the default build does not contain. Statistics output and logging, which only format text. The automatic page mover, whose
  decisions are taken in floating point. \<^verbatim>\<open>xxhash.h\<close> and \<^verbatim>\<open>md5.c\<close>, vendored libraries: the hash function is a parameter of the model.
\<close>

section \<open>The cache as a whole\<close>

text \<open>C1: In every state the cache can reach by any interleaving of the item operations, LRU maintenance, hash table expansion and
  crawler moves, one set of linked items explains all data structures: the counters, the flags, the reference counts (one for the
  table, one per client, one per pending bump), the hash table, the LRU queues, and the chunks of the slab allocator in use.\<close>

theorem cache_reachable_consistent:
  assumes "cache_reach hash c v"
  shows "\<exists>L. finite L \<and> curr_items c = of_nat (card L) \<and> curr_bytes c = (\<Sum>p\<in>L. ITEM_ntotal (mem c p)) \<and>
    (\<forall>p. p \<in> L \<or> 0 < all_refs c (client_refs v) p \<longrightarrow>
       unat (refcount (mem c p)) = all_refs c (client_refs v) p + (if p \<in> L then 1 else 0) \<and>
       (has_flag ITEM_LINKED (mem c p) \<longleftrightarrow> p \<in> L) \<and> \<not> has_flag ITEM_SLABBED (mem c p)) \<and>
    (\<forall>p\<in>L. assoc_find (ITEM_key (mem c p)) (unat (nkey (mem c p))) (item_hash hash (mem c p)) (mem c) (ht c) = Some p) \<and>
    (\<exists>Q. lru_ok c L (crawlers v) Q) \<and>
    slab_inv (cfg c) (mem c) (sl c) ((\<lambda>p. (p, unat (ITEM_clsid (mem c p)))) ` {p. p \<in> L \<or> 0 < all_refs c (client_refs v) p}) (owned v)"
proof -
  let ?G = "all_refs c (client_refs v)"
  obtain L where inv: "cache_inv hash c v L" using cache_reach_inv [OF assms] by blast
  note i = cache_inv_mc [OF inv]
  note r = mc_repD [OF i [unfolded mc_inv_rep]]
  have "assoc_find (ITEM_key (mem c p)) (unat (nkey (mem c p))) (item_hash hash (mem c p)) (mem c) (ht c) = Some p" if "p \<in> L" for p
    using assoc_find_correct [OF r(2) key_ok_length [OF assoc_rep_key_ok [OF r(2) that]]] that
      assoc_abs_eq_Some [OF assoc_rep_inj [OF r(2)], of "ITEM_key (mem c p)" p] by (simp add: item_hash_def)
  moreover have "unat (refcount (mem c p)) = ?G p + (if p \<in> L then 1 else 0) \<and> (has_flag ITEM_LINKED (mem c p) \<longleftrightarrow> p \<in> L) \<and>
      \<not> has_flag ITEM_SLABBED (mem c p)" if "p \<in> L \<or> 0 < ?G p" for p
    using mc_inv_item [OF i, of p] that by (simp add: held_def refs_of_def)
  moreover have "slab_inv (cfg c) (mem c) (sl c) ((\<lambda>p. (p, unat (ITEM_clsid (mem c p)))) ` {p. p \<in> L \<or> 0 < ?G p}) (owned v)"
    using r(3) unfolding live_def refs_of_pos .
  ultimately show ?thesis using r(1,5) unfolding counted_def by (intro exI [of _ L]) blast
qed

theorem cache_reachable_consistent_witness:
  "\<exists>c v. cache_reach zero_hash c v \<and> client_refs v 1096 = 1 \<and> unat (refcount (mem c 1096)) = 2 \<and>
     assoc_find [107] 1 0 (mem c) (ht c) = Some 1096"
proof -
  obtain c v where s: "cache_reach zero_hash c v" "client_refs v = (\<lambda>_. 0)(1096 := 1)" "has_flag ITEM_LINKED (mem c 1096)"
      "ITEM_key (mem c 1096) = [107]" "key_ok (mem c 1096)" "bump_bufs c = [\<lparr>bump_entries = [], dropped = 0\<rparr>]"
    using sample_linked by blast
  have a: "all_refs c (client_refs v) 1096 = 1" using s(2,6) by (simp add: all_refs_def pending_def)
  obtain L where L: "\<forall>p. p \<in> L \<or> 0 < all_refs c (client_refs v) p \<longrightarrow>
       unat (refcount (mem c p)) = all_refs c (client_refs v) p + (if p \<in> L then 1 else 0) \<and>
       (has_flag ITEM_LINKED (mem c p) \<longleftrightarrow> p \<in> L) \<and> \<not> has_flag ITEM_SLABBED (mem c p)"
     "\<forall>p\<in>L. assoc_find (ITEM_key (mem c p)) (unat (nkey (mem c p))) (item_hash zero_hash (mem c p)) (mem c) (ht c) = Some p"
    using cache_reachable_consistent [OF s(1)] by (elim exE conjE)
  have "1096 \<in> L" "unat (refcount (mem c 1096)) = 2" using L(1) [rule_format, of 1096] a s(3) by simp_all
  moreover have "unat (nkey (mem c 1096)) = 1" using key_ok_length [OF s(5)] s(4) by simp
  ultimately show ?thesis using s(1,2,4) L(2) by (intro exI [of _ c] exI [of _ v]) (force simp: item_hash_def zero_hash_def)
qed

text \<open>C3: A lookup in a reachable state returns, and acts on the map of the cache: a key that is absent is a miss and nothing changes; an
  expired or flushed entry is a miss and is removed; any other entry is returned unchanged, with a reference for the client.\<close>

theorem cache_get_refines_map:
  assumes "cache_reach hash c v" and "few_refs c v" and "do_update \<longrightarrow> fst bump_ok < length (bump_bufs c)" and "length key = nk"
  shows "\<exists>p it c'. assoc_find key nk (hash key nk) (mem c) (ht c) = Some p \<and>
    do_item_get bump_ok key nk (hash key nk) do_update c = Some (it, c') \<and> cache_reach hash c' (take_ref it v) \<and>
    (if p = NULL then it = NULL \<and> c' = c \<and> cache_map hash c key = None
     else cache_map hash c key = Some (entry (mem c p)) \<and>
       (if item_is_flushed (cfg c) (current_time c) (mem c p) \<or> exptime (mem c p) \<noteq> 0 \<and> exptime (mem c p) \<le> current_time c
        then it = NULL \<and> cache_map hash c' = (cache_map hash c)(key := None)
        else it = p \<and> cache_map hash c' = cache_map hash c \<and> entry (mem c' p) = entry (mem c p)))"
proof -
  obtain L where inv: "cache_inv hash c v L" using cache_reach_inv [OF assms(1)] by blast
  obtain it c' L' where g: "do_item_get bump_ok key nk (hash key nk) do_update c = Some (it, c')" "get_ok hash c v L key it c' L'"
    using step_get [OF inv assms(2-4)] by blast
  obtain p where p: "assoc_find key nk (hash key nk) (mem c) (ht c) = Some p"
    "assoc_abs (mem c) L key = (if p = NULL then None else Some p)" "p \<noteq> NULL \<longrightarrow> p \<in> L \<and> ITEM_key (mem c p) = key"
    by (rule cache_find [OF inv assms(4)])
  have "cache_step hash c v {it} c' (take_ref it v)" by (rule cache_step.get) (rule assms g(1))+
  then have r: "cache_reach hash c' (take_ref it v)" by (rule cache_reach.step [OF assms(1)])
  have cm: "cache_map hash c key = (if p = NULL then None else Some (entry (mem c p)))" using cache_map_abs [OF inv] p(2) by simp
  have n: "next_ok hash c v L {it} c' (take_ref it v) L'" using g(2) by (simp add: get_ok_def)
  have "if p = NULL then it = NULL \<and> c' = c
    else if dead c (mem c p) then it = NULL \<and> cache_map hash c' = (cache_map hash c)(key := None)
      else it = p \<and> cache_map hash c' = cache_map hash c \<and> entry (mem c' p) = entry (mem c p)"
  proof (cases "p = NULL \<or> dead c (mem c p)")
    case True
    then show ?thesis using g(2) p(2,3) n cache_map_delete [OF inv, of "{it}" c' "take_ref it v" p key] by (auto simp: get_ok_def)
  next
    case False
    then have h: "it = p" "L' = L" "content (mem c' p) = content (mem c p)" using g(2) p(2) by (auto simp: get_ok_def)
    have "cache_map hash c' = cache_map hash c"
      by (rule cache_map_same [OF inv]) (use n h in \<open>auto simp: next_ok_def\<close>)
    then show ?thesis using False h(1) entry_content [OF h(3)] by simp
  qed
  then show ?thesis using p(1) g(1) r cm unfolding dead_def by (intro exI [of _ p] exI [of _ it] exI [of _ c']) simp
qed

theorem cache_get_refines_map_witness:
  "\<exists>c v c'. cache_reach zero_hash c v \<and> do_item_get (0, True) [107] 1 0 True c = Some (1096, c') \<and> cache_map zero_hash c' = cache_map zero_hash c"
proof -
  obtain c v where s: "cache_reach zero_hash c v" "few_refs c v" "cache_inv zero_hash c v {1096}"
      "ITEM_key (mem c 1096) = [107]" "key_ok (mem c 1096)" "exptime (mem c 1096) = 0" "cfg c = sample_slab_settings"
      "bump_bufs c = [\<lparr>bump_entries = [], dropped = 0\<rparr>]"
    using sample_linked by blast
  obtain p it c' where g: "assoc_find [107] 1 (zero_hash [107] 1) (mem c) (ht c) = Some p"
    "do_item_get (0, True) [107] 1 (zero_hash [107] 1) True c = Some (it, c')"
    "if p = NULL then it = NULL \<and> c' = c \<and> cache_map zero_hash c [107] = None
     else cache_map zero_hash c [107] = Some (entry (mem c p)) \<and>
       (if item_is_flushed (cfg c) (current_time c) (mem c p) \<or> exptime (mem c p) \<noteq> 0 \<and> exptime (mem c p) \<le> current_time c
        then it = NULL \<and> cache_map zero_hash c' = (cache_map zero_hash c)([107] := None)
        else it = p \<and> cache_map zero_hash c' = cache_map zero_hash c \<and> entry (mem c' p) = entry (mem c p))"
    using cache_get_refines_map [OF s(1,2), of True "(0, True)" "[107]" 1] s(8) by auto
  have "cache_map zero_hash c [107] \<noteq> None" using cache_map_absent [OF s(3)] s(4) by simp
  then have "p \<noteq> NULL" using g(3) by (cases "p = NULL") simp_all
  then have "p = 1096" using cache_find [OF s(3), of "[107]" 1] g(1) by (metis One_nat_def length_Cons list.size(3) option.inject singletonD)
  then have "it = 1096" "cache_map zero_hash c' = cache_map zero_hash c"
    using g(3) s(6,7) by (auto simp: item_is_flushed_def)
  then show ?thesis using s(1) g(2) by (auto simp: zero_hash_def)
qed

text \<open>C7: The three updates of the index, in a reachable state, on the map of the cache: \<open>do_item_link\<close> on a filled item with an unused key adds its
  entry, with the next CAS value; \<open>do_item_replace\<close> swaps the entry of its key; \<open>do_item_unlink\<close> of a linked item removes its key. All
  return, and every other key keeps its entry.\<close>

theorem cache_store_refines_map:
  assumes "cache_reach hash c v" and "few_refs c v" and "0 < client_refs v p" and "key_ok (mem c p)" and "2 \<le> nbytes (mem c p)"
    and "\<not> has_flag ITEM_LINKED (mem c p)"
  shows "(cache_map hash c (ITEM_key (mem c p)) = None \<longrightarrow>
      (\<exists>c'. do_item_link p (item_hash hash (mem c p)) c = Some c' \<and>
        cache_map hash c' = (cache_map hash c)(ITEM_key (mem c p) \<mapsto> stored_entry c (mem c p)))) \<and>
    (\<forall>q. 0 < client_refs v q \<and> has_flag ITEM_LINKED (mem c q) \<longrightarrow>
      (\<exists>c'. do_item_unlink q (item_hash hash (mem c q)) c = Some c' \<and>
        cache_map hash c' = (cache_map hash c)(ITEM_key (mem c q) := None)) \<and>
      (ITEM_key (mem c q) = ITEM_key (mem c p) \<longrightarrow>
        (\<exists>c'. do_item_replace q p (item_hash hash (mem c q)) c = Some c' \<and>
          cache_map hash c' = (cache_map hash c)(ITEM_key (mem c p) \<mapsto> stored_entry c (mem c p)))))"
proof -
  obtain L where inv: "cache_inv hash c v L" using cache_reach_inv [OF assms(1)] by blast
  have key: "ITEM_key (mem c' p) = ITEM_key (mem c p)" "entry (mem c' p) = stored_entry c (mem c p)"
    if "core (mem c' p) = core (linked_item c (mem c p))" for c'
    using arg_cong [OF linked_stored [OF that], of fst] linked_stored [OF that] by (simp add: entry_def stored_entry_def, simp)
  have "\<exists>c'. do_item_link p (item_hash hash (mem c p)) c = Some c' \<and>
      cache_map hash c' = (cache_map hash c)(ITEM_key (mem c p) \<mapsto> stored_entry c (mem c p))"
    if k: "cache_map hash c (ITEM_key (mem c p)) = None"
  proof -
    obtain c' where l: "do_item_link p (item_hash hash (mem c p)) c = Some c'" "next_ok hash c v L {p} c' v (insert p L)"
        "core (mem c' p) = core (linked_item c (mem c p))" "p \<notin> L"
      using step_link [OF inv assms(2,3,6,4,5) k] by blast
    then show ?thesis using cache_map_insert [OF inv l(2) _ l(4)] key [OF l(3)] by auto
  qed
  moreover have L: "q \<in> L" if "0 < client_refs v q" "has_flag ITEM_LINKED (mem c q)" for q
    using mc_inv_item(5) [OF cache_invD(1) [OF inv] client_held(1) [OF that(1)]] that(2) by simp
  moreover have "\<exists>c'. do_item_unlink q (item_hash hash (mem c q)) c = Some c' \<and>
      cache_map hash c' = (cache_map hash c)(ITEM_key (mem c q) := None)" if "q \<in> L" for q
    using step_unlink [OF inv that] cache_map_delete [OF inv _ _ that refl] by blast
  moreover have "\<exists>c'. do_item_replace q p (item_hash hash (mem c q)) c = Some c' \<and>
      cache_map hash c' = (cache_map hash c)(ITEM_key (mem c p) \<mapsto> stored_entry c (mem c p))"
    if q: "q \<in> L" "ITEM_key (mem c q) = ITEM_key (mem c p)" for q
  proof -
    obtain c' where r: "do_item_replace q p (item_hash hash (mem c q)) c = Some c'" "next_ok hash c v L {q, p} c' v (insert p (L - {q}))"
        "core (mem c' p) = core (linked_item c (mem c p))" "p \<notin> L"
      using step_replace [OF inv assms(2) q(1) assms(3,6,4,5)] q(2) by (metis (no_types, lifting))
    then show ?thesis using cache_map_swap [OF inv r(2) q(1,2) _ r(4)] key [OF r(3)] by auto
  qed
  ultimately show ?thesis by blast
qed

theorem cache_store_refines_map_witness:
  "\<exists>c v c'. cache_reach zero_hash c v \<and> do_item_link 1096 0 c = Some c' \<and> cache_map zero_hash c' = [[107] \<mapsto> stored_entry c (mem c 1096)]"
proof -
  obtain c v where s: "cache_reach zero_hash c v" "few_refs c v" "client_refs v = (\<lambda>_. 0)(1096 := 1)" "\<not> has_flag ITEM_LINKED (mem c 1096)"
      "new_item sample_slab_settings [107] 0 0 4 (mem c 1096)" "cache_map zero_hash c = Map.empty"
    using sample_fresh by blast
  have n: "ITEM_key (mem c 1096) = [107]" "key_ok (mem c 1096)" "nbytes (mem c 1096) = 4" using s(5) by (simp_all add: new_item_def)
  have "0 < client_refs v 1096" "2 \<le> nbytes (mem c 1096)" using s(3) n(3) by simp_all
  from cache_store_refines_map [OF s(1,2) this(1) n(2) this(2) s(4)] n(1) s(6) obtain c' where
    "do_item_link 1096 (item_hash zero_hash (mem c 1096)) c = Some c'" "cache_map zero_hash c' = [[107] \<mapsto> stored_entry c (mem c 1096)]"
    by auto
  then show ?thesis using s(1) by (auto simp: item_hash_def zero_hash_def)
qed

text \<open>C9: A pull of the LRU tail (not asking for an item) returns in every reachable state, whatever locks it gets; it never adds or changes
  an entry, and the state it leaves is again reachable.\<close>

theorem lru_pull_tail_returns:
  assumes "cache_reach hash c v" and "few_refs c v" and "flags AND LRU_PULL_RETURN_ITEM = 0"
  shows "\<exists>n c'. lru_pull_tail hash lk rl orig_id cur_lru total_bytes flags max_age c = Some (n, None, c') \<and>
    cache_map hash c' \<subseteq>\<^sub>m cache_map hash c \<and> cache_reach hash c' v"
proof -
  obtain L where inv: "cache_inv hash c v L" using cache_reach_inv [OF assms(1)] by blast
  obtain n c' L' where p: "lru_pull_tail hash lk rl orig_id cur_lru total_bytes flags max_age c = Some (n, None, c')" "L' \<subseteq> L"
      "next_ok hash c v L {} c' v L'"
    using step_pull [OF inv assms(2,3)] by blast
  have "cache_map hash c' \<subseteq>\<^sub>m cache_map hash c"
    by (rule cache_map_sub [OF inv _ p(2)]) (use next_ok_map [OF inv p(3)] in auto)
  moreover have "cache_step hash c v {} c' v" by (rule cache_step.pull) (rule assms p(1))+
  then have "cache_reach hash c' v" by (rule cache_reach.step [OF assms(1)])
  ultimately show ?thesis using p(1) by blast
qed

theorem lru_pull_tail_returns_witness:
  "\<exists>c v n c'. cache_reach zero_hash c v \<and>
     lru_pull_tail zero_hash (\<lambda>_ _. True) True 1 COLD_LRU 0 LRU_PULL_EVICT 0 c = Some (n, None, c') \<and>
     cache_map zero_hash c' \<subseteq>\<^sub>m cache_map zero_hash c"
proof -
  obtain c v where s: "cache_reach zero_hash c v" "few_refs c v" using sample_linked by blast
  have "LRU_PULL_EVICT AND LRU_PULL_RETURN_ITEM = 0" by simp
  from lru_pull_tail_returns [OF s this] s(1) show ?thesis by blast
qed



text \<open>C6: A reference protects: as long as a client holds a reference to an item, no step of anyone that works on other items (a \<open>set\<close> or \<open>delete\<close>
  of another item, an eviction, a hash table expansion, the crawler, the maintenance thread) changes its key, value, flags, expiry time
  or CAS value, and its memory is not handed out again.\<close>

theorem cache_references_protect:
  assumes "cache_reach hash c v" and "cache_step hash c v T c' v'" and "0 < client_refs v p" and "p \<notin> T"
  shows "content (mem c' p) = content (mem c p) \<and> \<not> has_flag ITEM_SLABBED (mem c' p) \<and> client_refs v' p = client_refs v p"
proof -
  obtain L where inv: "cache_inv hash c v L" using cache_reach_inv [OF assms(1)] by blast
  obtain L' where n: "next_ok hash c v L T c' v' L'" using cache_step_ok [OF assms(2) inv] by blast
  have "client_refs v' p = client_refs v p" using assms(2,4) by cases (auto simp: take_ref_def drop_ref_def)
  moreover from this have "\<not> has_flag ITEM_SLABBED (mem c' p)"
    using mc_inv_item(4) [OF cache_inv_mc [OF next_ok_map(2) [OF inv n]] client_held(1)] assms(3) by simp
  ultimately show ?thesis using n assms(3,4) unfolding next_ok_def by simp
qed

theorem cache_references_protect_witness:
  "\<exists>c v c'. cache_reach zero_hash c v \<and> cache_step zero_hash c v {} c' v \<and> 0 < client_refs v 1096 \<and> \<not> has_flag ITEM_SLABBED (mem c' 1096) \<and>
     content (mem c' 1096) = content (mem c 1096)"
proof -
  obtain c v where s: "cache_reach zero_hash c v" "few_refs c v" "client_refs v = (\<lambda>_. 0)(1096 := 1)" "cache_inv zero_hash c v {1096}"
    using sample_linked by blast
  have "LRU_PULL_EVICT AND LRU_PULL_RETURN_ITEM = 0" by simp
  then obtain c' where st: "cache_step zero_hash c v {} c' v"
    using step_pull [OF s(4,2), of LRU_PULL_EVICT "\<lambda>_ _. True" True 1 COLD_LRU 0 0] cache_step.pull [OF s(2)] by blast
  have "0 < client_refs v 1096" using s(3) by simp
  from cache_references_protect [OF s(1) st this] s(1) st this show ?thesis by blast
qed

end
